(* ===== verification/Prelude.thy ===== *)
theory Prelude
  imports Main "HOL-Library.Word"
begin

unbundle bit_operations_syntax

text \<open>
  Shared vocabulary of the development: the machine integers the C++ code uses, the
  exceptions it raises, the result type that carries them, and the generic lemmas on
  results, lists and words that the component theories rely on.

  A C++ function that may throw is a function into \<open>'a res\<close>, that is
  \<open>chain_exception + 'a\<close>: \<open>Inl\<close> is the exception that leaves the function and \<open>Inr\<close> its
  result. \<open>INE_ASSERT c e k\<close> reads as the macro of the same name followed by the rest
  \<open>k\<close> of the body, and \<open>res_bind\<close> is the sequencing of a call that may throw with the code
  that uses its result. State that a throwing function would leave behind is not part of
  \<open>Inl\<close> for what lives in the chain database: an undo session discards it. The fork database has
  no undo session; its operations leave it unchanged when they throw, except \<open>advance_root\<close>,
  whose definition returns the database that is left behind.
\<close>

section \<open>Machine integers\<close>

type_synonym u8 = "8 word"
type_synonym u16 = "16 word"
type_synonym u32 = "32 word"
type_synonym u64 = "64 word"
type_synonym u128 = "128 word"

text \<open>
  A signed 64-bit integer is kept as its two's complement bits; \<open>sint\<close> reads its value, so
  that \<open>static_cast<uint64_t>\<close> is the identity.
\<close>

type_synonym i64 = "64 word"

text \<open>Names of accounts, permissions and actions are packed into 64 bits (theory \<open>Name_Type\<close>).\<close>

type_synonym account_name = u64
type_synonym permission_name = u64
type_synonym action_name = u64

text \<open>\<open>bytes\<close> is \<open>vector<char>\<close>; a \<open>char\<close> is read as an unsigned byte.\<close>

type_synonym bytes = "u8 list"
type_synonym extensions_type = "(u16 \<times> bytes) list"

section \<open>Exceptions and results\<close>

text \<open>
  The exception classes of \<open>libraries/chain/include/inery/chain/exceptions.hpp\<close> (and of
  \<open>fc\<close>) that the modelled code raises, under their source names. \<open>undefined_behaviour\<close> stands for
  a point at which the C++ program has no defined behaviour (a division by zero, a read past
  the end of a vector): the model stops there.
\<close>

datatype chain_exception =
    name_type_exception
  | symbol_type_exception
  | asset_type_exception
  | fc_overflow_exception
  | fc_parse_error_exception
  | fc_bad_cast_exception
  | fc_assert_exception
  | out_of_range_exception
  | resource_limit_exception
  | rate_limiting_state_inconsistent
  | tx_cpu_usage_exceeded
  | tx_net_usage_exceeded
  | block_resource_exhausted
  | mem_usage_exceeded
  | transaction_exception
  | fork_database_exception
  | unlinkable_block_exception
  | fork_db_block_not_found
  | block_validate_exception
  | wrong_producer
  | wrong_signing_key
  | no_block_signatures
  | producer_schedule_exception
  | unsatisfied_authorization
  | irrelevant_auth_exception
  | missing_auth_exception
  | invalid_permission
  | permission_query_exception
  | authorization_exception
  | tx_irrelevant_sig
  | action_validate_exception
  | protocol_feature_exception
  | protocol_feature_validation_exception
  | protocol_feature_bad_block_exception
  | extract_genesis_state_exception
  | producer_double_confirm
  | invalid_block_header_extension
  | ill_formed_protocol_feature_activation
  | invalid_block_extension
  | ill_formed_additional_block_signatures_extension
  | tx_no_action
  | tx_no_auths
  | cfa_irrelevant_auth
  | expired_tx_exception
  | tx_exp_too_far_exception
  | invalid_ref_block_exception
  | tx_duplicate
  | tx_duplicate_sig
  | insufficient_delay_exception
  | unlinkable_min_permission_action
  | invalid_parent_permission
  | unsupported_multiple_block_signatures
  | protocol_feature_iterator_exception
  | database_exception
  | authority_type_exception
  | action_type_exception
  | unactivated_key_type
  | account_name_exists_exception
  | unauthorized_mem_usage_increase
  | invalid_transaction_extension
  | transaction_type_exception
  | account_query_exception
  | invalid_table_iterator
  | table_not_in_cache
  | ill_formed_deferred_transaction_generation_context
  | tx_too_big
  | tx_decompression_error
  | unknown_transaction_compression
  | sig_variable_size_limit_exception
  | fc_unhandled_exception
  | table_access_violation
  | tx_not_found
  | fc_std_exception
  | invalid_contract_vm_type
  | invalid_contract_vm_version
  | set_exact_code
  | table_operation_not_permitted
  | invalid_table_payer
  | key_blacklist_exception
  | undefined_behaviour
  | std_logic_error
  | std_out_of_range

type_synonym 'a res = "chain_exception + 'a"

abbreviation INE_ASSERT :: "bool \<Rightarrow> chain_exception \<Rightarrow> 'a res \<Rightarrow> 'a res" where
  "INE_ASSERT c e k \<equiv> (if c then k else Inl e)"

definition res_bind :: "'a res \<Rightarrow> ('a \<Rightarrow> 'b res) \<Rightarrow> 'b res" where
  "res_bind r f = (case r of Inl e \<Rightarrow> Inl e | Inr x \<Rightarrow> f x)"

lemma res_bind_simps [simp]:
  "res_bind (Inl e) f = Inl e"
  "res_bind (Inr x) f = f x"
  by (simp_all add: res_bind_def)

lemma res_bind_eq_Inr [simp]:
  "res_bind r f = Inr y \<longleftrightarrow> (\<exists>x. r = Inr x \<and> f x = Inr y)"
  by (cases r) auto

lemma res_bind_eq_Inl:
  "res_bind r f = Inl e \<longleftrightarrow> r = Inl e \<or> (\<exists>x. r = Inr x \<and> f x = Inl e)"
  by (cases r) auto

lemma INE_ASSERT_Inr: "INE_ASSERT c e k = Inr x \<longleftrightarrow> c \<and> k = Inr x"
  by simp

text \<open>\<open>succeeds\<close> takes the successful run of an operation apart into its steps.\<close>

lemmas succeeds = res_bind_eq_Inr INE_ASSERT_Inr Let_def

lemma res_bind_cong [fundef_cong]:
  "r = r' \<Longrightarrow> (\<And>x. r' = Inr x \<Longrightarrow> f x = f' x) \<Longrightarrow> res_bind r f = res_bind r' f'"
  by (cases r') auto

text \<open>
  \<open>INE_RETHROW_EXCEPTIONS\<close>: an exception of the chain library keeps its class, one of \<open>fc\<close> or of
  the standard library is replaced.
\<close>

definition rethrow_as :: "chain_exception \<Rightarrow> 'a res \<Rightarrow> 'a res" where
  "rethrow_as new_exception r =
     (case r of Inr x \<Rightarrow> Inr x
      | Inl e \<Rightarrow> Inl (if e \<in> {fc_overflow_exception, fc_parse_error_exception, fc_bad_cast_exception, fc_assert_exception,
                         out_of_range_exception, fc_unhandled_exception, fc_std_exception, std_logic_error, std_out_of_range}
                     then new_exception else e))"

text \<open>\<open>FC_CAPTURE_AND_RETHROW\<close>: an exception of the standard library becomes one of \<open>fc\<close>.\<close>

definition capture_and_rethrow :: "'a res \<Rightarrow> 'a res" where
  "capture_and_rethrow r =
     (case r of Inr x \<Rightarrow> Inr x
      | Inl e \<Rightarrow> Inl (if e \<in> {std_logic_error, std_out_of_range} then fc_std_exception else e))"

lemma capture_and_rethrow_Inr [simp]: "capture_and_rethrow r = Inr x \<longleftrightarrow> r = Inr x"
  by (cases r) (simp_all add: capture_and_rethrow_def)

text \<open>A loop over a list whose body may throw: it stops at the first exception.\<close>

fun res_fold :: "('a \<Rightarrow> 's \<Rightarrow> 's res) \<Rightarrow> 'a list \<Rightarrow> 's \<Rightarrow> 's res" where
  "res_fold f [] s = Inr s"
| "res_fold f (x # xs) s = res_bind (f x s) (res_fold f xs)"

lemma res_fold_append:
  "res_fold f (xs @ ys) s = res_bind (res_fold f xs s) (res_fold f ys)"
  by (induction xs arbitrary: s) (auto simp: res_bind_def split: sum.splits)

text \<open>An invariant of the body is an invariant of the loop.\<close>

lemma res_fold_invariant:
  assumes "res_fold f xs s = Inr t" and "P s"
    and "\<And>x u v. x \<in> set xs \<Longrightarrow> P u \<Longrightarrow> f x u = Inr v \<Longrightarrow> P v"
  shows "P t"
  using assms
proof (induction xs arbitrary: s)
  case Nil
  then show ?case by simp
next
  case (Cons x xs)
  then obtain u where u: "f x s = Inr u" "res_fold f xs u = Inr t" by auto
  have "P u" using Cons.prems(2,3) u(1) by auto
  then show ?case using Cons.IH [OF u(2)] Cons.prems(3) by auto
qed

text \<open>What the body establishes for its element and keeps for the others holds for all at the end.\<close>

lemma res_fold_all:
  assumes "res_fold f xs s = Inr t" and "x \<in> set xs"
    and "\<And>y u v. y \<in> set xs \<Longrightarrow> f y u = Inr v \<Longrightarrow> Q y v"
    and "\<And>y z u v. f y u = Inr v \<Longrightarrow> Q z u \<Longrightarrow> Q z v"
  shows "Q x t"
  using assms
proof (induction xs arbitrary: s)
  case (Cons y ys)
  then obtain u where u: "f y s = Inr u" "res_fold f ys u = Inr t" by auto
  show ?case
  proof (cases "x \<in> set ys")
    case True
    then show ?thesis using Cons.IH [OF u(2)] Cons.prems(3,4) by auto
  next
    case False
    then have "Q x u" using Cons.prems(2,3) u(1) by auto
    then show ?thesis using res_fold_invariant [OF u(2), of "Q x"] Cons.prems(4) by blast
  qed
qed simp

text \<open>Results computed element by element.\<close>

lemma list_all2_Cons_ex:
  "(\<exists>l. list_all2 P (x # xs) l \<and> Q l) \<longleftrightarrow> (\<exists>k l. P x k \<and> list_all2 P xs l \<and> Q (k # l))"
  by (auto simp: list_all2_Cons1)

section \<open>Rows with distinct keys\<close>

lemma find_append: "find P (xs @ ys) = (case find P xs of None \<Rightarrow> find P ys | Some x \<Rightarrow> Some x)"
  by (induction xs) auto

lemma find_filter_keep: "find P xs = Some y \<Longrightarrow> Q y \<Longrightarrow> find P (filter Q xs) = Some y"
  by (induction xs) (auto split: if_splits)

lemma find_map_keep: "(\<And>x. P (f x) = P x) \<Longrightarrow> find P (map f xs) = map_option f (find P xs)"
  by (induction xs) auto

lemma sum_list_remove_row:
  fixes f :: "'a \<Rightarrow> 'b::ab_group_add"
  assumes "distinct (map k xs)" and "x \<in> set xs"
  shows "sum_list (map f (filter (\<lambda>y. k y \<noteq> k x) xs)) = sum_list (map f xs) - f x"
  using assms
proof (induction xs)
  case (Cons y ys)
  show ?case
  proof (cases "y = x")
    case True
    then have "filter (\<lambda>y. k y \<noteq> k x) ys = ys" using Cons.prems(1) by (intro filter_True) (auto simp: image_iff)
    then show ?thesis using True by simp
  next
    case False
    then have "x \<in> set ys" "k y \<noteq> k x" using Cons.prems by (auto simp: image_iff)
    then show ?thesis using Cons.IH Cons.prems(1) by simp
  qed
qed simp

lemma sum_list_modify_row:
  fixes f :: "'a \<Rightarrow> 'b::ab_group_add"
  assumes "distinct (map k xs)" and "x \<in> set xs"
  shows "sum_list (map f (map (\<lambda>y. if k y = k x then g y else y) xs)) = sum_list (map f xs) + (f (g x) - f x)"
  using assms
proof (induction xs)
  case (Cons y ys)
  show ?case
  proof (cases "y = x")
    case True
    then have "map (\<lambda>y. if k y = k x then g y else y) ys = ys" using Cons.prems(1) by (intro map_idI) (auto simp: image_iff)
    then show ?thesis using True by (simp del: map_map)
  next
    case False
    then have "x \<in> set ys" "k y \<noteq> k x" using Cons.prems by (auto simp: image_iff)
    then show ?thesis using Cons.IH Cons.prems(1) by (simp del: map_map)
  qed
qed simp

section \<open>Words\<close>

text \<open>
  \<open>word_arith\<close> collects the facts that read a machine operation on \<open>nat\<close> or \<open>int\<close> where it does
  not wrap.
\<close>

named_theorems word_arith

lemma unat_add_no_overflow [word_arith]:
  "unat (a :: 'a::len word) + unat b < 2 ^ LENGTH('a) \<Longrightarrow> unat (a + b) = unat a + unat b"
  by (simp add: unat_word_ariths)

lemma unat_mult_no_overflow [word_arith]:
  "unat (a :: 'a::len word) * unat b < 2 ^ LENGTH('a) \<Longrightarrow> unat (a * b) = unat a * unat b"
  by (simp add: unat_word_ariths)

lemma unat_sub_no_borrow [word_arith]:
  "b \<le> a \<Longrightarrow> unat (a - b) = unat a - unat (b :: 'a::len word)"
  by (simp add: unat_sub)

lemma unat_max_minus [word_arith]:
  "unat (- 1 - a :: 'a::len word) = 2 ^ LENGTH('a) - 1 - unat a"
  using unat_sub [OF word_order.extremum, of a] by (simp add: unsigned_minus_1_eq_mask mask_eq_exp_minus_1)

lemma unat_minus_1_64 [simp]: "unat (- 1 :: u64) = 18446744073709551615"
  by (simp add: unsigned_minus_1_eq_mask mask_eq_exp_minus_1)

lemma unat_lt2p: "unat (w :: 'a::len word) < 2 ^ LENGTH('a)"
  by (rule unsigned_less)

lemma unat_ucast_up_simp [word_arith]:
  "LENGTH('a::len) \<le> LENGTH('b::len) \<Longrightarrow> unat (ucast (w :: 'a word) :: 'b word) = unat w"
proof -
  assume le: "LENGTH('a) \<le> LENGTH('b)"
  have "unat w < 2 ^ LENGTH('b)"
    by (rule less_le_trans [OF unat_lt2p power_increasing [OF le]]) simp
  then show ?thesis by (simp add: unsigned_ucast_eq take_bit_nat_eq_self)
qed

lemma unat_word_of_nat_eq [word_arith]:
  "n < 2 ^ LENGTH('a::len) \<Longrightarrow> unat (word_of_nat n :: 'a word) = n"
  by (simp add: unsigned_of_nat take_bit_nat_eq_self)

lemma drop_bit_word_of_nat [word_arith]:
  "n < 2 ^ LENGTH('a::len) \<Longrightarrow> drop_bit k (word_of_nat n :: 'a word) = word_of_nat (n div 2 ^ k)"
proof -
  assume n: "n < 2 ^ LENGTH('a)"
  have "n div 2 ^ k \<le> n" by simp
  with n have "n div 2 ^ k < 2 ^ LENGTH('a)" by linarith
  with n have "unat (drop_bit k (word_of_nat n :: 'a word)) = unat (word_of_nat (n div 2 ^ k) :: 'a word)"
    by (simp only: unat_drop_bit_eq unat_word_of_nat_eq) (simp add: drop_bit_eq_div)
  then show ?thesis by (simp add: word_unat_eq_iff)
qed

lemma word_of_nat_and_1 [word_arith]:
  "(word_of_nat n :: 'a::len word) AND 1 = 0 \<longleftrightarrow> even n"
  by (simp add: and_one_eq flip: even_iff_mod_2_eq_zero)

lemma two_power_pred: "(2::int) ^ (LENGTH('a::len) - 1) < 2 ^ LENGTH('a)"
  by (rule power_strict_increasing) auto

lemma uint_eq_sint: "0 \<le> sint (w :: 'a::len word) \<Longrightarrow> uint w = sint w"
  using sint_lt [of w] two_power_pred [where 'a = 'a]
  by (simp only: uint_sint take_bit_eq_mod) (rule mod_pos_pos_trivial, linarith+)

lemma unat_eq_sint [word_arith]: "0 \<le> sint (w :: 'a::len word) \<Longrightarrow> unat w = nat (sint w)"
  using uint_eq_sint [of w] by (simp flip: nat_uint_eq)

lemma sint_word_of_nat:
  assumes "n < 2 ^ (LENGTH('a) - 1)"
  shows "sint (word_of_nat n :: 'a::len word) = int n"
proof -
  have "int n < 2 ^ (LENGTH('a) - Suc 0)" using assms by (simp flip: of_nat_less_iff)
  then show ?thesis
    by (simp add: signed_of_nat) (intro signed_take_bit_int_eq_self, auto intro: order_trans [of _ 0])
qed

lemma uint_eq_sint_neg: "sint (w :: 'a::len word) < 0 \<Longrightarrow> uint w = sint w + 2 ^ LENGTH('a)"
proof -
  assume neg: "sint w < 0"
  have "(sint w + 2 ^ LENGTH('a)) mod 2 ^ LENGTH('a) = sint w + 2 ^ LENGTH('a)"
    using neg sint_ge [of w] two_power_pred [where 'a = 'a]
    by (intro mod_pos_pos_trivial) linarith+
  then show ?thesis by (simp add: uint_sint take_bit_eq_mod)
qed

text \<open>Adding a signed delta to an unsigned value, where the exact sum is representable.\<close>

lemma uint_add_signed:
  fixes w d :: "'a::len word"
  assumes "0 \<le> uint w + sint d" and "uint w + sint d < 2 ^ LENGTH('a)"
  shows "uint (w + d) = uint w + sint d"
proof -
  have "uint (w + d) = (uint w + uint d) mod 2 ^ LENGTH('a)"
    by (simp add: uint_word_ariths)
  also have "\<dots> = (uint w + sint d) mod 2 ^ LENGTH('a)"
    by (simp add: uint_sint [of d] take_bit_eq_mod mod_add_right_eq)
  finally show ?thesis using assms by simp
qed

lemma uint_minus_signed:
  "sint (d :: 'a::len word) < 0 \<Longrightarrow> uint (- d) = - sint d"
proof -
  assume neg: "sint d < 0"
  have "- sint d < 2 ^ LENGTH('a)" using sint_ge [of d] two_power_pred [where 'a = 'a] by linarith
  then have "(- uint d) mod 2 ^ LENGTH('a) = - sint d"
    unfolding uint_eq_sint_neg [OF neg] using neg
    by (metis add.inverse_inverse add_uminus_conv_diff le_less minus_add_distrib mod_minus_right
        mod_pos_pos_trivial neg_0_less_iff_less minus_mod_self2)
  then show ?thesis by (simp add: uint_word_ariths)
qed

lemma uint_max_minus: "uint (- 1 - a :: 'a::len word) = 2 ^ LENGTH('a) - 1 - uint a"
proof -
  have "Suc (unat a) \<le> 2 ^ LENGTH('a)" using unat_lt2p [of a] by linarith
  then have "int (2 ^ LENGTH('a) - 1 - unat a) = 2 ^ LENGTH('a) - 1 - int (unat a)"
    by (simp add: of_nat_diff)
  then show ?thesis
    using arg_cong [OF unat_max_minus [of a], of int] by simp
qed

definition ceil_div :: "nat \<Rightarrow> nat \<Rightarrow> nat" where
  "ceil_div n d = n div d + (if n mod d = 0 then 0 else 1)"

lemma ceil_div_le: "ceil_div n d \<le> n"
proof (cases "n mod d = 0")
  case False
  then have n: "0 < n" by (intro gr0I) simp
  consider "d = 0" | "d = 1" | "1 < d" by linarith
  then show ?thesis
  proof cases
    case 3
    then have "n div d < n" using n by simp
    then show ?thesis by (simp add: ceil_div_def)
  qed (use n in \<open>simp_all add: ceil_div_def\<close>)
qed (simp add: ceil_div_def)

section \<open>Tables\<close>

text \<open>
  A chainbase table with one unique key besides its id: an association list in the order the
  rows were created. \<open>tbl_find\<close> is \<open>find\<close>, \<open>tbl_get\<close> is \<open>get\<close> (which throws when there is no
  row), \<open>tbl_create\<close> is \<open>create\<close> (which throws when the key is taken), \<open>tbl_modify\<close> is \<open>modify\<close>
  with an updater that leaves the key alone, and \<open>tbl_remove\<close> is \<open>remove\<close>.
\<close>

type_synonym ('k, 'v) tbl = "('k \<times> 'v) list"

definition tbl_find :: "('k, 'v) tbl \<Rightarrow> 'k \<Rightarrow> 'v option" where
  "tbl_find t k = map_of t k"

definition tbl_get :: "('k, 'v) tbl \<Rightarrow> 'k \<Rightarrow> 'v res" where
  "tbl_get t k = (case tbl_find t k of None \<Rightarrow> Inl std_out_of_range | Some v \<Rightarrow> Inr v)"

definition tbl_create :: "'k \<Rightarrow> 'v \<Rightarrow> ('k, 'v) tbl \<Rightarrow> ('k, 'v) tbl res" where
  "tbl_create k v t = (if tbl_find t k = None then Inr (t @ [(k, v)]) else Inl std_logic_error)"

fun tbl_modify :: "'k \<Rightarrow> ('v \<Rightarrow> 'v) \<Rightarrow> ('k, 'v) tbl \<Rightarrow> ('k, 'v) tbl" where
  "tbl_modify k f [] = []"
| "tbl_modify k f ((k', v) # t) = (if k' = k then (k', f v) # t else (k', v) # tbl_modify k f t)"

definition tbl_remove :: "'k \<Rightarrow> ('k, 'v) tbl \<Rightarrow> ('k, 'v) tbl" where
  "tbl_remove k t = filter (\<lambda>(k', v). k' \<noteq> k) t"

definition tbl_ok :: "('k, 'v) tbl \<Rightarrow> bool" where
  "tbl_ok t \<longleftrightarrow> distinct (map fst t)"

text \<open>The contract of such a table, as the components that keep their state in one rely on it.\<close>

locale row_table =
  fixes find :: "'t \<Rightarrow> 'k \<Rightarrow> 'v option"
    and create :: "'k \<Rightarrow> 'v \<Rightarrow> 't \<Rightarrow> 't res"
    and modify :: "'k \<Rightarrow> ('v \<Rightarrow> 'v) \<Rightarrow> 't \<Rightarrow> 't"
    and remove :: "'k \<Rightarrow> 't \<Rightarrow> 't"
    and ok :: "'t \<Rightarrow> bool"
  assumes find_create: "create k v t = Inr t' \<Longrightarrow> find t' j = (if j = k then Some v else find t j)"
    and create_iff: "(\<exists>t'. create k v t = Inr t') \<longleftrightarrow> find t k = None"
    and find_modify: "find (modify k f t) j = (if j = k then map_option f (find t k) else find t j)"
    and find_remove: "find (remove k t) j = (if j = k then None else find t j)"
    and ok_create: "ok t \<Longrightarrow> create k v t = Inr t' \<Longrightarrow> ok t'"
    and ok_modify: "ok t \<Longrightarrow> ok (modify k f t)"
    and ok_remove: "ok t \<Longrightarrow> ok (remove k t)"
begin

lemma find_create_same: "create k v t = Inr t' \<Longrightarrow> find t' k = Some v"
  by (simp add: find_create)

lemma find_modify_dom: "find (modify k f t) j = None \<longleftrightarrow> find t j = None"
  by (auto simp: find_modify)

lemma modify_absent: "find t k = None \<Longrightarrow> find (modify k f t) j = find t j"
  by (simp add: find_modify)

lemma create_then_remove: "create k v t = Inr t' \<Longrightarrow> find (remove k t') j = find t j"
  using create_iff [of k v t] by (auto simp: find_remove find_create)

end

lemma tbl_modify_keys [simp]: "map fst (tbl_modify k f t) = map fst t"
  by (induction k f t rule: tbl_modify.induct) auto

lemma length_tbl_modify [simp]: "length (tbl_modify k f t) = length t"
  by (induction k f t rule: tbl_modify.induct) auto

lemma tbl_find_modify:
  "tbl_find (tbl_modify k f t) j = (if j = k then map_option f (tbl_find t k) else tbl_find t j)"
  by (induction k f t rule: tbl_modify.induct) (auto simp: tbl_find_def)

lemma tbl_find_remove: "tbl_find (tbl_remove k t) j = (if j = k then None else tbl_find t j)"
  by (induction t) (auto simp: tbl_find_def tbl_remove_def)

lemma tbl_find_create:
  "tbl_create k v t = Inr t' \<Longrightarrow> tbl_find t' j = (if j = k then Some v else tbl_find t j)"
  by (auto simp: tbl_create_def tbl_find_def map_add_def split: if_splits option.splits)

lemma tbl_find_None: "tbl_find t k = None \<longleftrightarrow> k \<notin> fst ` set t"
  by (simp add: tbl_find_def map_of_eq_None_iff)

lemma tbl_create_iff: "(\<exists>t'. tbl_create k v t = Inr t') \<longleftrightarrow> tbl_find t k = None"
  by (simp add: tbl_create_def)

lemma tbl_create_fresh: "tbl_create k v t = Inr t' \<Longrightarrow> tbl_find t k = None"
  by (simp add: tbl_create_def split: if_splits)

lemma tbl_ok_create: "tbl_ok t \<Longrightarrow> tbl_create k v t = Inr t' \<Longrightarrow> tbl_ok t'"
  by (auto simp: tbl_ok_def tbl_create_def tbl_find_None split: if_splits)

lemma tbl_ok_modify: "tbl_ok t \<Longrightarrow> tbl_ok (tbl_modify k f t)"
  by (simp add: tbl_ok_def)

lemma tbl_ok_remove: "tbl_ok t \<Longrightarrow> tbl_ok (tbl_remove k t)"
  by (simp add: tbl_ok_def tbl_remove_def distinct_map_filter)

interpretation tbl: row_table tbl_find tbl_create tbl_modify tbl_remove tbl_ok
  by unfold_locales
    (rule tbl_find_create tbl_create_iff tbl_find_modify tbl_find_remove tbl_ok_create
      tbl_ok_modify tbl_ok_remove; assumption)+

lemma tbl_get_Inr [simp]: "tbl_get t k = Inr v \<longleftrightarrow> tbl_find t k = Some v"
  by (simp add: tbl_get_def split: option.splits)

section \<open>Flat maps\<close>

text \<open>
  \<open>flat_map\<close> is a list of pairs sorted by key; \<open>find\<close> is \<open>map_of\<close> and \<open>m[k] = v\<close> is \<open>flat_map_set\<close>.
\<close>

type_synonym ('k, 'v) flat_map = "('k \<times> 'v) list"

fun flat_map_set :: "'k::linorder \<Rightarrow> 'v \<Rightarrow> ('k, 'v) flat_map \<Rightarrow> ('k, 'v) flat_map" where
  "flat_map_set k v [] = [(k, v)]"
| "flat_map_set k v ((k', v') # m) =
     (if k < k' then (k, v) # (k', v') # m
      else if k = k' then (k, v) # m
      else (k', v') # flat_map_set k v m)"

lemma flat_map_set_find [simp]: "map_of (flat_map_set k v m) = (map_of m)(k \<mapsto> v)"
  by (induction k v m rule: flat_map_set.induct) (auto simp: fun_eq_iff)

lemma flat_map_set_keys [simp]: "fst ` set (flat_map_set k v m) = insert k (fst ` set m)"
  by (induction k v m rule: flat_map_set.induct) auto

lemma flat_map_set_sorted [simp]:
  "sorted_wrt (<) (map fst m) \<Longrightarrow> sorted_wrt (<) (map fst (flat_map_set k v m))"
proof (induction k v m rule: flat_map_set.induct)
  case (2 k v k' v' m)
  have "\<forall>x \<in> set (map fst (flat_map_set k v m)). k' < x" if "k' < k"
    using 2(2) that flat_map_set_keys [of k v m] by auto
  then show ?case using 2 by (auto dest: order_trans)
qed simp

lemma flat_map_set_present:
  "sorted_wrt (<) (map fst m) \<Longrightarrow> k \<in> fst ` set m \<Longrightarrow>
     flat_map_set k v m = map (\<lambda>(k', v'). (k', if k' = k then v else v')) m"
proof (induction k v m rule: flat_map_set.induct)
  case (2 k v k' v' m)
  have ne: "map (\<lambda>(j, w). (j, if j = k then v else w)) m = m" if "k \<notin> fst ` set m"
    using that by (intro map_idI) force
  have "k \<notin> fst ` set m" if "k < k' \<or> k = k'" using 2(2) that by force
  then show ?case using 2 ne by (cases "k < k'"; cases "k = k'") auto
qed simp

lemma flat_map_set_subset: "set (flat_map_set k v m) \<subseteq> insert (k, v) (set m)"
  by (induction k v m rule: flat_map_set.induct) auto

end
