(* ===== verification/Name_Type.thy ===== *)
theory Name_Type
  imports Prelude "HOL-Library.Char_ord"
begin

unbundle bit_operations_syntax

text \<open>
  \<open>inery::chain::name\<close> (\<open>libraries/chain/include/inery/chain/name.hpp\<close>, \<open>name.cpp\<close>): a 64-bit
  value that packs up to thirteen characters, twelve of five bits from the top and a
  thirteenth of four bits at the bottom. The theory models the packing
  (\<open>string_to_uint64_t\<close>), the printing (\<open>to_string\<close>) and the checked constructor
  (\<open>name::set\<close>), and shows that printing and the checked constructor are inverse.

  A \<open>std::string_view\<close> is a \<open>string\<close>; the code reads the terminating zero byte one past the
  end, which \<open>str_at\<close> makes explicit.
\<close>

section \<open>Model\<close>

definition str_at :: "string \<Rightarrow> nat \<Rightarrow> char" where
  "str_at s i = (if i < length s then s ! i else CHR 0x00)"

definition char_to_symbol :: "char \<Rightarrow> u64" where
  "char_to_symbol c =
     (if CHR ''a'' \<le> c \<and> c \<le> CHR ''z'' then word_of_nat (of_char c - of_char CHR ''a'' + 6)
      else if CHR ''1'' \<le> c \<and> c \<le> CHR ''5'' then word_of_nat (of_char c - of_char CHR ''1'' + 1)
      else 0)"

text \<open>The \<open>for\<close> loop: it returns \<open>n\<close> and the index at which it stopped.\<close>

function string_to_uint64_loop :: "string \<Rightarrow> nat \<Rightarrow> u64 \<Rightarrow> u64 \<times> nat" where
  "string_to_uint64_loop s i n =
     (if str_at s i \<noteq> CHR 0x00 \<and> i < 12
      then string_to_uint64_loop s (Suc i)
             (n OR push_bit (64 - 5 * (i + 1)) (char_to_symbol (str_at s i) AND 0x1f))
      else (n, i))"
  by pat_completeness auto
termination
  by (relation "measure (\<lambda>(s, i, n). 12 - i)") auto

definition string_to_uint64_t :: "string \<Rightarrow> u64" where
  "string_to_uint64_t s =
     (let (n, i) = string_to_uint64_loop s 0 0
      in if i = 12 then n OR (char_to_symbol (str_at s 12) AND 0x0F) else n)"

definition charmap :: string where
  "charmap = ''.12345abcdefghijklmnopqrstuvwxyz''"

text \<open>
  The \<open>for\<close> loop of \<open>to_string\<close>: \<open>name_chars i tmp\<close> is the part of \<open>str\<close> that the iterations
  \<open>i, \<dots>, 12\<close> write, left to right; iteration \<open>i\<close> writes position \<open>12 - i\<close>.
\<close>

function name_chars :: "nat \<Rightarrow> u64 \<Rightarrow> string" where
  "name_chars i tmp =
     (if i \<le> 12
      then name_chars (Suc i) (drop_bit (if i = 0 then 4 else 5) tmp)
             @ [charmap ! unat (tmp AND (if i = 0 then 0x0f else 0x1f))]
      else [])"
  by pat_completeness auto
termination
  by (relation "measure (\<lambda>(i, tmp). 13 - i)") auto

definition trim_right_dots :: "string \<Rightarrow> string" where
  "trim_right_dots s = rev (dropWhile (\<lambda>c. c = CHR ''.'') (rev s))"

definition name_to_string :: "u64 \<Rightarrow> string" where
  "name_to_string value = trim_right_dots (name_chars 0 value)"

definition name_set :: "string \<Rightarrow> u64 res" where
  "name_set str =
     INE_ASSERT (length str \<le> 13) name_type_exception
       (let value = string_to_uint64_t str
        in INE_ASSERT (name_to_string value = str) name_type_exception (Inr value))"

declare string_to_uint64_loop.simps [simp del]
declare name_chars.simps [simp del]

section \<open>Printing and parsing are inverse\<close>

text \<open>The value of character \<open>i\<close> as the packing reads it; \<open>0\<close> past the end.\<close>

definition sym_at :: "string \<Rightarrow> nat \<Rightarrow> u64" where
  "sym_at s i = char_to_symbol (str_at s i)"

definition packed :: "(nat \<Rightarrow> u64) \<Rightarrow> nat \<Rightarrow> u64" where
  "packed f i = foldr (\<lambda>j a. push_bit (64 - 5 * (j + 1)) (f j AND 0x1f) OR a) [i..<12] 0"

lemma char_to_symbol_nul [simp]: "char_to_symbol CHR 0x00 = 0"
  by (simp add: char_to_symbol_def less_eq_char_def)

lemma char_to_symbol_dot [simp]: "char_to_symbol CHR ''.'' = 0"
  by (simp add: char_to_symbol_def less_eq_char_def)

lemma packed_step:
  "i < 12 \<Longrightarrow> packed f i = push_bit (64 - 5 * (i + 1)) (f i AND 0x1f) OR packed f (Suc i)"
  by (simp add: packed_def upt_conv_Cons)

lemma packed_zero: "(\<And>j. i \<le> j \<Longrightarrow> f j = 0) \<Longrightarrow> packed f i = 0"
proof (induction "12 - i" arbitrary: i)
  case 0
  then show ?case by (simp add: packed_def)
next
  case (Suc n)
  then show ?case using Suc.hyps(1) [of "Suc i"] by (simp add: packed_step)
qed

lemma string_to_uint64_loop_eq:
  assumes "CHR 0x00 \<notin> set s" and "i \<le> 12" and "i \<le> length s"
  shows "string_to_uint64_loop s i n = (n OR packed (sym_at s) i, min 12 (length s))"
  using assms
proof (induction s i n rule: string_to_uint64_loop.induct)
  case (1 s i n)
  consider (run) "i < length s" "i < 12" | (full) "i = 12" | (stop) "i = length s" "i < 12"
    using "1.prems" by linarith
  then show ?case
  proof cases
    case run
    have nz: "str_at s i \<noteq> CHR 0x00"
      using run "1.prems"(1) nth_mem [of i s] by (metis str_at_def)
    have "string_to_uint64_loop s i n = string_to_uint64_loop s (Suc i)
        (n OR push_bit (64 - 5 * (i + 1)) (char_to_symbol (str_at s i) AND 0x1f))"
      using nz run by (subst string_to_uint64_loop.simps) (simp only: simp_thms if_True)
    also have "\<dots> = ((n OR push_bit (64 - 5 * (i + 1)) (char_to_symbol (str_at s i) AND 0x1f))
        OR packed (sym_at s) (Suc i), min 12 (length s))"
      using "1.IH" nz run "1.prems" by auto
    also have "\<dots> = (n OR packed (sym_at s) i, min 12 (length s))"
      using run by (simp only: packed_step sym_at_def or.assoc)
    finally show ?thesis .
  next
    case full
    then show ?thesis using "1.prems"
      by (subst string_to_uint64_loop.simps) (simp add: packed_def)
  next
    case stop
    have "packed (sym_at s) i = 0"
      by (rule packed_zero) (simp add: sym_at_def str_at_def stop)
    then show ?thesis using stop
      by (subst string_to_uint64_loop.simps) (simp add: str_at_def)
  qed
qed

lemma string_to_uint64_t_eq:
  assumes "CHR 0x00 \<notin> set s"
  shows "string_to_uint64_t s = packed (sym_at s) 0 OR (sym_at s 12 AND 0x0F)"
proof -
  have eq: "string_to_uint64_loop s 0 0 = (packed (sym_at s) 0, min 12 (length s))"
    using string_to_uint64_loop_eq [OF assms, of 0 0] by simp
  show ?thesis
  proof (cases "length s < 12")
    case True
    then have "min 12 (length s) \<noteq> 12" "sym_at s 12 = 0"
      by (simp_all add: sym_at_def str_at_def)
    then show ?thesis
      unfolding string_to_uint64_t_def eq Let_def prod.case by (simp only: if_False) simp
  next
    case False
    then have "min 12 (length s) = 12" by simp
    then show ?thesis
      unfolding string_to_uint64_t_def eq Let_def prod.case sym_at_def by (simp only: refl if_True)
  qed
qed

lemma trim_right_dots_append: "\<exists>k. s = trim_right_dots s @ replicate k CHR ''.''"
proof -
  let ?k = "length (takeWhile (\<lambda>c. c = CHR ''.'') (rev s))"
  have "takeWhile (\<lambda>c. c = CHR ''.'') (rev s) = replicate ?k CHR ''.''"
    by (rule replicate_length_same [symmetric]) (auto dest: set_takeWhileD)
  then have "rev s = replicate ?k CHR ''.'' @ dropWhile (\<lambda>c. c = CHR ''.'') (rev s)"
    using takeWhile_dropWhile_id [of "\<lambda>c. c = CHR ''.''" "rev s"] by simp
  then have "s = trim_right_dots s @ replicate ?k CHR ''.''"
    unfolding trim_right_dots_def by (metis rev_append rev_replicate rev_rev_ident)
  then show ?thesis ..
qed

text \<open>Trailing dots pack to zero bits, so trimming them does not change the value.\<close>

lemma sym_at_append_dots: "sym_at (s @ replicate k CHR ''.'') = sym_at s"
  by (auto simp: fun_eq_iff sym_at_def str_at_def nth_append)

lemma string_to_uint64_t_trim:
  assumes "CHR 0x00 \<notin> set s"
  shows "string_to_uint64_t (trim_right_dots s) = string_to_uint64_t s"
proof -
  obtain k where k: "s = trim_right_dots s @ replicate k CHR ''.''"
    using trim_right_dots_append by blast
  have "set (trim_right_dots s) \<subseteq> set s"
    by (subst (2) k) auto
  then have "CHR 0x00 \<notin> set (trim_right_dots s)" using assms by auto
  moreover have "sym_at (trim_right_dots s) = sym_at s"
    using k sym_at_append_dots [of "trim_right_dots s" k] by simp
  ultimately show ?thesis using assms by (simp add: string_to_uint64_t_eq)
qed

lemma char_to_symbol_charmap: "k < 32 \<Longrightarrow> char_to_symbol (charmap ! k) = word_of_nat k"
proof -
  have "\<forall>k \<in> set [0..<32]. char_to_symbol (charmap ! k) = word_of_nat k"
    by code_simp
  then show "k < 32 \<Longrightarrow> ?thesis" by simp
qed

lemma charmap_no_nul: "k < 32 \<Longrightarrow> charmap ! k \<noteq> CHR 0x00"
proof -
  have "\<forall>k \<in> set [0..<32]. charmap ! k \<noteq> CHR 0x00"
    by code_simp
  then show "k < 32 \<Longrightarrow> ?thesis" by simp
qed

lemma and_small: "unat (w AND 0x1f :: u64) < 32" "unat (w AND 0x0f :: u64) < 32"
proof -
  have "w AND 0x1f \<le> 0x1f" "w AND 0x0f \<le> 0x0f"
    by (rule word_and_le1)+
  then show "unat (w AND 0x1f :: u64) < 32" "unat (w AND 0x0f :: u64) < 32"
    by (auto simp: word_le_nat_alt)
qed

lemma name_chars_unfold:
  "name_chars 0 v =
     map (\<lambda>j. charmap ! unat (drop_bit (4 + 5 * (11 - j)) v AND 0x1f)) [0..<12]
       @ [charmap ! unat (v AND 0x0f)]"
  by (simp add: name_chars.simps upt_rec [of _ 12] drop_bit_drop_bit)


lemma sym_at_name_chars:
  "j < 12 \<Longrightarrow> sym_at (name_chars 0 v) j = drop_bit (4 + 5 * (11 - j)) v AND 0x1f"
  "sym_at (name_chars 0 v) 12 = v AND 0x0f"
  by (simp_all add: sym_at_def str_at_def name_chars_unfold nth_append
      char_to_symbol_charmap and_small del: upt_Suc)

lemma packed_bits:
  "packed (\<lambda>j. drop_bit (4 + 5 * (11 - j)) v AND 0x1f) 0 OR (v AND 0x0f) = v"
  (is "?l = v")
proof (rule bit_word_eqI)
  have "list_all (\<lambda>n. bit ?l n = bit v n) [0..<64]"
    by (simp add: packed_def upt_rec bit_simps) (simp add: numeral_eq_Suc)
  moreover fix n assume "n < LENGTH(64)"
  ultimately show "bit ?l n = bit v n"
    by (simp add: list_all_iff)
qed


lemma name_chars_no_nul: "CHR 0x00 \<notin> set (name_chars 0 v)"
  unfolding name_chars_unfold
  by (auto simp: charmap_no_nul and_small dest!: sym [of "CHR 0x00"] simp del: upt_Suc)

lemma string_to_uint64_t_name_chars: "string_to_uint64_t (name_chars 0 v) = v"
proof -
  have "CHR 0x00 \<notin> set (name_chars 0 v)" by (rule name_chars_no_nul)
  moreover have "packed (sym_at (name_chars 0 v)) 0
      = packed (\<lambda>j. drop_bit (4 + 5 * (11 - j)) v AND 0x1f) 0"
    unfolding packed_def
    by (rule foldr_cong) (simp_all add: sym_at_name_chars)
  ultimately show ?thesis
    by (simp add: string_to_uint64_t_eq sym_at_name_chars packed_bits and.assoc)
qed

lemma length_name_chars: "length (name_chars 0 v) = 13"
  by (simp add: name_chars_unfold)

lemma length_trim_right_dots: "length (trim_right_dots s) \<le> length s"
  using length_dropWhile_le [of _ "rev s"] by (simp add: trim_right_dots_def)

text \<open>
  C19. For every 64-bit value and every string, the checked constructor \<open>name::set\<close> accepts
  the string with that value exactly when the string is what \<open>name::to_string\<close> prints for
  it: every value survives printing and parsing, and no string other than the printed form
  of a name is accepted.
\<close>

theorem name_set_iff_to_string: "name_set s = Inr v \<longleftrightarrow> name_to_string v = s"
proof
  assume "name_set s = Inr v"
  then show "name_to_string v = s"
    by (auto simp: name_set_def Let_def split: if_splits)
next
  assume s: "name_to_string v = s"
  have "string_to_uint64_t s = v"
    unfolding s [symmetric] name_to_string_def
    by (simp add: string_to_uint64_t_trim name_chars_no_nul string_to_uint64_t_name_chars)
  moreover have "length s \<le> 13"
    using s length_trim_right_dots [of "name_chars 0 v"] length_name_chars [of v]
    by (simp add: name_to_string_def)
  ultimately show "name_set s = Inr v" using s by (simp add: name_set_def)
qed

end
