(* ===== verification/Digest.thy ===== *)
theory Digest
  imports Prelude
begin

unbundle bit_operations_syntax

text \<open>
  \<open>fc::sha256\<close> as the chain library uses it: four 64-bit words, ordered by \<open>sha256_less\<close>
  (\<open>types.hpp\<close>), which is the order of the fork database's index. The hash function itself
  is not part of this repository's own logic (\<open>fc\<close> calls OpenSSL): every definition that
  hashes takes it as a parameter. The theory also holds \<open>fc::endian_reverse_u32\<close>, by which a
  block number is stored in the first bytes of a block id.
\<close>

datatype sha256 = sha256 (hash0: u64) (hash1: u64) (hash2: u64) (hash3: u64)

type_synonym digest_type = sha256
type_synonym block_id_type = sha256

text \<open>The default constructor \<open>digest_type()\<close>.\<close>

definition zero_digest :: digest_type where
  "zero_digest = sha256 0 0 0 0"

fun sha256_less :: "sha256 \<Rightarrow> sha256 \<Rightarrow> bool" where
  "sha256_less (sha256 a0 a1 a2 a3) (sha256 b0 b1 b2 b3) \<longleftrightarrow>
     a0 < b0 \<or> a0 = b0 \<and> (a1 < b1 \<or> a1 = b1 \<and> (a2 < b2 \<or> a2 = b2 \<and> a3 < b3))"

instantiation sha256 :: linorder
begin

definition less_sha256 :: "sha256 \<Rightarrow> sha256 \<Rightarrow> bool" where
  "less_sha256 = sha256_less"

definition less_eq_sha256 :: "sha256 \<Rightarrow> sha256 \<Rightarrow> bool" where
  "less_eq_sha256 a b \<longleftrightarrow> sha256_less a b \<or> a = b"

instance
proof
  fix x y z :: sha256
  show "(x < y) = (x \<le> y \<and> \<not> y \<le> x)"
    by (cases x; cases y) (auto simp: less_sha256_def less_eq_sha256_def)
  show "x \<le> x"
    by (simp add: less_eq_sha256_def)
  show "x \<le> y \<Longrightarrow> y \<le> z \<Longrightarrow> x \<le> z"
    by (cases x; cases y; cases z) (auto simp: less_eq_sha256_def)
  show "x \<le> y \<Longrightarrow> y \<le> x \<Longrightarrow> x = y"
    by (cases x; cases y) (auto simp: less_eq_sha256_def)
  show "x \<le> y \<or> y \<le> x"
    by (cases x; cases y) (auto simp: less_eq_sha256_def)
qed

end

definition endian_reverse_u32 :: "u32 \<Rightarrow> u32" where
  "endian_reverse_u32 x =
     (drop_bit 0x18 x AND 0xFF)
     OR push_bit 0x08 (drop_bit 0x10 x AND 0xFF)
     OR push_bit 0x10 (drop_bit 0x08 x AND 0xFF)
     OR push_bit 0x18 (x AND 0xFF)"

lemma endian_reverse_u32_involution [simp]:
  "endian_reverse_u32 (endian_reverse_u32 x) = x" (is "?l = x")
proof (rule bit_word_eqI)
  have "list_all (\<lambda>n. bit ?l n = bit x n) [0..<32]"
    by (simp add: endian_reverse_u32_def upt_rec bit_simps) (simp add: numeral_eq_Suc)
  moreover fix n assume "n < LENGTH(32)"
  ultimately show "bit ?l n = bit x n"
    by (simp add: list_all_iff)
qed

end
