(* ===== verification/Merkle.thy ===== *)
theory Merkle
  imports Digest
begin

unbundle bit_operations_syntax

text \<open>
  \<open>libraries/chain/merkle.cpp\<close> and \<open>incremental_merkle.hpp\<close>: the Merkle root of a list of
  digests, computed in one go (\<open>merkle\<close>), and the structure that maintains the root while
  digests are appended one at a time (\<open>incremental_merkle_impl\<close>), which the block header
  state uses for the ids of all previous blocks. The main theorem is that the two agree.

  The digest function \<open>DigestType::hash\<close> on a pair of digests is the parameter \<open>H\<close>; nothing is
  assumed of it.
\<close>

section \<open>Canonical pairs and the batch root\<close>

definition make_canonical_left :: "digest_type \<Rightarrow> digest_type" where
  "make_canonical_left v =
     sha256 (hash0 v AND 0xFFFFFFFFFFFFFF7F) (hash1 v) (hash2 v) (hash3 v)"

definition make_canonical_right :: "digest_type \<Rightarrow> digest_type" where
  "make_canonical_right v =
     sha256 (hash0 v OR 0x0000000000000080) (hash1 v) (hash2 v) (hash3 v)"

definition is_canonical_left :: "digest_type \<Rightarrow> bool" where
  "is_canonical_left v \<longleftrightarrow> hash0 v AND 0x0000000000000080 = 0"

definition is_canonical_right :: "digest_type \<Rightarrow> bool" where
  "is_canonical_right v \<longleftrightarrow> hash0 v AND 0x0000000000000080 \<noteq> 0"

definition make_canonical_pair :: "digest_type \<Rightarrow> digest_type \<Rightarrow> digest_type \<times> digest_type" where
  "make_canonical_pair l r = (make_canonical_left l, make_canonical_right r)"

text \<open>
  One iteration of the \<open>while\<close> loop of \<open>merkle\<close>: the last digest is repeated when their
  number is odd, then each pair is hashed into the next, half as long, vector.
\<close>

fun merkle_pairs :: "(digest_type \<times> digest_type \<Rightarrow> digest_type) \<Rightarrow> digest_type list \<Rightarrow> digest_type list" where
  "merkle_pairs H (a # b # ids) = H (make_canonical_pair a b) # merkle_pairs H ids"
| "merkle_pairs H [a] = [H (make_canonical_pair a a)]"
| "merkle_pairs H [] = []"

lemma length_merkle_pairs: "length (merkle_pairs H ids) = (length ids + 1) div 2"
  by (induction H ids rule: merkle_pairs.induct) auto

function merkle :: "(digest_type \<times> digest_type \<Rightarrow> digest_type) \<Rightarrow> digest_type list \<Rightarrow> digest_type" where
  "merkle H ids =
     (case ids of [] \<Rightarrow> zero_digest
      | [a] \<Rightarrow> a
      | _ \<Rightarrow> merkle H (merkle_pairs H ids))"
  by pat_completeness auto
termination
  by (relation "measure (\<lambda>(H, ids). length ids)") (auto simp: length_merkle_pairs)

declare merkle.simps [simp del]

section \<open>The incremental tree\<close>

definition next_power_of_2 :: "u64 \<Rightarrow> u64" where
  "next_power_of_2 v0 =
     (let v = v0 - 1;
          v = v OR drop_bit 1 v;
          v = v OR drop_bit 2 v;
          v = v OR drop_bit 4 v;
          v = v OR drop_bit 8 v;
          v = v OR drop_bit 16 v;
          v = v OR drop_bit 32 v
      in v + 1)"

definition clz_power_2 :: "u64 \<Rightarrow> int" where
  "clz_power_2 v =
     (let lz = 64;
          lz = (if v \<noteq> 0 then lz - 1 else lz);
          lz = (if v AND 0x00000000FFFFFFFF \<noteq> 0 then lz - 32 else lz);
          lz = (if v AND 0x0000FFFF0000FFFF \<noteq> 0 then lz - 16 else lz);
          lz = (if v AND 0x00FF00FF00FF00FF \<noteq> 0 then lz - 8 else lz);
          lz = (if v AND 0x0F0F0F0F0F0F0F0F \<noteq> 0 then lz - 4 else lz);
          lz = (if v AND 0x3333333333333333 \<noteq> 0 then lz - 2 else lz);
          lz = (if v AND 0x5555555555555555 \<noteq> 0 then lz - 1 else lz)
      in lz)"

definition calcluate_max_depth :: "u64 \<Rightarrow> int" where
  "calcluate_max_depth node_count =
     (if node_count = 0 then 0 else clz_power_2 (next_power_of_2 node_count) + 1)"

record incremental_merkle =
  node_count :: u64
  active_nodes :: "digest_type list"

definition empty_incremental_merkle :: incremental_merkle where
  "empty_incremental_merkle = \<lparr>node_count = 0, active_nodes = []\<rparr>"

text \<open>
  The \<open>while\<close> loop of \<open>append\<close>; its state is \<open>current_depth\<close>, \<open>index\<close>, \<open>top\<close> (here \<open>top_v\<close>), \<open>partial\<close>, the
  nodes from \<open>active_iter\<close> on and \<open>updated_active_nodes\<close>. Dereferencing \<open>active_iter\<close> at the end
  of the vector is undefined behaviour, for which the result is \<open>None\<close>.
\<close>

fun append_loop ::
  "(digest_type \<times> digest_type \<Rightarrow> digest_type) \<Rightarrow> nat \<Rightarrow> u64 \<Rightarrow> digest_type \<Rightarrow> bool \<Rightarrow> digest_type list
   \<Rightarrow> digest_type list \<Rightarrow> (digest_type \<times> digest_type list) option" where
  "append_loop H 0 index top_v partial active updated = Some (top_v, updated)"
| "append_loop H (Suc d) index top_v partial active updated =
     (if index AND 1 = 0 then
        append_loop H d (drop_bit 1 index) (H (make_canonical_pair top_v top_v)) True active
          (if partial then updated else updated @ [top_v])
      else
        (case active of [] \<Rightarrow> None
         | left_value # rest \<Rightarrow>
             append_loop H d (drop_bit 1 index) (H (make_canonical_pair left_value top_v)) partial rest
               (if partial then updated @ [left_value] else updated)))"

definition merkle_append :: "(digest_type \<times> digest_type \<Rightarrow> digest_type) \<Rightarrow> digest_type \<Rightarrow> incremental_merkle
    \<Rightarrow> incremental_merkle option" where
  "merkle_append H digest m =
     (let max_depth = calcluate_max_depth (node_count m + 1);
          current_depth = max_depth - 1
      in case append_loop H (nat current_depth) (node_count m) digest False (active_nodes m) [] of
           None \<Rightarrow> None
         | Some (top_v, updated) \<Rightarrow>
             Some \<lparr>node_count = node_count m + 1, active_nodes = updated @ [top_v]\<rparr>)"

definition get_root :: "incremental_merkle \<Rightarrow> digest_type" where
  "get_root m = (if 0 < node_count m then last (active_nodes m) else zero_digest)"

section \<open>Canonical sides\<close>

lemma canonical_sides:
  "is_canonical_left (make_canonical_left v)"
  "is_canonical_right (make_canonical_right v)"
  "is_canonical_right v \<longleftrightarrow> \<not> is_canonical_left v"
proof -
  have "(0xFFFFFFFFFFFFFF7F :: u64) AND 0x80 = 0" by simp
  then show "is_canonical_left (make_canonical_left v)"
    by (simp add: is_canonical_left_def make_canonical_left_def and.assoc)
  have "bit (hash0 (make_canonical_right v) AND 0x80) 7"
    by (simp add: make_canonical_right_def bit_simps)
  then show "is_canonical_right (make_canonical_right v)"
    unfolding is_canonical_right_def by (metis bit_0_eq bot_apply bot_bool_def)
  show "is_canonical_right v \<longleftrightarrow> \<not> is_canonical_left v"
    by (simp add: is_canonical_left_def is_canonical_right_def)
qed

section \<open>The depth of the tree\<close>

text \<open>The number of binary digits of \<open>n\<close>, the number of levels above the leaves when the leaf
  with index \<open>n\<close> is appended.\<close>

fun bit_length :: "nat \<Rightarrow> nat" where
  "bit_length n = (if n = 0 then 0 else Suc (bit_length (n div 2)))"

declare bit_length.simps [simp del]

lemma bit_length_0 [simp]: "bit_length 0 = 0"
  by (simp add: bit_length.simps)

lemma bit_length_eq_0 [simp]: "bit_length n = 0 \<longleftrightarrow> n = 0"
  by (subst bit_length.simps) simp

lemma bit_length_pos: "0 < n \<Longrightarrow> bit_length n = Suc (bit_length (n div 2))"
  by (simp add: bit_length.simps)

lemma bit_length_upper: "n < 2 ^ bit_length n"
proof (induction n rule: bit_length.induct)
  case (1 n)
  then show ?case
    by (cases "n = 0") (simp_all add: bit_length_pos)
qed

lemma bit_length_lower: "0 < n \<Longrightarrow> 2 ^ (bit_length n - 1) \<le> n"
proof (induction n rule: bit_length.induct)
  case (1 n)
  show ?case
  proof (cases "n = 1")
    case True
    then show ?thesis by (simp add: bit_length.simps)
  next
    case False
    with 1 have "2 ^ (bit_length (n div 2) - 1) \<le> n div 2" "0 < n div 2" by auto
    moreover have "bit_length (n div 2) = Suc (bit_length (n div 2) - 1)"
      using bit_length_pos [OF \<open>0 < n div 2\<close>] by simp
    ultimately show ?thesis using 1(2)
      by (metis bit_length_pos diff_Suc_1 div_le_dividend le_div_geq le_trans mult.commute
          mult_le_mono2 nat_le_linear power_Suc times_div_less_eq_dividend)
  qed
qed


lemma smear_step:
  fixes v x :: u64
  assumes "\<And>i. bit x i \<longleftrightarrow> (\<exists>j<k. bit v (i + j))"
  shows "bit (x OR drop_bit k x) i \<longleftrightarrow> (\<exists>j<2 * k. bit v (i + j))"
proof -
  have "(\<exists>j<2 * k. bit v (i + j)) \<longleftrightarrow> (\<exists>j<k. bit v (i + j)) \<or> (\<exists>j<k. bit v (k + i + j))"
    (is "?l \<longleftrightarrow> ?a \<or> ?b")
  proof
    assume ?l
    then obtain j where j: "j < 2 * k" "bit v (i + j)" by blast
    show "?a \<or> ?b"
    proof (cases "j < k")
      case False
      then have "k + i + (j - k) = i + j" "j - k < k" using j by auto
      then show ?thesis using j by metis
    qed (use j in blast)
  next
    assume "?a \<or> ?b"
    then show ?l
    proof
      assume ?b
      then obtain j where "j < k" "bit v (k + i + j)" by blast
      then have "k + j < 2 * k" "bit v (i + (k + j))" by (auto simp: ac_simps)
      then show ?l by blast
    qed (use mult_2 in force)
  qed
  then show ?thesis using assms by (simp add: bit_simps)
qed

lemma bit_nat_bit_length:
  "bit_length n \<le> m \<Longrightarrow> \<not> bit n m"
  "0 < n \<Longrightarrow> bit n (bit_length n - 1)"
proof -
  assume "bit_length n \<le> m"
  then have "n < 2 ^ m" using bit_length_upper [of n]
    by (meson less_le_trans one_le_numeral power_increasing)
  then show "\<not> bit n m" by (simp add: bit_iff_odd)
next
  assume n: "0 < n"
  let ?m = "bit_length n - 1"
  have "2 ^ ?m \<le> n" "n < 2 * 2 ^ ?m"
    using bit_length_lower [OF n] bit_length_upper [of n] bit_length_pos [OF n]
    by (simp_all flip: power_Suc)
  then have "n div 2 ^ ?m = 1"
    by (intro div_nat_eqI) auto
  then show "bit n ?m" by (simp add: bit_iff_odd)
qed

lemma smear_mask:
  fixes x :: u64
  assumes "n < 2 ^ 63" and "\<And>i. bit x i \<longleftrightarrow> (\<exists>j<64. bit (word_of_nat n :: u64) (i + j))"
  shows "x + 1 = 2 ^ bit_length n"
proof -
  have le: "bit_length n \<le> 63"
  proof (rule ccontr)
    assume "\<not> bit_length n \<le> 63"
    then have "(2::nat) ^ 63 \<le> 2 ^ (bit_length n - 1)"
      by (intro power_increasing) auto
    also have "\<dots> \<le> n"
      using \<open>\<not> bit_length n \<le> 63\<close> by (intro bit_length_lower) (auto intro: ccontr)
    finally show False using assms(1) by simp
  qed
  have "x = mask (bit_length n)"
  proof (rule bit_word_eqI)
    fix i assume i: "i < LENGTH(64)"
    have "bit x i \<longleftrightarrow> i < bit_length n"
    proof
      assume "bit x i"
      then obtain j where "bit n (i + j)" using assms(2) by (auto simp: bit_simps)
      then show "i < bit_length n"
        using bit_nat_bit_length(1) [of n "i + j"] by (metis add_lessD1 not_le)
    next
      assume lt: "i < bit_length n"
      then have "bit n (bit_length n - 1)"
        by (intro bit_nat_bit_length) (auto intro: ccontr)
      then have "bit (word_of_nat n :: u64) (i + (bit_length n - 1 - i))"
        using lt le by (simp add: bit_simps)
      moreover have "bit_length n - 1 - i < 64" using le by simp
      ultimately show "bit x i" unfolding assms(2) by blast
    qed
    then show "bit x i = bit (mask (bit_length n) :: u64) i"
      using le i by (simp add: bit_simps)
  qed
  then show ?thesis by (simp add: mask_eq_exp_minus_1)
qed

lemma next_power_of_2_eq:
  assumes "n < 2 ^ 63"
  shows "next_power_of_2 (word_of_nat n + 1) = 2 ^ bit_length n"
proof -
  let ?v = "word_of_nat n :: u64"
  define v1 where "v1 = ?v OR drop_bit 1 ?v"
  define v2 where "v2 = v1 OR drop_bit 2 v1"
  define v3 where "v3 = v2 OR drop_bit 4 v2"
  define v4 where "v4 = v3 OR drop_bit 8 v3"
  define v5 where "v5 = v4 OR drop_bit 16 v4"
  define v6 where "v6 = v5 OR drop_bit 32 v5"
  have 1: "bit v1 i \<longleftrightarrow> (\<exists>j<2. bit ?v (i + j))" for i
    unfolding v1_def using smear_step [of ?v 1 ?v i] by simp
  have 2: "bit v2 i \<longleftrightarrow> (\<exists>j<4. bit ?v (i + j))" for i
    unfolding v2_def using smear_step [OF 1, of i] by simp
  have 3: "bit v3 i \<longleftrightarrow> (\<exists>j<8. bit ?v (i + j))" for i
    unfolding v3_def using smear_step [OF 2, of i] by simp
  have 4: "bit v4 i \<longleftrightarrow> (\<exists>j<16. bit ?v (i + j))" for i
    unfolding v4_def using smear_step [OF 3, of i] by simp
  have 5: "bit v5 i \<longleftrightarrow> (\<exists>j<32. bit ?v (i + j))" for i
    unfolding v5_def using smear_step [OF 4, of i] by simp
  have 6: "bit v6 i \<longleftrightarrow> (\<exists>j<64. bit ?v (i + j))" for i
    unfolding v6_def using smear_step [OF 5, of i] by simp
  have "next_power_of_2 (?v + 1) = v6 + 1"
    by (simp add: next_power_of_2_def Let_def v1_def v2_def v3_def v4_def v5_def v6_def)
  then show ?thesis using smear_mask [OF assms 6] by simp
qed

lemma clz_power_2_eq: "k < 64 \<Longrightarrow> clz_power_2 (2 ^ k) = int k"
proof -
  have "list_all (\<lambda>k. clz_power_2 (2 ^ k) = int k) [0..<64]"
    by (simp add: upt_rec clz_power_2_def)
  then show "k < 64 \<Longrightarrow> ?thesis" by (simp add: list_all_iff)
qed


lemma bit_length_le_63: "n < 2 ^ 63 \<Longrightarrow> bit_length n \<le> 63"
proof (rule ccontr)
  assume n: "n < 2 ^ 63" and gt: "\<not> bit_length n \<le> 63"
  then have "0 < n" by (intro gr0I) simp
  have "(2::nat) ^ 63 \<le> 2 ^ (bit_length n - 1)"
    using gt by (intro power_increasing) auto
  also have "\<dots> \<le> n" using \<open>0 < n\<close> by (rule bit_length_lower)
  finally show False using n by simp
qed

lemma word_of_nat_Suc_nonzero: "n < 2 ^ 63 \<Longrightarrow> word_of_nat n + 1 \<noteq> (0 :: u64)"
proof -
  assume "n < 2 ^ 63"
  then have "unat (word_of_nat (Suc n) :: u64) = Suc n"
    by (intro unat_word_of_nat_eq) simp
  then show ?thesis by (metis nat.distinct(1) of_nat_Suc add.commute unat_0)
qed

text \<open>
  The loop of \<open>append\<close> runs once per binary digit of the index of the appended leaf.
\<close>

lemma max_depth_bit_length:
  assumes "n < 2 ^ 63"
  shows "calcluate_max_depth (word_of_nat n + 1) - 1 = int (bit_length n)"
  using assms bit_length_le_63 [OF assms] word_of_nat_Suc_nonzero [OF assms]
  by (simp add: calcluate_max_depth_def next_power_of_2_eq clz_power_2_eq)

section \<open>The incremental root is the batch root\<close>

text \<open>
  \<open>full_pairs\<close> is the next level of the tree restricted to nodes both of whose children are
  present; \<open>peaks\<close> lists the roots of the maximal complete subtrees, smallest first. These
  are the nodes the loop reads through \<open>active_iter\<close>.
\<close>

fun full_pairs :: "(digest_type \<times> digest_type \<Rightarrow> digest_type) \<Rightarrow> digest_type list \<Rightarrow> digest_type list" where
  "full_pairs H (a # b # ids) = H (make_canonical_pair a b) # full_pairs H ids"
| "full_pairs H _ = []"

lemma length_full_pairs [simp]: "length (full_pairs H ids) = length ids div 2"
  by (induction H ids rule: full_pairs.induct) auto

function peaks :: "(digest_type \<times> digest_type \<Rightarrow> digest_type) \<Rightarrow> digest_type list \<Rightarrow> digest_type list" where
  "peaks H ids =
     (if ids = [] then []
      else (if odd (length ids) then [last ids] else []) @ peaks H (full_pairs H ids))"
  by pat_completeness auto
termination
  by (relation "measure (\<lambda>(H, ids). length ids)") auto

declare peaks.simps [simp del]

lemma peaks_Nil [simp]: "peaks H [] = []"
  by (simp add: peaks.simps)

lemma peaks_step:
  "peaks H ids = (if odd (length ids) then [last ids] else []) @ peaks H (full_pairs H ids)"
  by (subst peaks.simps) auto

lemma full_pairs_snoc:
  "full_pairs H (ids @ [x]) = (if even (length ids) then full_pairs H ids
     else full_pairs H ids @ [H (make_canonical_pair (last ids) x)])"
  by (induction H ids rule: full_pairs.induct) auto

lemma merkle_pairs_snoc:
  "merkle_pairs H (ids @ [x]) = full_pairs H ids @
     [H (if even (length ids) then make_canonical_pair x x else make_canonical_pair (last ids) x)]"
  by (induction H ids rule: full_pairs.induct) auto

lemma merkle_base [simp]: "merkle H [] = zero_digest" "merkle H [x] = x"
  by (subst merkle.simps, simp)+

lemma merkle_step: "2 \<le> length ids \<Longrightarrow> merkle H ids = merkle H (merkle_pairs H ids)"
  by (subst merkle.simps) (auto split: list.splits)

lemma merkle_snoc:
  assumes "L \<noteq> []"
  shows "merkle H (L @ [x]) = merkle H (full_pairs H L @
     [H (if even (length L) then make_canonical_pair x x else make_canonical_pair (last L) x)])"
  using assms by (subst merkle_step) (cases L, simp_all add: merkle_pairs_snoc)

text \<open>
  The phase of the loop after the first partial node: every remaining peak is copied and the
  loop ends with the root.
\<close>

lemma append_loop_partial:
  assumes "length L < 2 ^ 64"
  shows "append_loop H (bit_length (length L)) (word_of_nat (length L)) x True (peaks H L @ rest) upd
     = Some (merkle H (L @ [x]), upd @ peaks H L)"
  using assms
proof (induction "bit_length (length L)" arbitrary: L x upd)
  case 0
  have "bit_length (length L) = 0" using "0.hyps" by (rule sym)
  then have "L = []" by simp
  then show ?case by simp
next
  case (Suc d)
  then have L: "L \<noteq> []" "0 < length L" by auto
  have bl: "bit_length (length L) = Suc (bit_length (length (full_pairs H L)))"
    using bit_length_pos [OF L(2)] by simp
  have idx: "drop_bit 1 (word_of_nat (length L) :: u64) = word_of_nat (length (full_pairs H L))"
    using Suc.prems by (simp add: word_arith)
  have IH: "append_loop H (bit_length (length (full_pairs H L))) (word_of_nat (length (full_pairs H L)))
      y True (peaks H (full_pairs H L) @ rest) u
    = Some (merkle H (full_pairs H L @ [y]), u @ peaks H (full_pairs H L))" for y u
  proof (rule Suc.hyps(1))
    show "d = bit_length (length (full_pairs H L))" using Suc.hyps(2) bl by simp
    show "length (full_pairs H L) < 2 ^ 64" using Suc.prems by simp
  qed
  show ?case
  proof (cases "even (length L)")
    case True
    then show ?thesis using L(1)
      unfolding bl append_loop.simps idx word_of_nat_and_1 peaks_step [of H L]
      by (simp add: IH [unfolded length_full_pairs] merkle_snoc)
  next
    case False
    then show ?thesis using L(1)
      unfolding bl append_loop.simps idx word_of_nat_and_1 peaks_step [of H L]
      by (simp add: IH [unfolded length_full_pairs] merkle_snoc)
  qed
qed


text \<open>
  The whole loop, started on a full node: the nodes collected are the peaks of the new list of
  leaves, except that a power-of-two list has its single peak as the root, which \<open>append\<close>
  adds afterwards.
\<close>

lemma append_loop_full:
  assumes "length L < 2 ^ 64"
  shows "\<exists>upd'. append_loop H (bit_length (length L)) (word_of_nat (length L)) x False (peaks H L @ rest) upd
      = Some (merkle H (L @ [x]), upd @ upd')
    \<and> (\<exists>rest'. upd' @ [merkle H (L @ [x])] = peaks H (L @ [x]) @ rest')"
  using assms
proof (induction "bit_length (length L)" arbitrary: L x)
  case 0
  have "bit_length (length L) = 0" using "0.hyps" by (rule sym)
  then have "L = []" by simp
  then show ?case by (simp add: peaks_step [of H "[x]"])
next
  case (Suc d)
  then have L: "L \<noteq> []" "0 < length L" by auto
  have bl: "bit_length (length L) = Suc (bit_length (length (full_pairs H L)))"
    using bit_length_pos [OF L(2)] by simp
  have idx: "drop_bit 1 (word_of_nat (length L) :: u64) = word_of_nat (length (full_pairs H L))"
    using Suc.prems by (simp add: word_arith)
  have len: "length (full_pairs H L) < 2 ^ 64" using Suc.prems by simp
  show ?case
  proof (cases "even (length L)")
    case True
    let ?y = "H (make_canonical_pair x x)"
    have "append_loop H (bit_length (length L)) (word_of_nat (length L)) x False (peaks H L @ rest) upd
      = Some (merkle H (full_pairs H L @ [?y]), (upd @ [x]) @ peaks H (full_pairs H L))"
      using True append_loop_partial [OF len, of H ?y rest "upd @ [x]"]
      unfolding bl append_loop.simps idx word_of_nat_and_1 peaks_step [of H L] by simp
    moreover have "peaks H (L @ [x]) = x # peaks H (full_pairs H L)"
      using True by (subst peaks_step) (simp add: full_pairs_snoc)
    ultimately show ?thesis using L(1) True by (auto simp: merkle_snoc)
  next
    case False
    let ?y = "H (make_canonical_pair (last L) x)"
    have m: "merkle H (L @ [x]) = merkle H (full_pairs H L @ [?y])"
      using L(1) False by (simp add: merkle_snoc)
    have p: "peaks H (L @ [x]) = peaks H (full_pairs H L @ [?y])"
      using False by (subst peaks_step) (simp add: full_pairs_snoc)
    have "append_loop H (bit_length (length L)) (word_of_nat (length L)) x False (peaks H L @ rest) upd
      = append_loop H (bit_length (length (full_pairs H L))) (word_of_nat (length (full_pairs H L)))
          ?y False (peaks H (full_pairs H L) @ rest) upd"
      using False
      unfolding bl append_loop.simps idx word_of_nat_and_1 peaks_step [of H L] by simp
    moreover have "d = bit_length (length (full_pairs H L))" using Suc.hyps(2) bl by simp
    ultimately show ?thesis using Suc.hyps(1) [OF _ len, of ?y] unfolding m p by simp
  qed
qed

text \<open>What the structure holds after a list of leaves has been appended.\<close>

definition merkle_inv :: "(digest_type \<times> digest_type \<Rightarrow> digest_type) \<Rightarrow> digest_type list \<Rightarrow> incremental_merkle \<Rightarrow> bool" where
  "merkle_inv H ids m \<longleftrightarrow> node_count m = word_of_nat (length ids)
     \<and> (\<exists>rest. active_nodes m = peaks H ids @ rest)
     \<and> (ids \<noteq> [] \<longrightarrow> active_nodes m \<noteq> [] \<and> last (active_nodes m) = merkle H ids)"

lemma merkle_inv_empty: "merkle_inv H [] empty_incremental_merkle"
  by (simp add: merkle_inv_def empty_incremental_merkle_def)

lemma merkle_inv_append:
  assumes "merkle_inv H ids m" and "length ids < 2 ^ 63"
  obtains m' where "merkle_append H x m = Some m'" and "merkle_inv H (ids @ [x]) m'"
proof -
  obtain rest where m: "node_count m = word_of_nat (length ids)" "active_nodes m = peaks H ids @ rest"
    using assms(1) by (auto simp: merkle_inv_def)
  obtain upd' rest' where
    loop: "append_loop H (bit_length (length ids)) (word_of_nat (length ids)) x False (peaks H ids @ rest) []
      = Some (merkle H (ids @ [x]), upd')"
    and peaks: "upd' @ [merkle H (ids @ [x])] = peaks H (ids @ [x]) @ rest'"
    using append_loop_full [of ids H x rest "[]"] assms(2) by auto
  let ?m' = "\<lparr>node_count = node_count m + 1, active_nodes = upd' @ [merkle H (ids @ [x])]\<rparr>"
  have "merkle_append H x m = Some ?m'"
    using loop assms(2) by (simp add: merkle_append_def m max_depth_bit_length)
  moreover have "merkle_inv H (ids @ [x]) ?m'"
    unfolding merkle_inv_def
  proof (intro conjI impI exI)
    show "active_nodes ?m' = peaks H (ids @ [x]) @ rest'" using peaks by simp
  qed (simp_all add: m add.commute)
  ultimately show ?thesis by (rule that)
qed

text \<open>Appending a list of digests one at a time.\<close>

fun append_all :: "(digest_type \<times> digest_type \<Rightarrow> digest_type) \<Rightarrow> digest_type list \<Rightarrow> incremental_merkle
    \<Rightarrow> incremental_merkle option" where
  "append_all H [] m = Some m"
| "append_all H (x # xs) m = Option.bind (merkle_append H x m) (append_all H xs)"

lemma append_all_inv:
  assumes "merkle_inv H ids m" and "length ids + length xs \<le> 2 ^ 63"
  shows "\<exists>m'. append_all H xs m = Some m' \<and> merkle_inv H (ids @ xs) m'"
  using assms
proof (induction xs arbitrary: ids m)
  case Nil
  then show ?case by simp
next
  case (Cons x xs)
  from Cons.prems have "length ids < 2 ^ 63" by simp
  with Cons.prems(1) obtain m1 where m1: "merkle_append H x m = Some m1" "merkle_inv H (ids @ [x]) m1"
    by (rule merkle_inv_append)
  with Cons.IH [OF m1(2)] Cons.prems(2) show ?case by simp
qed

lemma merkle_inv_root:
  assumes "merkle_inv H ids m" and "length ids < 2 ^ 64"
  shows "get_root m = merkle H ids"
proof (cases "ids = []")
  case True
  then show ?thesis using assms by (simp add: merkle_inv_def get_root_def)
next
  case False
  then have "unat (node_count m) = length ids"
    using assms by (simp add: merkle_inv_def unat_word_of_nat_eq)
  then have "0 < node_count m" using False by (simp add: word_less_nat_alt)
  then show ?thesis using assms(1) False by (simp add: merkle_inv_def get_root_def)
qed

text \<open>
  C8. Appending any list of at most \<open>2 ^ 63\<close> digests to an empty incremental tree never reads
  past its active nodes, counts the digests, and leaves as root the Merkle root that
  \<open>merkle\<close> computes from the whole list, for every hash function.
\<close>

theorem incremental_merkle_root:
  assumes "length ids \<le> 2 ^ 63"
  shows "\<exists>m. append_all H ids empty_incremental_merkle = Some m
      \<and> unat (node_count m) = length ids \<and> get_root m = merkle H ids"
proof -
  obtain m where m: "append_all H ids empty_incremental_merkle = Some m" "merkle_inv H ids m"
    using append_all_inv [OF merkle_inv_empty, of ids H] assms by auto
  moreover have "length ids < 2 ^ 64" using assms by simp
  ultimately show ?thesis
    using merkle_inv_root [OF m(2)] by (auto simp: merkle_inv_def unat_word_of_nat_eq)
qed

theorem incremental_merkle_root_witness:
  "\<exists>m. append_all fst [zero_digest, sha256 1 2 3 4, sha256 5 6 7 8] empty_incremental_merkle = Some m
      \<and> unat (node_count m) = 3
      \<and> get_root m = merkle fst [zero_digest, sha256 1 2 3 4, sha256 5 6 7 8]"
  using incremental_merkle_root [of "[zero_digest, sha256 1 2 3 4, sha256 5 6 7 8]" fst]
  by (simp add: numeral_3_eq_3)

end
