(* ===== verification/Resource_Limits.thy ===== *)
theory Resource_Limits
  imports Prelude
begin

unbundle bit_operations_syntax

text \<open>
  \<open>libraries/chain/resource_limits.cpp\<close> with \<open>resource_limits.hpp\<close> and
  \<open>resource_limits_private.hpp\<close>: the rate limiting of CPU and network bandwidth and the
  metering of memory. The state is the record \<open>resource_db\<close>, one field per chainbase index:
  the limits of an account (pending and actual, keyed by \<open>(pending, owner)\<close>), its usage, the
  configuration and the global state. Every operation of \<open>resource_limits_manager\<close> that
  changes or reads that state is a definition; the snapshot operations are not modelled.
\<close>

section \<open>Constants of \<open>config.hpp\<close>\<close>

definition rate_limiting_precision :: u64 where
  "rate_limiting_precision = 1000 * 1000"

definition transaction_id_net_usage :: u64 where
  "transaction_id_net_usage = 32"

definition maximum_elastic_resource_multiplier :: u32 where
  "maximum_elastic_resource_multiplier = 1000"

definition default_max_block_net_usage :: u32 where
  "default_max_block_net_usage = 1024 * 1024"

definition default_max_block_cpu_usage :: u32 where
  "default_max_block_cpu_usage = 200000"

definition INE_PERCENT :: "u64 \<Rightarrow> u32 \<Rightarrow> u64" where
  "INE_PERCENT v percentage = (v * ucast percentage) div 10000"

section \<open>Ratios and the moving average\<close>

record ratio =
  numerator :: u64
  denominator :: u64

text \<open>\<open>operator*\<close> of a value and a ratio.\<close>

definition mul_ratio :: "u64 \<Rightarrow> ratio \<Rightarrow> u64 res" where
  "mul_ratio v r =
     INE_ASSERT (numerator r = 0 \<or> v \<le> (- 1) div numerator r) rate_limiting_state_inconsistent
       (if denominator r = 0 then Inl undefined_behaviour
        else Inr ((v * numerator r) div denominator r))"

definition integer_divide_ceil :: "'a::len word \<Rightarrow> 'a word \<Rightarrow> 'a word res" where
  "integer_divide_ceil num den =
     (if den = 0 then Inl undefined_behaviour
      else Inr (num div den + (if 0 < num mod den then 1 else 0)))"

text \<open>\<open>downgrade_cast<uint64_t>\<close> and \<open>downgrade_cast<int64_t>\<close> of a 128-bit unsigned value.\<close>

definition downgrade_cast_uint64 :: "u128 \<Rightarrow> u64 res" where
  "downgrade_cast_uint64 v =
     INE_ASSERT (0 \<le> v \<and> v \<le> 0xFFFFFFFFFFFFFFFF) rate_limiting_state_inconsistent (Inr (ucast v))"

definition downgrade_cast_int64 :: "u128 \<Rightarrow> i64 res" where
  "downgrade_cast_int64 v =
     INE_ASSERT (0 \<le> v \<and> v \<le> 0x7FFFFFFFFFFFFFFF) rate_limiting_state_inconsistent (Inr (ucast v))"

record usage_accumulator =
  last_ordinal :: u32
  value_ex :: u64
  consumed :: u64

definition empty_accumulator :: usage_accumulator where
  "empty_accumulator = \<lparr>last_ordinal = 0, value_ex = 0, consumed = 0\<rparr>"

definition max_raw_value :: u64 where
  "max_raw_value = (- 1) div rate_limiting_precision"

definition average :: "usage_accumulator \<Rightarrow> u64 res" where
  "average acc = integer_divide_ceil (value_ex acc) rate_limiting_precision"

text \<open>
  \<open>exponential_moving_average_accumulator::add\<close>. \<open>accumulator_decay\<close> is the value that the code
  assigns to \<open>value_ex\<close> when a new period starts, \<open>accumulator_roll\<close> the whole branch for a new
  period.
\<close>

definition accumulator_decay :: "u32 \<Rightarrow> u32 \<Rightarrow> usage_accumulator \<Rightarrow> u64 res" where
  "accumulator_decay ordinal window_size acc =
     (if (ucast ordinal :: u64) < ucast (last_ordinal acc) + ucast window_size then
        (let delta = ordinal - last_ordinal acc
         in mul_ratio (value_ex acc)
              \<lparr>numerator = ucast window_size - ucast delta, denominator = ucast window_size\<rparr>)
      else Inr 0)"

definition accumulator_roll :: "u32 \<Rightarrow> u32 \<Rightarrow> usage_accumulator \<Rightarrow> usage_accumulator res" where
  "accumulator_roll ordinal window_size acc =
     INE_ASSERT (last_ordinal acc < ordinal) resource_limit_exception
       (res_bind (accumulator_decay ordinal window_size acc) (\<lambda>v.
        res_bind (average (acc\<lparr>value_ex := v, last_ordinal := ordinal\<rparr>)) (\<lambda>avg.
        Inr (acc\<lparr>value_ex := v, last_ordinal := ordinal, consumed := avg\<rparr>))))"

definition accumulator_add :: "u64 \<Rightarrow> u32 \<Rightarrow> u32 \<Rightarrow> usage_accumulator \<Rightarrow> usage_accumulator res" where
  "accumulator_add units ordinal window_size acc =
     INE_ASSERT (units \<le> max_raw_value) rate_limiting_state_inconsistent
     (INE_ASSERT (units \<le> (- 1) - consumed acc) rate_limiting_state_inconsistent
     (res_bind (integer_divide_ceil ((ucast units :: u128) * ucast rate_limiting_precision) (ucast window_size))
       (\<lambda>q. res_bind (downgrade_cast_uint64 q)
       (\<lambda>value_ex_contrib.
     INE_ASSERT (value_ex_contrib \<le> (- 1) - value_ex acc) rate_limiting_state_inconsistent
     (res_bind
       (if last_ordinal acc \<noteq> ordinal then accumulator_roll ordinal window_size acc else Inr acc)
       (\<lambda>acc'. Inr (acc'\<lparr>consumed := consumed acc' + units,
                          value_ex := value_ex acc' + value_ex_contrib\<rparr>)))))))"

section \<open>Elastic limits\<close>

record elastic_limit_parameters =
  elp_target :: u64
  elp_max :: u64
  elp_periods :: u32
  elp_max_multiplier :: u32
  elp_contract_rate :: ratio
  elp_expand_rate :: ratio

definition update_elastic_limit :: "u64 \<Rightarrow> u64 \<Rightarrow> elastic_limit_parameters \<Rightarrow> u64 res" where
  "update_elastic_limit current_limit average_usage params =
     res_bind
       (if elp_target params < average_usage then mul_ratio current_limit (elp_contract_rate params)
        else mul_ratio current_limit (elp_expand_rate params))
       (\<lambda>result. Inr (min (max result (elp_max params))
                            (elp_max params * ucast (elp_max_multiplier params))))"

definition elp_validate :: "elastic_limit_parameters \<Rightarrow> unit res" where
  "elp_validate p =
     INE_ASSERT (0 < elp_periods p) resource_limit_exception
     (INE_ASSERT (0 < denominator (elp_contract_rate p)) resource_limit_exception
     (INE_ASSERT (0 < denominator (elp_expand_rate p)) resource_limit_exception
     (Inr ())))"

section \<open>The database objects\<close>

record resource_limits_object =
  net_weight :: i64
  cpu_weight :: i64
  mem_bytes :: i64

definition new_resource_limits_object :: resource_limits_object where
  "new_resource_limits_object = \<lparr>net_weight = - 1, cpu_weight = - 1, mem_bytes = - 1\<rparr>"

record resource_usage_object =
  net_usage :: usage_accumulator
  cpu_usage :: usage_accumulator
  mem_usage :: u64

definition new_resource_usage_object :: resource_usage_object where
  "new_resource_usage_object =
     \<lparr>net_usage = empty_accumulator, cpu_usage = empty_accumulator, mem_usage = 0\<rparr>"

record resource_limits_config_object =
  cpu_limit_parameters :: elastic_limit_parameters
  net_limit_parameters :: elastic_limit_parameters
  account_cpu_usage_average_window :: u32
  account_net_usage_average_window :: u32

definition new_resource_limits_config_object :: resource_limits_config_object where
  "new_resource_limits_config_object =
     \<lparr>cpu_limit_parameters =
        \<lparr>elp_target = INE_PERCENT (ucast default_max_block_cpu_usage) (10 * 100),
         elp_max = ucast default_max_block_cpu_usage,
         elp_periods = 60 * 1000 div 500, elp_max_multiplier = 1000,
         elp_contract_rate = \<lparr>numerator = 99, denominator = 100\<rparr>,
         elp_expand_rate = \<lparr>numerator = 1000, denominator = 999\<rparr>\<rparr>,
      net_limit_parameters =
        \<lparr>elp_target = INE_PERCENT (ucast default_max_block_net_usage) (10 * 100),
         elp_max = ucast default_max_block_net_usage,
         elp_periods = 60 * 1000 div 500, elp_max_multiplier = 1000,
         elp_contract_rate = \<lparr>numerator = 99, denominator = 100\<rparr>,
         elp_expand_rate = \<lparr>numerator = 1000, denominator = 999\<rparr>\<rparr>,
      account_cpu_usage_average_window = 24 * 60 * 60 * 1000 div 500,
      account_net_usage_average_window = 24 * 60 * 60 * 1000 div 500\<rparr>"

record resource_limits_state_object =
  average_block_net_usage :: usage_accumulator
  average_block_cpu_usage :: usage_accumulator
  pending_net_usage :: u64
  pending_cpu_usage :: u64
  total_net_weight :: u64
  total_cpu_weight :: u64
  total_mem_bytes :: u64
  virtual_net_limit :: u64
  virtual_cpu_limit :: u64

definition new_resource_limits_state_object :: resource_limits_state_object where
  "new_resource_limits_state_object =
     \<lparr>average_block_net_usage = empty_accumulator, average_block_cpu_usage = empty_accumulator,
      pending_net_usage = 0, pending_cpu_usage = 0,
      total_net_weight = 0, total_cpu_weight = 0, total_mem_bytes = 0,
      virtual_net_limit = 0, virtual_cpu_limit = 0\<rparr>"

record resource_db =
  rl_limits :: "(bool \<times> account_name, resource_limits_object) tbl"
  rl_usage :: "(account_name, resource_usage_object) tbl"
  rl_config :: resource_limits_config_object
  rl_state :: resource_limits_state_object

section \<open>The manager's operations\<close>

definition update_virtual_cpu_limit ::
  "resource_limits_config_object \<Rightarrow> resource_limits_state_object \<Rightarrow> resource_limits_state_object res" where
  "update_virtual_cpu_limit cfg s =
     res_bind (average (average_block_cpu_usage s)) (\<lambda>avg.
     res_bind (update_elastic_limit (virtual_cpu_limit s) avg (cpu_limit_parameters cfg)) (\<lambda>l.
     Inr (s\<lparr>virtual_cpu_limit := l\<rparr>)))"

definition update_virtual_net_limit ::
  "resource_limits_config_object \<Rightarrow> resource_limits_state_object \<Rightarrow> resource_limits_state_object res" where
  "update_virtual_net_limit cfg s =
     res_bind (average (average_block_net_usage s)) (\<lambda>avg.
     res_bind (update_elastic_limit (virtual_net_limit s) avg (net_limit_parameters cfg)) (\<lambda>l.
     Inr (s\<lparr>virtual_net_limit := l\<rparr>)))"

definition initialize_database :: resource_db where
  "initialize_database =
     (let config = new_resource_limits_config_object
      in \<lparr>rl_limits = [], rl_usage = [], rl_config = config,
          rl_state = new_resource_limits_state_object
            \<lparr>virtual_cpu_limit := elp_max (cpu_limit_parameters config),
             virtual_net_limit := elp_max (net_limit_parameters config)\<rparr>\<rparr>)"

definition initialize_account :: "account_name \<Rightarrow> resource_db \<Rightarrow> resource_db res" where
  "initialize_account account db =
     res_bind (tbl_create (False, account) new_resource_limits_object (rl_limits db)) (\<lambda>ls.
     res_bind (tbl_create account new_resource_usage_object (rl_usage db)) (\<lambda>us.
     Inr (db\<lparr>rl_limits := ls, rl_usage := us\<rparr>)))"

definition set_block_parameters ::
  "elastic_limit_parameters \<Rightarrow> elastic_limit_parameters \<Rightarrow> resource_db \<Rightarrow> resource_db res" where
  "set_block_parameters cpu net db =
     res_bind (elp_validate cpu) (\<lambda>_. res_bind (elp_validate net) (\<lambda>_.
       (let config = rl_config db
        in if cpu_limit_parameters config = cpu \<and> net_limit_parameters config = net then Inr db
           else Inr (db\<lparr>rl_config := config\<lparr>cpu_limit_parameters := cpu, net_limit_parameters := net\<rparr>\<rparr>))))"

text \<open>The loop body of \<open>update_account_usage\<close>; a \<open>flat_set\<close> of accounts is a list in its order.\<close>

definition update_usage_of ::
  "u32 \<Rightarrow> account_name \<Rightarrow> resource_db \<Rightarrow> resource_db res" where
  "update_usage_of time_slot a db =
     res_bind (tbl_get (rl_usage db) a) (\<lambda>bu.
     res_bind (accumulator_add 0 time_slot (account_net_usage_average_window (rl_config db)) (net_usage bu)) (\<lambda>n.
     res_bind (accumulator_add 0 time_slot (account_cpu_usage_average_window (rl_config db)) (cpu_usage bu)) (\<lambda>c.
     Inr (db\<lparr>rl_usage := tbl_modify a (\<lambda>bu. bu\<lparr>net_usage := n, cpu_usage := c\<rparr>) (rl_usage db)\<rparr>))))"

definition update_account_usage :: "account_name list \<Rightarrow> u32 \<Rightarrow> resource_db \<Rightarrow> resource_db res" where
  "update_account_usage accounts time_slot db = res_fold (update_usage_of time_slot) accounts db"

text \<open>\<open>get_account_limits\<close> returns the row it reads the three limits from.\<close>

definition get_account_limits :: "account_name \<Rightarrow> resource_db \<Rightarrow> resource_limits_object res" where
  "get_account_limits account db =
     (case tbl_find (rl_limits db) (True, account) of
        Some pending_buo \<Rightarrow> Inr pending_buo
      | None \<Rightarrow> tbl_get (rl_limits db) (False, account))"

definition verify_account_mem_usage :: "account_name \<Rightarrow> resource_db \<Rightarrow> unit res" where
  "verify_account_mem_usage account db =
     res_bind (get_account_limits account db) (\<lambda>l.
     res_bind (tbl_get (rl_usage db) account) (\<lambda>usage.
     if 0 \<le> sint (mem_bytes l)
     then INE_ASSERT (mem_usage usage \<le> mem_bytes l) mem_usage_exceeded (Inr ())
     else Inr ()))"

text \<open>
  The check of one resource in \<open>add_transaction_usage\<close>: what the account used in the window
  (\<open>used\<close>, rounded down) against its share of the capacity, in 128-bit arithmetic.
\<close>

definition check_window_usage ::
  "chain_exception \<Rightarrow> i64 \<Rightarrow> u64 \<Rightarrow> u64 \<Rightarrow> u32 \<Rightarrow> usage_accumulator \<Rightarrow> unit res" where
  "check_window_usage e weight total_weight virtual_limit window acc =
     (if 0 \<le> sint weight \<and> 0 < total_weight then
        (let window_size = (ucast window :: u128);
             virtual_capacity_in_window = ucast virtual_limit * window_size;
             used_in_window = (ucast (value_ex acc) * window_size) div ucast rate_limiting_precision;
             user_weight = ucast weight;
             all_user_weight = ucast total_weight;
             max_user_use_in_window = (virtual_capacity_in_window * user_weight) div all_user_weight
         in INE_ASSERT (used_in_window \<le> max_user_use_in_window) e (Inr ()))
      else Inr ())"

definition add_usage_of ::
  "u64 \<Rightarrow> u64 \<Rightarrow> u32 \<Rightarrow> account_name \<Rightarrow> resource_db \<Rightarrow> resource_db res" where
  "add_usage_of cpu net time_slot a db =
     (let state = rl_state db; config = rl_config db in
     res_bind (tbl_get (rl_usage db) a) (\<lambda>bu.
     res_bind (get_account_limits a db) (\<lambda>l.
     res_bind (verify_account_mem_usage a db) (\<lambda>_.
     res_bind (accumulator_add net time_slot (account_net_usage_average_window config) (net_usage bu)) (\<lambda>n.
     res_bind (accumulator_add cpu time_slot (account_cpu_usage_average_window config) (cpu_usage bu)) (\<lambda>c.
     (let usage = bu\<lparr>net_usage := n, cpu_usage := c,
                     mem_usage := mem_usage bu + transaction_id_net_usage\<rparr>;
          db' = db\<lparr>rl_usage := tbl_modify a (\<lambda>_. usage) (rl_usage db)\<rparr> in
     res_bind (check_window_usage tx_cpu_usage_exceeded (cpu_weight l) (total_cpu_weight state)
                 (virtual_cpu_limit state) (account_cpu_usage_average_window config) (cpu_usage usage)) (\<lambda>_.
     res_bind (check_window_usage tx_net_usage_exceeded (net_weight l) (total_net_weight state)
                 (virtual_net_limit state) (account_net_usage_average_window config) (net_usage usage)) (\<lambda>_.
     res_bind (verify_account_mem_usage a db') (\<lambda>_. Inr db'))))))))))"

definition add_transaction_usage ::
  "account_name list \<Rightarrow> u64 \<Rightarrow> u64 \<Rightarrow> u32 \<Rightarrow> resource_db \<Rightarrow> resource_db res" where
  "add_transaction_usage accounts cpu net time_slot db0 =
     res_bind (res_fold (add_usage_of cpu net time_slot) accounts db0) (\<lambda>db.
     (let rls = rl_state db;
          rls = rls\<lparr>pending_cpu_usage := pending_cpu_usage rls + cpu,
                    pending_net_usage := pending_net_usage rls + net\<rparr>;
          config = rl_config db in
     INE_ASSERT (pending_cpu_usage rls \<le> elp_max (cpu_limit_parameters config)) block_resource_exhausted
     (INE_ASSERT (pending_net_usage rls \<le> elp_max (net_limit_parameters config)) block_resource_exhausted
     (Inr (db\<lparr>rl_state := rls\<rparr>)))))"


definition get_account_mem_usage :: "account_name \<Rightarrow> resource_db \<Rightarrow> i64 res" where
  "get_account_mem_usage name db = res_bind (tbl_get (rl_usage db) name) (\<lambda>u. Inr (mem_usage u))"

definition find_or_create_pending_limits :: "account_name \<Rightarrow> resource_db \<Rightarrow> (resource_db \<times> resource_limits_object) res" where
  "find_or_create_pending_limits account db =
     (case tbl_find (rl_limits db) (True, account) of
        None \<Rightarrow>
          res_bind (tbl_get (rl_limits db) (False, account)) (\<lambda>limits.
          res_bind (tbl_create (True, account) limits (rl_limits db)) (\<lambda>ls.
          Inr (db\<lparr>rl_limits := ls\<rparr>, limits)))
      | Some pending_limits \<Rightarrow> Inr (db, pending_limits))"

definition set_account_limits ::
  "account_name \<Rightarrow> i64 \<Rightarrow> i64 \<Rightarrow> i64 \<Rightarrow> resource_db \<Rightarrow> (resource_db \<times> bool) res" where
  "set_account_limits account mem net cpu db0 =
     res_bind (find_or_create_pending_limits account db0) (\<lambda>(db, limits).
     (let decreased_limit =
            (if 0 \<le> sint mem then sint (mem_bytes limits) < 0 \<or> sint mem < sint (mem_bytes limits)
             else False);
          ls = tbl_modify (True, account)
                 (\<lambda>l. l\<lparr>mem_bytes := mem, net_weight := net, cpu_weight := cpu\<rparr>) (rl_limits db)
      in Inr (db\<lparr>rl_limits := ls\<rparr>, decreased_limit)))"

text \<open>The lambda \<open>update_state_and_value\<close>: the new total and the new value.\<close>

definition update_state_and_value :: "u64 \<Rightarrow> i64 \<Rightarrow> i64 \<Rightarrow> (u64 \<times> i64) res" where
  "update_state_and_value tot v pending_value =
     res_bind
       (if 0 < sint v then
          INE_ASSERT (v \<le> tot) rate_limiting_state_inconsistent (Inr (tot - v))
        else Inr tot)
       (\<lambda>tot. res_bind
       (if 0 < sint pending_value then
          INE_ASSERT (pending_value \<le> (- 1) - tot) rate_limiting_state_inconsistent
            (Inr (tot + pending_value))
        else Inr tot)
       (\<lambda>tot. Inr (tot, pending_value)))"

text \<open>\<open>by_owner_index.lower_bound(true)\<close>: the pending row with the least owner.\<close>

definition pending_owners :: "(bool \<times> account_name, resource_limits_object) tbl \<Rightarrow> account_name list" where
  "pending_owners t = map snd (filter fst (map fst t))"

definition first_pending :: "(bool \<times> account_name, resource_limits_object) tbl \<Rightarrow> account_name option" where
  "first_pending t = (case pending_owners t of [] \<Rightarrow> None | o1 # os \<Rightarrow> Some (fold min os o1))"

definition apply_pending :: "account_name \<Rightarrow> resource_db \<Rightarrow> resource_db res" where
  "apply_pending owner db =
     res_bind (tbl_get (rl_limits db) (True, owner)) (\<lambda>itr.
     res_bind (tbl_get (rl_limits db) (False, owner)) (\<lambda>rlo.
     (let rso = rl_state db in
     res_bind (update_state_and_value (total_mem_bytes rso) (mem_bytes rlo) (mem_bytes itr)) (\<lambda>(tm, m).
     res_bind (update_state_and_value (total_cpu_weight rso) (cpu_weight rlo) (cpu_weight itr)) (\<lambda>(tc, c).
     res_bind (update_state_and_value (total_net_weight rso) (net_weight rlo) (net_weight itr)) (\<lambda>(tn, n).
     Inr (db\<lparr>rl_state := rso\<lparr>total_mem_bytes := tm, total_cpu_weight := tc, total_net_weight := tn\<rparr>,
             rl_limits := tbl_remove (True, owner)
               (tbl_modify (False, owner) (\<lambda>_. \<lparr>net_weight = n, cpu_weight = c, mem_bytes = m\<rparr>)
                 (rl_limits db))\<rparr>)))))))"

lemma pending_owners_mem: "a \<in> set (pending_owners t) \<longleftrightarrow> tbl_find t (True, a) \<noteq> None"
  by (force simp: pending_owners_def tbl_find_None image_iff)

lemma first_pending_in: "first_pending t = Some a \<Longrightarrow> a \<in> set (pending_owners t)"
proof -
  have "fold min os o1 \<in> set (o1 # os)" for os and o1 :: account_name
    by (induction os arbitrary: o1) (auto simp: min_def split: if_splits)
  then show "first_pending t = Some a \<Longrightarrow> ?thesis"
    by (auto simp: first_pending_def split: list.splits)
qed

lemma rlo_eta [simp]:
  "\<lparr>net_weight = net_weight l, cpu_weight = cpu_weight l, mem_bytes = mem_bytes l\<rparr> = l"
  by simp

lemma apply_pending_Inr:
  assumes "apply_pending a db = Inr db'"
  obtains itr rlo where "tbl_find (rl_limits db) (True, a) = Some itr"
    and "tbl_find (rl_limits db) (False, a) = Some rlo"
    and "rl_limits db' = tbl_remove (True, a) (tbl_modify (False, a) (\<lambda>_. itr) (rl_limits db))"
    and "rl_usage db' = rl_usage db" and "rl_config db' = rl_config db"
    and "update_state_and_value (total_mem_bytes (rl_state db)) (mem_bytes rlo) (mem_bytes itr)
      = Inr (total_mem_bytes (rl_state db'), mem_bytes itr)"
    and "update_state_and_value (total_cpu_weight (rl_state db)) (cpu_weight rlo) (cpu_weight itr)
      = Inr (total_cpu_weight (rl_state db'), cpu_weight itr)"
    and "update_state_and_value (total_net_weight (rl_state db)) (net_weight rlo) (net_weight itr)
      = Inr (total_net_weight (rl_state db'), net_weight itr)"
proof -
  have snd: "update_state_and_value tot v pv = Inr (t', v') \<Longrightarrow> v' = pv" for tot v pv t' v'
    by (auto simp: update_state_and_value_def split: if_splits)
  from assms obtain itr rlo tm m tc c tn n where
      f: "tbl_find (rl_limits db) (True, a) = Some itr" "tbl_find (rl_limits db) (False, a) = Some rlo"
    and u: "update_state_and_value (total_mem_bytes (rl_state db)) (mem_bytes rlo) (mem_bytes itr) = Inr (tm, m)"
      "update_state_and_value (total_cpu_weight (rl_state db)) (cpu_weight rlo) (cpu_weight itr) = Inr (tc, c)"
      "update_state_and_value (total_net_weight (rl_state db)) (net_weight rlo) (net_weight itr) = Inr (tn, n)"
    and db': "db' = db\<lparr>rl_state := (rl_state db)\<lparr>total_mem_bytes := tm, total_cpu_weight := tc, total_net_weight := tn\<rparr>,
             rl_limits := tbl_remove (True, a)
               (tbl_modify (False, a) (\<lambda>_. \<lparr>net_weight = n, cpu_weight = c, mem_bytes = m\<rparr>)
                 (rl_limits db))\<rparr>"
    by (auto simp: apply_pending_def Let_def)
  show ?thesis
    using that [OF f] u snd [OF u(1)] snd [OF u(2)] snd [OF u(3)] by (simp add: db')
qed

lemma length_tbl_remove: "tbl_find t k \<noteq> None \<Longrightarrow> length (tbl_remove k t) < length t"
proof -
  assume "tbl_find t k \<noteq> None"
  then obtain v where "(k, v) \<in> set t" by (auto simp: tbl_find_None)
  then show ?thesis
    unfolding tbl_remove_def by (intro length_filter_less) auto
qed

lemma apply_pending_shrinks:
  assumes "apply_pending a db = Inr db'"
  shows "length (rl_limits db') < length (rl_limits db)"
  using assms
proof (rule apply_pending_Inr)
  fix itr rlo
  assume "tbl_find (rl_limits db) (True, a) = Some itr"
    and db': "rl_limits db' = tbl_remove (True, a) (tbl_modify (False, a) (\<lambda>_. itr) (rl_limits db))"
  then have "tbl_find (tbl_modify (False, a) (\<lambda>_. itr) (rl_limits db)) (True, a) \<noteq> None"
    by (simp add: tbl.find_modify)
  then show ?thesis unfolding db' using length_tbl_remove by fastforce
qed

text \<open>The \<open>while\<close> loop of \<open>process_account_limit_updates\<close>.\<close>

function process_account_limit_updates :: "resource_db \<Rightarrow> resource_db res" where
  "process_account_limit_updates db =
     (case first_pending (rl_limits db) of
        None \<Rightarrow> Inr db
      | Some owner \<Rightarrow> res_bind (apply_pending owner db) process_account_limit_updates)"
  by pat_completeness auto
termination
  by (relation "measure (\<lambda>db. length (rl_limits db))") (auto dest: apply_pending_shrinks)

declare process_account_limit_updates.simps [simp del]

definition process_block_usage :: "u32 \<Rightarrow> resource_db \<Rightarrow> resource_db res" where
  "process_block_usage block_num db =
     (let state = rl_state db; config = rl_config db in
     res_bind (accumulator_add (pending_cpu_usage state) block_num
                 (elp_periods (cpu_limit_parameters config)) (average_block_cpu_usage state)) (\<lambda>ac.
     res_bind (update_virtual_cpu_limit config (state\<lparr>average_block_cpu_usage := ac\<rparr>)) (\<lambda>state.
     (let state = state\<lparr>pending_cpu_usage := 0\<rparr> in
     res_bind (accumulator_add (pending_net_usage state) block_num
                 (elp_periods (net_limit_parameters config)) (average_block_net_usage state)) (\<lambda>an.
     res_bind (update_virtual_net_limit config (state\<lparr>average_block_net_usage := an\<rparr>)) (\<lambda>state.
     Inr (db\<lparr>rl_state := state\<lparr>pending_net_usage := 0\<rparr>\<rparr>)))))))"

definition get_virtual_block_cpu_limit :: "resource_db \<Rightarrow> u64" where
  "get_virtual_block_cpu_limit db = virtual_cpu_limit (rl_state db)"

definition get_virtual_block_net_limit :: "resource_db \<Rightarrow> u64" where
  "get_virtual_block_net_limit db = virtual_net_limit (rl_state db)"

definition get_block_cpu_limit :: "resource_db \<Rightarrow> u64" where
  "get_block_cpu_limit db =
     elp_max (cpu_limit_parameters (rl_config db)) - pending_cpu_usage (rl_state db)"

definition get_block_net_limit :: "resource_db \<Rightarrow> u64" where
  "get_block_net_limit db =
     elp_max (net_limit_parameters (rl_config db)) - pending_net_usage (rl_state db)"

record account_resource_limit =
  arl_used :: i64
  arl_available :: i64
  arl_max :: i64

text \<open>
  The computation shared, up to the names, by \<open>get_account_cpu_limit_ex\<close> and
  \<open>get_account_net_limit_ex\<close>: the window capacity is limited by the greylist, \<open>used\<close> is rounded
  up here.
\<close>

definition account_limit_ex ::
  "i64 \<Rightarrow> u64 \<Rightarrow> u64 \<Rightarrow> u64 \<Rightarrow> u32 \<Rightarrow> u32 \<Rightarrow> usage_accumulator \<Rightarrow> (account_resource_limit \<times> bool) res" where
  "account_limit_ex weight total_weight virtual_limit max_limit window greylist_limit acc =
     (if sint weight < 0 \<or> total_weight = 0 then
        Inr (\<lparr>arl_used = - 1, arl_available = - 1, arl_max = - 1\<rparr>, False)
      else
        (let window_size = (ucast window :: u128);
             greylisted_virtual_limit = max_limit * ucast greylist_limit;
             greylisted = (greylist_limit < maximum_elastic_resource_multiplier
                           \<and> greylisted_virtual_limit < virtual_limit);
             virtual_capacity_in_window =
               window_size * ucast (if greylisted then greylisted_virtual_limit else virtual_limit);
             user_weight = ucast weight;
             all_user_weight = ucast total_weight;
             max_user_use_in_window = (virtual_capacity_in_window * user_weight) div all_user_weight in
         res_bind (integer_divide_ceil (ucast (value_ex acc) * window_size) (ucast rate_limiting_precision))
           (\<lambda>used_in_window.
         res_bind (if max_user_use_in_window \<le> used_in_window then Inr 0
                   else downgrade_cast_int64 (max_user_use_in_window - used_in_window)) (\<lambda>available.
         res_bind (downgrade_cast_int64 used_in_window) (\<lambda>used.
         res_bind (downgrade_cast_int64 max_user_use_in_window) (\<lambda>mx.
         Inr (\<lparr>arl_used = used, arl_available = available, arl_max = mx\<rparr>, greylisted)))))))"

definition get_account_cpu_limit_ex ::
  "account_name \<Rightarrow> u32 \<Rightarrow> resource_db \<Rightarrow> (account_resource_limit \<times> bool) res" where
  "get_account_cpu_limit_ex name greylist_limit db =
     res_bind (tbl_get (rl_usage db) name) (\<lambda>usage.
     res_bind (get_account_limits name db) (\<lambda>l.
     account_limit_ex (cpu_weight l) (total_cpu_weight (rl_state db)) (virtual_cpu_limit (rl_state db))
       (elp_max (cpu_limit_parameters (rl_config db)))
       (account_cpu_usage_average_window (rl_config db)) greylist_limit (cpu_usage usage)))"

definition get_account_net_limit_ex ::
  "account_name \<Rightarrow> u32 \<Rightarrow> resource_db \<Rightarrow> (account_resource_limit \<times> bool) res" where
  "get_account_net_limit_ex name greylist_limit db =
     res_bind (tbl_get (rl_usage db) name) (\<lambda>usage.
     res_bind (get_account_limits name db) (\<lambda>l.
     account_limit_ex (net_weight l) (total_net_weight (rl_state db)) (virtual_net_limit (rl_state db))
       (elp_max (net_limit_parameters (rl_config db)))
       (account_net_usage_average_window (rl_config db)) greylist_limit (net_usage usage)))"

definition get_account_cpu_limit :: "account_name \<Rightarrow> u32 \<Rightarrow> resource_db \<Rightarrow> (i64 \<times> bool) res" where
  "get_account_cpu_limit name greylist_limit db =
     res_bind (get_account_cpu_limit_ex name greylist_limit db) (\<lambda>(arl, greylisted).
     Inr (arl_available arl, greylisted))"

definition get_account_net_limit :: "account_name \<Rightarrow> u32 \<Rightarrow> resource_db \<Rightarrow> (i64 \<times> bool) res" where
  "get_account_net_limit name greylist_limit db =
     res_bind (get_account_net_limit_ex name greylist_limit db) (\<lambda>(arl, greylisted).
     Inr (arl_available arl, greylisted))"


section \<open>The moving average in exact arithmetic\<close>

lemma precision_eq [simp]: "rate_limiting_precision = 1000000"
  by (simp add: rate_limiting_precision_def)

lemma integer_divide_ceil_Inr:
  "integer_divide_ceil num den = Inr q \<Longrightarrow> unat q = ceil_div (unat num) (unat den)"
proof -
  assume q: "integer_divide_ceil num den = Inr q"
  let ?c = "if 0 < num mod den then 1 else 0 :: 'a word"
  have mod0: "0 < num mod den \<longleftrightarrow> unat num mod unat den \<noteq> 0"
    by (simp add: unat_mod word_less_nat_alt)
  then have sum: "unat (num div den) + unat ?c = ceil_div (unat num) (unat den)"
    by (simp add: ceil_div_def unat_div)
  then have "unat (num div den) + unat ?c < 2 ^ LENGTH('a)"
    using ceil_div_le [of "unat num" "unat den"] unat_lt2p [of num] by (metis le_less_trans)
  then have "unat (num div den + ?c) = ceil_div (unat num) (unat den)"
    by (simp only: unat_add_no_overflow sum)
  moreover have "q = num div den + ?c"
    using q by (cases "den = 0") (simp_all add: integer_divide_ceil_def)
  ultimately show ?thesis by (simp only:)
qed

lemma mul_ratio_Inr:
  assumes "mul_ratio v r = Inr x"
  shows "unat x = unat v * unat (numerator r) div unat (denominator r)"
proof -
  have le: "numerator r = 0 \<or> v \<le> (- 1) div numerator r" and x: "x = (v * numerator r) div denominator r"
    using assms by (auto simp: mul_ratio_def split: if_splits)
  have "unat v * unat (numerator r) < 2 ^ 64"
  proof (cases "numerator r = 0")
    case False
    then have "unat v \<le> (2 ^ 64 - 1) div unat (numerator r)"
      using le by (simp add: word_le_nat_alt unat_div)
    then have "unat v * unat (numerator r) \<le> 2 ^ 64 - 1"
      using False by (simp add: less_eq_div_iff_mult_less_eq unat_gt_0)
    then show ?thesis by simp
  qed simp
  then show ?thesis by (simp add: x unat_div unat_mult_no_overflow)
qed

text \<open>
  What a successful \<open>add\<close> makes of the stored average: the old value, decayed linearly over
  the window (and forgotten once the window has passed).
\<close>

definition decayed_value :: "usage_accumulator \<Rightarrow> u32 \<Rightarrow> u32 \<Rightarrow> nat" where
  "decayed_value acc ordinal window =
     (let last = unat (last_ordinal acc); now = unat ordinal; w = unat window in
      if now = last then unat (value_ex acc)
      else if now < last + w then unat (value_ex acc) * (w - (now - last)) div w
      else 0)"


lemma decayed_value_le: "decayed_value acc ordinal window \<le> unat (value_ex acc)"
proof -
  have "x * (w - d) div w \<le> x" for x w d :: nat
  proof -
    have "x * (w - d) div w \<le> x * w div w" by (intro div_le_mono mult_le_mono2) simp
    then show ?thesis by (cases "w = 0") simp_all
  qed
  then show ?thesis by (simp add: decayed_value_def Let_def)
qed

text \<open>The decay step of \<open>add\<close>, when a new period starts.\<close>

lemma decay_step:
  assumes "last_ordinal acc < ordinal" and "accumulator_decay ordinal window acc = Inr v"
  shows "unat v = decayed_value acc ordinal window"
proof -
  let ?l = "unat (last_ordinal acc)" and ?n = "unat ordinal" and ?w = "unat window"
  have lt: "?l < ?n" using assms(1) by (simp add: word_less_nat_alt)
  have sum: "unat ((ucast (last_ordinal acc) :: u64) + ucast window) = ?l + ?w"
  proof -
    have "?l < 2 ^ 32" "?w < 2 ^ 32" using unat_lt2p [of "last_ordinal acc"] unat_lt2p [of window] by simp_all
    then show ?thesis by (subst unat_add_no_overflow) (simp_all add: unat_ucast_up_simp)
  qed
  have cond: "(ucast ordinal :: u64) < ucast (last_ordinal acc) + ucast window \<longleftrightarrow> ?n < ?l + ?w"
    unfolding word_less_nat_alt sum by (simp add: unat_ucast_up_simp)
  show ?thesis
  proof (cases "?n < ?l + ?w")
    case True
    have d: "unat (ordinal - last_ordinal acc) = ?n - ?l"
      using assms(1) by (intro unat_sub_no_borrow) simp
    have num: "unat ((ucast window :: u64) - ucast (ordinal - last_ordinal acc)) = ?w - (?n - ?l)"
      using True lt d by (subst unat_sub_no_borrow) (simp_all add: unat_ucast_up_simp word_le_nat_alt)
    show ?thesis
      using assms(2) True lt num
      by (auto simp: accumulator_decay_def cond Let_def decayed_value_def unat_ucast_up_simp dest!: mul_ratio_Inr)
  next
    case False
    then show ?thesis using assms(2) lt by (simp add: accumulator_decay_def cond decayed_value_def Let_def)
  qed
qed


lemma downgrade_cast_uint64_Inr: "downgrade_cast_uint64 v = Inr x \<Longrightarrow> unat x = unat v"
proof -
  assume x: "downgrade_cast_uint64 v = Inr x"
  then have "unat v < 2 ^ 64"
    by (auto simp: downgrade_cast_uint64_def word_le_nat_alt split: if_splits)
  then show ?thesis
    using x by (auto simp: downgrade_cast_uint64_def unsigned_ucast_eq take_bit_nat_eq_self split: if_splits)
qed

lemma value_ex_contrib:
  fixes units :: u64
  assumes "integer_divide_ceil ((ucast units :: u128) * ucast rate_limiting_precision) (ucast window) = Inr q"
    and "downgrade_cast_uint64 q = Inr (contrib :: u64)"
  shows "unat contrib = ceil_div (unat units * 1000000) (unat (window :: u32))"
proof -
  have "unat units < 2 ^ LENGTH(64)" by (rule unat_lt2p)
  then have "unat ((ucast units :: u128) * ucast rate_limiting_precision) = unat units * 1000000"
    by (subst unat_mult_no_overflow) (simp_all add: unat_ucast_up_simp)
  then show ?thesis
    using integer_divide_ceil_Inr [OF assms(1)] downgrade_cast_uint64_Inr [OF assms(2)]
    by (simp add: unat_ucast_up_simp)
qed

text \<open>
  C15. A usage accumulator computes its moving average exactly: when \<open>add\<close> succeeds, the stored
  value is the linearly decayed old value plus the contribution of the new units, scaled by
  the precision and rounded up over the window, the units consumed in the current period are
  those recorded in it (or the rounded average, when a new period starts) plus the new units,
  and no 64-bit addition or product has wrapped.
\<close>

theorem accumulator_add_exact:
  assumes "accumulator_add units ordinal window acc = Inr acc'"
  shows "last_ordinal acc' = ordinal
    \<and> unat (value_ex acc') = decayed_value acc ordinal window + ceil_div (unat units * 1000000) (unat window)
    \<and> unat (consumed acc') = unat units +
        (if last_ordinal acc = ordinal then unat (consumed acc)
         else ceil_div (decayed_value acc ordinal window) 1000000)"
proof -
  from assms obtain q contrib acc1 where
      q: "integer_divide_ceil ((ucast units :: u128) * ucast rate_limiting_precision) (ucast window) = Inr q"
    and c: "downgrade_cast_uint64 q = Inr contrib"
    and u: "units \<le> max_raw_value" "units \<le> (- 1) - consumed acc"
    and le: "contrib \<le> (- 1) - value_ex acc"
    and acc1: "(if last_ordinal acc \<noteq> ordinal then accumulator_roll ordinal window acc else Inr acc) = Inr acc1"
    and acc': "acc' = acc1\<lparr>consumed := consumed acc1 + units, value_ex := value_ex acc1 + contrib\<rparr>"
    unfolding accumulator_add_def by (auto split: if_splits)
  have contrib: "unat contrib = ceil_div (unat units * 1000000) (unat window)"
    using q c by (rule value_ex_contrib)
  have room: "unat (value_ex acc) + unat contrib < 2 ^ LENGTH(64)"
    using le unat_lt2p [of "value_ex acc"] by (simp add: word_le_nat_alt unat_max_minus)
  have v: "unat (value_ex acc1) = decayed_value acc ordinal window"
    and l: "last_ordinal acc1 = ordinal"
    and cons: "unat (consumed acc1) = (if last_ordinal acc = ordinal then unat (consumed acc)
         else ceil_div (decayed_value acc ordinal window) 1000000)"
    using acc1 decay_step [of acc ordinal window]
    by (auto simp: accumulator_roll_def average_def decayed_value_def Let_def
        dest!: integer_divide_ceil_Inr split: if_splits)
  have "unat (value_ex acc1) + unat contrib < 2 ^ LENGTH(64)"
    using room v decayed_value_le [of acc ordinal window] by linarith
  moreover have "unat (consumed acc1) + unat units < 2 ^ LENGTH(64)"
  proof (cases "last_ordinal acc = ordinal")
    case True
    then show ?thesis
      using u(2) cons unat_lt2p [of "consumed acc"] by (simp add: word_le_nat_alt unat_max_minus)
  next
    case False
    have "ceil_div (decayed_value acc ordinal window) 1000000 \<le> (2 ^ 64 - 1) div 1000000 + 1"
      using decayed_value_le [of acc ordinal window] unat_lt2p [of "value_ex acc"]
      unfolding ceil_div_def by (intro add_mono div_le_mono) auto
    moreover have "unat units \<le> (2 ^ 64 - 1) div 1000000"
      using u(1) by (simp add: max_raw_value_def word_le_nat_alt unat_div)
    ultimately show ?thesis using cons False by simp
  qed
  ultimately show ?thesis
    using v l cons contrib by (simp add: acc' unat_add_no_overflow)
qed


theorem accumulator_add_exact_witness:
  "\<exists>acc'. accumulator_add 500 10 4 \<lparr>last_ordinal = 7, value_ex = 4000000, consumed = 4\<rparr> = Inr acc'
    \<and> value_ex acc' = 126000000 \<and> consumed acc' = 501"
proof -
  have run: "accumulator_add 500 10 4 \<lparr>last_ordinal = 7, value_ex = 4000000, consumed = 4\<rparr>
      = Inr \<lparr>last_ordinal = 10, value_ex = 126000000, consumed = 501\<rparr>"
    by (simp add: accumulator_add_def accumulator_roll_def accumulator_decay_def average_def
        max_raw_value_def mul_ratio_def integer_divide_ceil_def downgrade_cast_uint64_def Let_def)
  show ?thesis
    using run accumulator_add_exact [OF run] by simp
qed


section \<open>Elastic limits stay between the maximum and its multiple\<close>

text \<open>Parameters under which the upper bound is a multiple of the lower one that fits 64 bits.\<close>

definition sane_parameters :: "elastic_limit_parameters \<Rightarrow> bool" where
  "sane_parameters p \<longleftrightarrow> 1 \<le> elp_max_multiplier p
     \<and> unat (elp_max p) * unat (elp_max_multiplier p) < 2 ^ 64"

definition within_elastic :: "elastic_limit_parameters \<Rightarrow> u64 \<Rightarrow> bool" where
  "within_elastic p l \<longleftrightarrow> unat (elp_max p) \<le> unat l
     \<and> unat l \<le> unat (elp_max p) * unat (elp_max_multiplier p)"

lemma update_elastic_limit_within:
  assumes "sane_parameters p" and "update_elastic_limit l avg p = Inr l'"
  shows "within_elastic p l'"
proof -
  let ?m = "elp_max p" and ?k = "ucast (elp_max_multiplier p) :: u64"
  have k: "unat ?k = unat (elp_max_multiplier p)" by (simp add: unat_ucast_up_simp)
  have prod: "unat (?m * ?k) = unat ?m * unat (elp_max_multiplier p)"
    using assms(1) by (subst unat_mult_no_overflow) (simp_all add: k sane_parameters_def)
  have "1 \<le> unat (elp_max_multiplier p)"
    using assms(1) by (simp add: sane_parameters_def word_le_nat_alt)
  then have "unat ?m \<le> unat ?m * unat (elp_max_multiplier p)" by simp
  moreover obtain r where "l' = min (max r ?m) (?m * ?k)"
    using assms(2) by (auto simp: update_elastic_limit_def)
  ultimately show ?thesis
    using prod by (auto simp: within_elastic_def min_def max_def word_le_nat_alt split: if_splits)
qed

lemma update_virtual_limits_within:
  "sane_parameters (cpu_limit_parameters cfg) \<Longrightarrow> update_virtual_cpu_limit cfg s = Inr s' \<Longrightarrow>
     within_elastic (cpu_limit_parameters cfg) (virtual_cpu_limit s')
       \<and> virtual_net_limit s' = virtual_net_limit s \<and> pending_net_usage s' = pending_net_usage s
       \<and> average_block_net_usage s' = average_block_net_usage s"
  "sane_parameters (net_limit_parameters cfg) \<Longrightarrow> update_virtual_net_limit cfg s = Inr s' \<Longrightarrow>
     within_elastic (net_limit_parameters cfg) (virtual_net_limit s')
       \<and> virtual_cpu_limit s' = virtual_cpu_limit s \<and> pending_cpu_usage s' = pending_cpu_usage s"
  by (auto simp: update_virtual_cpu_limit_def update_virtual_net_limit_def
      dest: update_elastic_limit_within)

text \<open>
  C13. The elastic limits are always sold within their documented range: whenever
  \<open>process_block_usage\<close> succeeds, the virtual CPU and network limits lie between the
  configured block maximum and \<open>max_multiplier\<close> times it, the usage of the block has been
  moved out of the pending counters, and no account data is touched. The range is the one of
  the configuration, provided the multiplied maximum fits 64 bits.
\<close>

theorem process_block_usage_limits:
  assumes "sane_parameters (cpu_limit_parameters (rl_config db))"
    and "sane_parameters (net_limit_parameters (rl_config db))"
    and "process_block_usage block_num db = Inr db'"
  shows "within_elastic (cpu_limit_parameters (rl_config db)) (virtual_cpu_limit (rl_state db'))
    \<and> within_elastic (net_limit_parameters (rl_config db)) (virtual_net_limit (rl_state db'))
    \<and> pending_cpu_usage (rl_state db') = 0 \<and> pending_net_usage (rl_state db') = 0
    \<and> rl_usage db' = rl_usage db \<and> rl_limits db' = rl_limits db \<and> rl_config db' = rl_config db"
  using assms
  by (auto simp: process_block_usage_def Let_def dest!: update_virtual_limits_within)

theorem process_block_usage_limits_witness:
  "\<exists>db'. process_block_usage 7 initialize_database = Inr db'
    \<and> 200000 \<le> unat (virtual_cpu_limit (rl_state db'))
    \<and> unat (virtual_net_limit (rl_state db')) \<le> 1048576 * 1000"
proof -
  let ?db = initialize_database
  have sane: "sane_parameters (cpu_limit_parameters (rl_config ?db))"
    "sane_parameters (net_limit_parameters (rl_config ?db))"
    by (simp_all add: initialize_database_def new_resource_limits_config_object_def
        sane_parameters_def default_max_block_cpu_usage_def default_max_block_net_usage_def Let_def)
  obtain db' where run: "process_block_usage 7 ?db = Inr db'"
    by (simp add: process_block_usage_def initialize_database_def new_resource_limits_config_object_def
        new_resource_limits_state_object_def empty_accumulator_def accumulator_add_def
        accumulator_roll_def accumulator_decay_def average_def max_raw_value_def mul_ratio_def
        integer_divide_ceil_def downgrade_cast_uint64_def update_virtual_cpu_limit_def
        update_virtual_net_limit_def update_elastic_limit_def INE_PERCENT_def
        default_max_block_cpu_usage_def default_max_block_net_usage_def Let_def)
  show ?thesis
    using run process_block_usage_limits [OF sane run]
    by (simp add: within_elastic_def initialize_database_def new_resource_limits_config_object_def
        default_max_block_cpu_usage_def default_max_block_net_usage_def Let_def)
qed

section \<open>Memory metering\<close>



section \<open>Account limits and their totals\<close>

lemma get_account_limits_cong:
  "tbl_find (rl_limits db') (True, b) = tbl_find (rl_limits db) (True, b) \<Longrightarrow>
   tbl_find (rl_limits db') (False, b) = tbl_find (rl_limits db) (False, b) \<Longrightarrow>
   get_account_limits b db' = get_account_limits b db"
  by (simp add: get_account_limits_def tbl_get_def split: option.splits)

lemma find_or_create_pending_limits_Inr:
  assumes "find_or_create_pending_limits a db = Inr (db1, l)"
  shows "get_account_limits a db = Inr l \<and> tbl_find (rl_limits db1) (True, a) = Some l
    \<and> (\<forall>k. k \<noteq> (True, a) \<longrightarrow> tbl_find (rl_limits db1) k = tbl_find (rl_limits db) k)
    \<and> db1\<lparr>rl_limits := rl_limits db\<rparr> = db"
  using assms
  by (auto simp: find_or_create_pending_limits_def get_account_limits_def tbl.find_create
      split: option.splits)

text \<open>
  C21. \<open>set_account_limits\<close> takes effect at once for readers and leaves the accounting to the
  next block boundary: afterwards \<open>get_account_limits\<close> returns the three values just set for
  that account and the old ones for every other account, the actual (non-pending) rows,
  the usage, the configuration and the weight totals are unchanged, and the result is true
  exactly when a finite memory limit replaces an unlimited or larger one.
\<close>

theorem set_account_limits_read_back:
  assumes "set_account_limits a mem net cpu db = Inr (db', decreased)"
  shows "get_account_limits a db' = Inr \<lparr>net_weight = net, cpu_weight = cpu, mem_bytes = mem\<rparr>
    \<and> (\<forall>b. b \<noteq> a \<longrightarrow> get_account_limits b db' = get_account_limits b db)
    \<and> (\<forall>b. tbl_find (rl_limits db') (False, b) = tbl_find (rl_limits db) (False, b))
    \<and> rl_usage db' = rl_usage db \<and> rl_config db' = rl_config db \<and> rl_state db' = rl_state db
    \<and> (\<exists>old. get_account_limits a db = Inr old
         \<and> (decreased \<longleftrightarrow> 0 \<le> sint mem \<and> (sint (mem_bytes old) < 0 \<or> sint mem < sint (mem_bytes old))))"
proof -
  from assms obtain db1 l where f: "find_or_create_pending_limits a db = Inr (db1, l)"
    and db': "db' = db1\<lparr>rl_limits := tbl_modify (True, a)
        (\<lambda>l. l\<lparr>mem_bytes := mem, net_weight := net, cpu_weight := cpu\<rparr>) (rl_limits db1)\<rparr>"
    and dec: "decreased \<longleftrightarrow> 0 \<le> sint mem \<and> (sint (mem_bytes l) < 0 \<or> sint mem < sint (mem_bytes l))"
    by (auto simp: set_account_limits_def Let_def split: if_splits)
  note L = find_or_create_pending_limits_Inr [OF f]
  have find': "tbl_find (rl_limits db') k =
      (if k = (True, a) then Some \<lparr>net_weight = net, cpu_weight = cpu, mem_bytes = mem\<rparr>
       else tbl_find (rl_limits db) k)" for k
    using L by (cases k) (auto simp: db' tbl.find_modify)
  have rest: "rl_usage db' = rl_usage db" "rl_config db' = rl_config db" "rl_state db' = rl_state db"
    using L by (auto simp: db' dest: arg_cong [of _ _ rl_usage] arg_cong [of _ _ rl_config]
        arg_cong [of _ _ rl_state])
  have "get_account_limits b db' = get_account_limits b db" if "b \<noteq> a" for b
    using that by (intro get_account_limits_cong) (simp_all add: find')
  moreover have "get_account_limits a db' = Inr \<lparr>net_weight = net, cpu_weight = cpu, mem_bytes = mem\<rparr>"
    by (simp add: get_account_limits_def find')
  ultimately show ?thesis
    using L dec rest by (simp add: find')
qed


theorem set_account_limits_read_back_witness:
  "\<exists>db'. set_account_limits 3 100 20 30 (initialize_database
        \<lparr>rl_limits := [((False, 3), new_resource_limits_object)]\<rparr>) = Inr (db', True)
     \<and> get_account_limits 3 db' = Inr \<lparr>net_weight = 20, cpu_weight = 30, mem_bytes = 100\<rparr>"
proof -
  let ?db = "initialize_database\<lparr>rl_limits := [((False, 3), new_resource_limits_object)]\<rparr>"
  obtain db' where run: "set_account_limits 3 100 20 30 ?db = Inr (db', True)"
    by (simp add: set_account_limits_def find_or_create_pending_limits_def tbl_get_def tbl_find_def
        tbl_create_def new_resource_limits_object_def Let_def)
  show ?thesis using run set_account_limits_read_back [OF run] by blast
qed

text \<open>
  The totals kept in the state: for each kind of limit, the sum of the positive values over
  the actual rows. \<open>pend_total\<close> is the same sum over the pending rows.
\<close>

definition pos_total :: "(resource_limits_object \<Rightarrow> i64) \<Rightarrow> (bool \<times> account_name, resource_limits_object) tbl \<Rightarrow> nat" where
  "pos_total sel t = sum_list (map (\<lambda>(k, l). if fst k then 0 else nat (sint (sel l))) t)"

definition pend_total :: "(resource_limits_object \<Rightarrow> i64) \<Rightarrow> (bool \<times> account_name, resource_limits_object) tbl \<Rightarrow> nat" where
  "pend_total sel t = sum_list (map (\<lambda>(k, l). if fst k then nat (sint (sel l)) else 0) t)"

definition totals_ok :: "resource_db \<Rightarrow> bool" where
  "totals_ok db \<longleftrightarrow>
     unat (total_mem_bytes (rl_state db)) = pos_total mem_bytes (rl_limits db)
     \<and> unat (total_cpu_weight (rl_state db)) = pos_total cpu_weight (rl_limits db)
     \<and> unat (total_net_weight (rl_state db)) = pos_total net_weight (rl_limits db)"

lemma update_state_and_value_exact:
  assumes "nat (sint v) \<le> unat tot"
  shows "case update_state_and_value tot v pv of
      Inl e \<Rightarrow> 2 ^ 64 \<le> unat tot - nat (sint v) + nat (sint pv)
    | Inr (tot', v') \<Rightarrow> v' = pv \<and> unat tot' = unat tot - nat (sint v) + nat (sint pv)"
proof -
  let ?t = "if 0 < sint v then tot - v else tot"
  have v: "0 < sint v \<Longrightarrow> unat v = nat (sint v)" by (simp add: unat_eq_sint)
  have t: "unat ?t = unat tot - nat (sint v)"
    using assms v by (simp add: word_le_nat_alt unat_sub_no_borrow)
  have "update_state_and_value tot v pv = res_bind
       (if 0 < sint pv then
          INE_ASSERT (pv \<le> (- 1) - ?t) rate_limiting_state_inconsistent (Inr (?t + pv))
        else Inr ?t) (\<lambda>tot. Inr (tot, pv))"
    using assms v by (auto simp: update_state_and_value_def word_le_nat_alt)
  moreover have "pv \<le> (- 1) - ?t \<longleftrightarrow> unat ?t + unat pv < 2 ^ 64"
    using unat_lt2p [of ?t] by (auto simp: word_le_nat_alt unat_max_minus)
  moreover have "0 < sint pv \<Longrightarrow> unat pv = nat (sint pv)" by (simp add: unat_eq_sint)
  ultimately show ?thesis
    using t by (auto simp: unat_add_no_overflow)
qed

lemma pos_total_modify:
  "tbl_find t (False, a) = Some l \<Longrightarrow>
     pos_total sel (tbl_modify (False, a) (\<lambda>_. l') t) + nat (sint (sel l)) = pos_total sel t + nat (sint (sel l'))"
  by (induction t) (auto simp: pos_total_def tbl_find_def)

lemma pos_total_remove: "pos_total sel (tbl_remove (True, a) t) = pos_total sel t"
  by (induction t) (auto simp: pos_total_def tbl_remove_def)

lemma pos_total_ge: "tbl_find t (False, a) = Some l \<Longrightarrow> nat (sint (sel l)) \<le> pos_total sel t"
  by (induction t) (auto simp: pos_total_def tbl_find_def split: if_splits)

lemma pend_total_modify: "pend_total sel (tbl_modify (False, a) f t) = pend_total sel t"
  by (induction t) (auto simp: pend_total_def)

lemma pend_total_remove_le: "pend_total sel (tbl_remove k t) \<le> pend_total sel t"
  by (induction t) (auto simp: pend_total_def tbl_remove_def)

lemma pend_total_Cons: "pend_total sel (r # t) = (if fst (fst r) then nat (sint (sel (snd r))) else 0) + pend_total sel t"
  by (simp add: pend_total_def split_beta)

lemma tbl_remove_Cons: "tbl_remove k (r # t) = (if fst r = k then tbl_remove k t else r # tbl_remove k t)"
  by (simp add: tbl_remove_def split_beta)

lemma pend_total_remove:
  "tbl_find t (True, a) = Some l \<Longrightarrow> pend_total sel (tbl_remove (True, a) t) + nat (sint (sel l)) \<le> pend_total sel t"
proof (induction t)
  case Nil
  then show ?case by (simp add: tbl_find_def)
next
  case (Cons r t)
  then show ?case
    using pend_total_remove_le [of sel "(True, a)" t]
    by (cases "fst r = (True, a)") (auto simp: pend_total_Cons tbl_remove_Cons tbl_find_def)
qed

text \<open>One step of the loop keeps the totals right, and never underflows.\<close>

lemma apply_pending_totals:
  assumes "totals_ok db" and "apply_pending a db = Inr db'"
  shows "totals_ok db'"
  using assms(2)
proof (rule apply_pending_Inr)
  fix itr rlo
  assume rlo: "tbl_find (rl_limits db) (False, a) = Some rlo"
    and db': "rl_limits db' = tbl_remove (True, a) (tbl_modify (False, a) (\<lambda>_. itr) (rl_limits db))"
    and u: "update_state_and_value (total_mem_bytes (rl_state db)) (mem_bytes rlo) (mem_bytes itr)
      = Inr (total_mem_bytes (rl_state db'), mem_bytes itr)"
    "update_state_and_value (total_cpu_weight (rl_state db)) (cpu_weight rlo) (cpu_weight itr)
      = Inr (total_cpu_weight (rl_state db'), cpu_weight itr)"
    "update_state_and_value (total_net_weight (rl_state db)) (net_weight rlo) (net_weight itr)
      = Inr (total_net_weight (rl_state db'), net_weight itr)"
  have step: "unat tot' = pos_total sel (rl_limits db')"
    if "unat tot = pos_total sel (rl_limits db)"
      and "update_state_and_value tot (sel rlo) (sel itr) = Inr (tot', sel itr)" for tot tot' sel
    using that update_state_and_value_exact [of "sel rlo" tot "sel itr"]
      pos_total_ge [OF rlo, of sel] pos_total_modify [OF rlo, of sel itr]
    by (simp add: db' pos_total_remove)
  show "totals_ok db'"
    using assms(1) step [OF _ u(1)] step [OF _ u(2)] step [OF _ u(3)] by (simp add: totals_ok_def)
qed

lemma apply_pending_limits:
  assumes "apply_pending a db = Inr db'"
  shows "get_account_limits b db' = get_account_limits b db"
  using assms
proof (rule apply_pending_Inr)
  fix itr rlo
  assume f: "tbl_find (rl_limits db) (True, a) = Some itr" "tbl_find (rl_limits db) (False, a) = Some rlo"
    and db': "rl_limits db' = tbl_remove (True, a) (tbl_modify (False, a) (\<lambda>_. itr) (rl_limits db))"
  show ?thesis
  proof (cases "b = a")
    case True
    then show ?thesis
      using f by (simp add: get_account_limits_def tbl_get_def db' tbl.find_remove tbl.find_modify)
  next
    case False
    then show ?thesis
      by (intro get_account_limits_cong) (simp_all add: db' tbl.find_remove tbl.find_modify)
  qed
qed

lemma first_pending_None: "first_pending t = None \<longleftrightarrow> (\<forall>a. tbl_find t (True, a) = None)"
proof -
  have "first_pending t = None \<longleftrightarrow> pending_owners t = []"
    by (simp add: first_pending_def split: list.splits)
  also have "\<dots> \<longleftrightarrow> (\<forall>a. tbl_find t (True, a) = None)"
    using pending_owners_mem [of _ t] by (metis list.set_intros(1) empty_iff list.set(1) neq_Nil_conv)
  finally show ?thesis .
qed

text \<open>
  C22. At a block boundary the pending limits become the actual ones and the totals stay exact:
  if the totals of the state are the sums of the positive limits before
  \<open>process_account_limit_updates\<close> and it succeeds, they are so afterwards, no pending row is
  left, every account reads the same limits as before, and usage and configuration are
  untouched.
\<close>

theorem process_account_limit_updates_totals:
  assumes "totals_ok db" and "process_account_limit_updates db = Inr db'"
  shows "totals_ok db' \<and> (\<forall>a. tbl_find (rl_limits db') (True, a) = None)
    \<and> (\<forall>a. get_account_limits a db' = get_account_limits a db)
    \<and> rl_usage db' = rl_usage db \<and> rl_config db' = rl_config db"
  using assms
proof (induction db rule: process_account_limit_updates.induct)
  case (1 db)
  show ?case
  proof (cases "first_pending (rl_limits db)")
    case None
    then have "db' = db"
      using "1.prems"(2) by (simp add: process_account_limit_updates.simps [of db])
    then show ?thesis using "1.prems"(1) None by (simp add: first_pending_None)
  next
    case (Some a)
    then obtain db1 where ap: "apply_pending a db = Inr db1"
      and rest: "process_account_limit_updates db1 = Inr db'"
      using "1.prems"(2) by (auto simp: process_account_limit_updates.simps [of db])
    have "rl_usage db1 = rl_usage db" "rl_config db1 = rl_config db"
      using ap by (auto elim: apply_pending_Inr)
    then show ?thesis
      using "1.IH" [OF Some ap apply_pending_totals [OF "1.prems"(1) ap] rest]
        apply_pending_limits [OF ap] by simp
  qed
qed


text \<open>A database with one account whose limits change, for the witnesses.\<close>

definition example_limits_db :: resource_db where
  "example_limits_db = initialize_database
     \<lparr>rl_limits := [((False, 3), \<lparr>net_weight = 4, cpu_weight = 5, mem_bytes = - 1\<rparr>),
                    ((True, 3), \<lparr>net_weight = 7, cpu_weight = - 1, mem_bytes = 100\<rparr>)],
      rl_state := (rl_state initialize_database)
        \<lparr>total_net_weight := 4, total_cpu_weight := 5, total_mem_bytes := 0\<rparr>\<rparr>"

lemma example_limits_db_ok:
  "totals_ok example_limits_db"
  "\<exists>db'. process_account_limit_updates example_limits_db = Inr db' \<and> total_net_weight (rl_state db') = 7"
  by (simp add: totals_ok_def example_limits_db_def pos_total_def)
    (simp add: example_limits_db_def process_account_limit_updates.simps first_pending_def
      pending_owners_def apply_pending_def tbl_get_def tbl_find_def tbl_remove_def
      update_state_and_value_def Let_def)

theorem process_account_limit_updates_totals_witness:
  "\<exists>db'. process_account_limit_updates example_limits_db = Inr db' \<and> totals_ok db'
     \<and> get_account_limits 3 db' = Inr \<lparr>net_weight = 7, cpu_weight = - 1, mem_bytes = 100\<rparr>"
proof -
  obtain db' where run: "process_account_limit_updates example_limits_db = Inr db'"
    using example_limits_db_ok(2) by blast
  have "get_account_limits 3 example_limits_db = Inr \<lparr>net_weight = 7, cpu_weight = - 1, mem_bytes = 100\<rparr>"
    by (simp add: example_limits_db_def get_account_limits_def tbl_find_def)
  then show ?thesis
    using run process_account_limit_updates_totals [OF example_limits_db_ok(1) run] by simp
qed

text \<open>
  The loop succeeds whenever the totals leave room: each step moves one pending amount into
  the totals, so the sum of both bounds every intermediate total.
\<close>

definition totals_room :: "resource_db \<Rightarrow> bool" where
  "totals_room db \<longleftrightarrow> (\<forall>sel \<in> {mem_bytes, cpu_weight, net_weight}.
     pos_total sel (rl_limits db) + pend_total sel (rl_limits db) < 2 ^ 64)"

definition pending_have_rows :: "resource_db \<Rightarrow> bool" where
  "pending_have_rows db \<longleftrightarrow>
     (\<forall>a. tbl_find (rl_limits db) (True, a) \<noteq> None \<longrightarrow> tbl_find (rl_limits db) (False, a) \<noteq> None)"

lemma update_state_and_value_succeeds:
  assumes "nat (sint v) \<le> unat tot" and "unat tot - nat (sint v) + nat (sint pv) < 2 ^ 64"
  obtains tot' where "update_state_and_value tot v pv = Inr (tot', pv)"
  using update_state_and_value_exact [OF assms(1), of pv] assms(2)
  by (auto split: sum.splits)

lemma apply_pending_succeeds:
  assumes "totals_ok db" and "totals_room db" and "pending_have_rows db"
    and "tbl_find (rl_limits db) (True, a) = Some itr"
  obtains db' where "apply_pending a db = Inr db'" and "totals_room db'" and "pending_have_rows db'"
proof -
  obtain rlo where rlo: "tbl_find (rl_limits db) (False, a) = Some rlo"
    using assms(3,4) by (auto simp: pending_have_rows_def)
  let ?t = "tbl_remove (True, a) (tbl_modify (False, a) (\<lambda>_. itr) (rl_limits db))"
  have itr': "tbl_find (tbl_modify (False, a) (\<lambda>_. itr) (rl_limits db)) (True, a) = Some itr"
    using assms(4) by (simp add: tbl.find_modify)
  have sums: "nat (sint (sel rlo)) \<le> pos_total sel (rl_limits db)"
      "pos_total sel (rl_limits db) - nat (sint (sel rlo)) + nat (sint (sel itr)) < 2 ^ 64"
      "pos_total sel ?t + pend_total sel ?t < 2 ^ 64"
    if "sel \<in> {mem_bytes, cpu_weight, net_weight}" for sel
  proof -
    have room: "pos_total sel (rl_limits db) + pend_total sel (rl_limits db) < 2 ^ 64"
      using that assms(2) unfolding totals_room_def by blast
    show ge: "nat (sint (sel rlo)) \<le> pos_total sel (rl_limits db)" by (rule pos_total_ge [OF rlo])
    have p: "pend_total sel ?t + nat (sint (sel itr)) \<le> pend_total sel (rl_limits db)"
      using pend_total_remove [OF itr', of sel] by (simp add: pend_total_modify)
    then show "pos_total sel (rl_limits db) - nat (sint (sel rlo)) + nat (sint (sel itr)) < 2 ^ 64"
      using room by linarith
    show "pos_total sel ?t + pend_total sel ?t < 2 ^ 64"
      using room p pos_total_modify [OF rlo, of sel itr] by (simp add: pos_total_remove)
  qed
  have upd: "\<exists>tot'. update_state_and_value tot (sel rlo) (sel itr) = Inr (tot', sel itr)"
    if sel: "sel \<in> {mem_bytes, cpu_weight, net_weight}"
      and tot: "unat tot = pos_total sel (rl_limits db)" for sel tot
  proof -
    obtain tot' where "update_state_and_value tot (sel rlo) (sel itr) = Inr (tot', sel itr)"
      using sums(1,2) [OF sel] unfolding tot [symmetric] by (rule update_state_and_value_succeeds)
    then show ?thesis ..
  qed
  obtain tm tc tn where
      tm: "update_state_and_value (total_mem_bytes (rl_state db)) (mem_bytes rlo) (mem_bytes itr) = Inr (tm, mem_bytes itr)"
    and tc: "update_state_and_value (total_cpu_weight (rl_state db)) (cpu_weight rlo) (cpu_weight itr) = Inr (tc, cpu_weight itr)"
    and tn: "update_state_and_value (total_net_weight (rl_state db)) (net_weight rlo) (net_weight itr) = Inr (tn, net_weight itr)"
    using upd [of mem_bytes] upd [of cpu_weight] upd [of net_weight] assms(1)
    unfolding totals_ok_def by blast
  let ?db = "db\<lparr>rl_state := (rl_state db)\<lparr>total_mem_bytes := tm, total_cpu_weight := tc, total_net_weight := tn\<rparr>,
      rl_limits := ?t\<rparr>"
  have "apply_pending a db = Inr ?db"
    using rlo assms(4) tm tc tn by (simp add: apply_pending_def tbl_get_def Let_def)
  moreover have "totals_room ?db"
    unfolding totals_room_def using sums(3) by simp
  moreover have "pending_have_rows ?db"
    using assms(3) by (auto simp: pending_have_rows_def tbl.find_remove tbl.find_modify)
  ultimately show ?thesis by (rule that)
qed

text \<open>
  C23. The block boundary cannot fail on the accounting: if the totals are exact, every pending
  row has an actual row, and for each kind of limit the positive actual and pending values
  together fit 64 bits, then \<open>process_account_limit_updates\<close> returns; the checks for
  underflow and overflow in it never fire.
\<close>

theorem process_account_limit_updates_succeeds:
  assumes "totals_ok db" and "totals_room db" and "pending_have_rows db"
  shows "\<exists>db'. process_account_limit_updates db = Inr db'"
  using assms
proof (induction db rule: process_account_limit_updates.induct)
  case (1 db)
  show ?case
  proof (cases "first_pending (rl_limits db)")
    case None
    then show ?thesis by (simp add: process_account_limit_updates.simps [of db])
  next
    case (Some a)
    then obtain itr where itr: "tbl_find (rl_limits db) (True, a) = Some itr"
      using first_pending_in pending_owners_mem by blast
    obtain db1 where ap: "apply_pending a db = Inr db1" "totals_room db1" "pending_have_rows db1"
      using apply_pending_succeeds [OF "1.prems" itr] by blast
    show ?thesis
      using "1.IH" [OF Some ap(1) apply_pending_totals [OF "1.prems"(1) ap(1)] ap(2,3)] Some ap(1)
      by (simp add: process_account_limit_updates.simps [of db])
  qed
qed

theorem process_account_limit_updates_succeeds_witness:
  "\<exists>db'. process_account_limit_updates example_limits_db = Inr db'"
proof -
  have "totals_room example_limits_db" "pending_have_rows example_limits_db"
    by (auto simp: totals_room_def pending_have_rows_def example_limits_db_def pos_total_def
        pend_total_def tbl_find_def)
  then show ?thesis
    using process_account_limit_updates_succeeds [OF example_limits_db_ok(1)] by blast
qed


section \<open>Billing a transaction\<close>

text \<open>
  An account's share of a resource: what it used in the window, rounded down, times the total
  weight is at most the window's capacity times its own weight.
\<close>

definition share_respected :: "i64 \<Rightarrow> u64 \<Rightarrow> u64 \<Rightarrow> u32 \<Rightarrow> usage_accumulator \<Rightarrow> bool" where
  "share_respected weight total_weight virtual_limit window acc \<longleftrightarrow>
     unat (value_ex acc) * unat window div 1000000 * unat total_weight
       \<le> unat virtual_limit * unat window * unat weight"

lemma check_window_usage_share:
  assumes "check_window_usage e weight total_weight virtual_limit window acc = Inr ()"
    and "0 \<le> sint weight" and "0 < total_weight"
    and "unat virtual_limit * unat window * unat weight < 2 ^ 128"
  shows "share_respected weight total_weight virtual_limit window acc"
proof -
  let ?w = "ucast window :: u128"
  have lim: "unat (value_ex acc) * unat window < 2 ^ LENGTH(128)"
  proof -
    have "unat (value_ex acc) * unat window < 2 ^ LENGTH(64) * 2 ^ LENGTH(32)"
      by (rule mult_strict_mono) (simp_all add: unat_lt2p del: len_num0 len_num1 len_bit0 len_bit1)
    then show ?thesis by simp
  qed
  have cap: "unat virtual_limit * unat window < 2 ^ LENGTH(128)"
  proof -
    have "unat virtual_limit * unat window < 2 ^ LENGTH(64) * 2 ^ LENGTH(32)"
      by (rule mult_strict_mono) (simp_all add: unat_lt2p del: len_num0 len_num1 len_bit0 len_bit1)
    then show ?thesis by simp
  qed
  have used: "unat ((ucast (value_ex acc) * ?w) div ucast rate_limiting_precision)
      = unat (value_ex acc) * unat window div 1000000"
    using lim by (simp add: unat_div unat_mult_no_overflow unat_ucast_up_simp)
  have mx: "unat ((ucast virtual_limit * ?w * ucast weight) div ucast total_weight)
      = unat virtual_limit * unat window * unat weight div unat total_weight"
    using cap assms(4) by (simp add: unat_div unat_mult_no_overflow unat_ucast_up_simp)
  have "unat (value_ex acc) * unat window div 1000000
      \<le> unat virtual_limit * unat window * unat weight div unat total_weight"
    using assms(1-3) unfolding used [symmetric] mx [symmetric]
    by (simp add: check_window_usage_def Let_def word_le_nat_alt split: if_splits)
  moreover have "0 < unat total_weight" using assms(3) by (simp add: word_less_nat_alt)
  ultimately show ?thesis
    by (simp add: share_respected_def less_eq_div_iff_mult_less_eq)
qed

text \<open>The row of one billed account afterwards, given its row and limits before.\<close>

definition billed :: "resource_db \<Rightarrow> u64 \<Rightarrow> u64 \<Rightarrow> u32 \<Rightarrow> resource_limits_object \<Rightarrow> resource_usage_object \<Rightarrow> resource_usage_object \<Rightarrow> bool" where
  "billed db cpu net time_slot l u u' \<longleftrightarrow>
     (let st = rl_state db; cfg = rl_config db in
     accumulator_add net time_slot (account_net_usage_average_window cfg) (net_usage u) = Inr (net_usage u')
     \<and> accumulator_add cpu time_slot (account_cpu_usage_average_window cfg) (cpu_usage u) = Inr (cpu_usage u')
     \<and> mem_usage u' = mem_usage u + transaction_id_net_usage
     \<and> (0 \<le> sint (mem_bytes l) \<longrightarrow> mem_usage u' \<le> mem_bytes l)
     \<and> check_window_usage tx_cpu_usage_exceeded (cpu_weight l) (total_cpu_weight st) (virtual_cpu_limit st)
           (account_cpu_usage_average_window cfg) (cpu_usage u') = Inr ()
     \<and> check_window_usage tx_net_usage_exceeded (net_weight l) (total_net_weight st) (virtual_net_limit st)
           (account_net_usage_average_window cfg) (net_usage u') = Inr ())"

lemma add_usage_of_Inr:
  assumes "add_usage_of cpu net time_slot a db = Inr db'"
  obtains l u u' where "get_account_limits a db = Inr l" and "tbl_find (rl_usage db) a = Some u"
    and "billed db cpu net time_slot l u u'"
    and "db' = db\<lparr>rl_usage := tbl_modify a (\<lambda>_. u') (rl_usage db)\<rparr>"
proof -
  from assms obtain u l n c where u: "tbl_find (rl_usage db) a = Some u"
    and l: "get_account_limits a db = Inr l"
    and n: "accumulator_add net time_slot (account_net_usage_average_window (rl_config db)) (net_usage u) = Inr n"
    and c: "accumulator_add cpu time_slot (account_cpu_usage_average_window (rl_config db)) (cpu_usage u) = Inr c"
    and k: "check_window_usage tx_cpu_usage_exceeded (cpu_weight l) (total_cpu_weight (rl_state db))
        (virtual_cpu_limit (rl_state db)) (account_cpu_usage_average_window (rl_config db)) c = Inr ()"
      "check_window_usage tx_net_usage_exceeded (net_weight l) (total_net_weight (rl_state db))
        (virtual_net_limit (rl_state db)) (account_net_usage_average_window (rl_config db)) n = Inr ()"
    and db': "db' = db\<lparr>rl_usage := tbl_modify a (\<lambda>_. u\<lparr>net_usage := n, cpu_usage := c,
        mem_usage := mem_usage u + transaction_id_net_usage\<rparr>) (rl_usage db)\<rparr>"
    and v: "verify_account_mem_usage a db' = Inr ()"
    unfolding add_usage_of_def Let_def by auto
  have "get_account_limits a db' = get_account_limits a db"
    by (rule get_account_limits_cong) (simp_all add: db')
  then have "get_account_limits a db' = Inr l" using l by simp
  then have "0 \<le> sint (mem_bytes l) \<longrightarrow> mem_usage u + transaction_id_net_usage \<le> mem_bytes l"
    using v u by (auto simp: verify_account_mem_usage_def db' tbl_get_def tbl.find_modify split: if_splits)
  then show ?thesis
    using n c k by (intro that [OF l u _ db']) (simp add: billed_def Let_def)
qed

lemma add_usage_fold:
  assumes "res_fold (add_usage_of cpu net time_slot) accounts db = Inr db'" and "distinct accounts"
  shows "rl_limits db' = rl_limits db \<and> rl_config db' = rl_config db \<and> rl_state db' = rl_state db
    \<and> (\<forall>a. a \<notin> set accounts \<longrightarrow> tbl_find (rl_usage db') a = tbl_find (rl_usage db) a)
    \<and> (\<forall>a \<in> set accounts. \<exists>l u u'. get_account_limits a db = Inr l \<and> tbl_find (rl_usage db) a = Some u
         \<and> tbl_find (rl_usage db') a = Some u' \<and> billed db cpu net time_slot l u u')"
  using assms
proof (induction accounts arbitrary: db)
  case Nil
  then show ?case by simp
next
  case (Cons a accounts)
  then obtain db1 where step: "add_usage_of cpu net time_slot a db = Inr db1"
    and rest: "res_fold (add_usage_of cpu net time_slot) accounts db1 = Inr db'" by auto
  obtain l u u' where *: "get_account_limits a db = Inr l" "tbl_find (rl_usage db) a = Some u"
      "billed db cpu net time_slot l u u'"
    and db1: "db1 = db\<lparr>rl_usage := tbl_modify a (\<lambda>_. u') (rl_usage db)\<rparr>"
    using step by (rule add_usage_of_Inr)
  have lim: "get_account_limits b db1 = get_account_limits b db" for b
    by (rule get_account_limits_cong) (simp_all add: db1)
  have bil: "billed db1 cpu net time_slot = billed db cpu net time_slot"
    by (simp add: db1 billed_def fun_eq_iff)
  have oth: "b \<noteq> a \<Longrightarrow> tbl_find (rl_usage db1) b = tbl_find (rl_usage db) b" for b
    by (simp add: db1 tbl.find_modify)
  have a1: "tbl_find (rl_usage db1) a = Some u'" using *(2) by (simp add: db1 tbl.find_modify)
  have na: "a \<notin> set accounts" and d: "distinct accounts" using Cons.prems(2) by simp_all
  note IH = Cons.IH [OF rest d]
  have "tbl_find (rl_usage db') b = tbl_find (rl_usage db) b" if "b \<notin> set (a # accounts)" for b
    using IH that oth by simp
  moreover have "\<exists>l u u'. get_account_limits b db = Inr l \<and> tbl_find (rl_usage db) b = Some u
         \<and> tbl_find (rl_usage db') b = Some u' \<and> billed db cpu net time_slot l u u'" if "b \<in> set (a # accounts)" for b
  proof (cases "b = a")
    case True
    then show ?thesis using IH na * a1 by auto
  next
    case False
    then have "b \<in> set accounts" using that by simp
    then obtain l u u' where "get_account_limits b db1 = Inr l" "tbl_find (rl_usage db1) b = Some u"
        "tbl_find (rl_usage db') b = Some u'" "billed db1 cpu net time_slot l u u'"
      using IH by blast
    then show ?thesis using oth [OF False] lim bil by simp
  qed
  moreover have "rl_limits db' = rl_limits db \<and> rl_config db' = rl_config db \<and> rl_state db' = rl_state db"
    using IH by (simp add: db1)
  ultimately show ?case by blast
qed

text \<open>
  What an accepted transaction does to an account with limits \<open>l\<close>: its usage row goes from
  \<open>u\<close> to \<open>u'\<close> within the limits. The products are those the code computes in 128 bits.
\<close>

definition charged_within_limits :: "resource_db \<Rightarrow> u64 \<Rightarrow> u64 \<Rightarrow> u32 \<Rightarrow> resource_limits_object \<Rightarrow>
    resource_usage_object \<Rightarrow> resource_usage_object \<Rightarrow> bool" where
  "charged_within_limits db cpu net time_slot l u u' \<longleftrightarrow>
     (let st = rl_state db; cfg = rl_config db;
          cpu_window = account_cpu_usage_average_window cfg;
          net_window = account_net_usage_average_window cfg in
     accumulator_add net time_slot net_window (net_usage u) = Inr (net_usage u')
     \<and> accumulator_add cpu time_slot cpu_window (cpu_usage u) = Inr (cpu_usage u')
     \<and> mem_usage u' = mem_usage u + transaction_id_net_usage
     \<and> (0 \<le> sint (mem_bytes l) \<longrightarrow> mem_usage u' \<le> mem_bytes l)
     \<and> (0 \<le> sint (cpu_weight l) \<and> 0 < total_cpu_weight st
          \<and> unat (virtual_cpu_limit st) * unat cpu_window * unat (cpu_weight l) < 2 ^ 128
        \<longrightarrow> share_respected (cpu_weight l) (total_cpu_weight st) (virtual_cpu_limit st) cpu_window (cpu_usage u'))
     \<and> (0 \<le> sint (net_weight l) \<and> 0 < total_net_weight st
          \<and> unat (virtual_net_limit st) * unat net_window * unat (net_weight l) < 2 ^ 128
        \<longrightarrow> share_respected (net_weight l) (total_net_weight st) (virtual_net_limit st) net_window (net_usage u')))"

lemma billed_within_limits:
  "billed db cpu net time_slot l u u' \<Longrightarrow> charged_within_limits db cpu net time_slot l u u'"
  using check_window_usage_share unfolding billed_def charged_within_limits_def Let_def by blast

text \<open>
  C14. A transaction that \<open>add_transaction_usage\<close> accepts respects every limit. The block's
  pending CPU and NET usage grows by exactly the transaction's and stays within the block
  maxima; limits and all accounts that do not authorize the transaction are untouched; and for
  each authorizing account the two accumulators and the memory counter are charged, a memory
  quota that is not unlimited is not exceeded, and a CPU or NET weight that is not unlimited
  bounds the use in the window by the account's share of the capacity (as long as the product
  of capacity and weight fits the 128 bits the code computes it in).
\<close>

theorem add_transaction_usage_enforced:
  assumes "add_transaction_usage accounts cpu net time_slot db = Inr db'" and "distinct accounts"
  shows "pending_cpu_usage (rl_state db') = pending_cpu_usage (rl_state db) + cpu
    \<and> pending_net_usage (rl_state db') = pending_net_usage (rl_state db) + net
    \<and> pending_cpu_usage (rl_state db') \<le> elp_max (cpu_limit_parameters (rl_config db))
    \<and> pending_net_usage (rl_state db') \<le> elp_max (net_limit_parameters (rl_config db))
    \<and> rl_limits db' = rl_limits db \<and> rl_config db' = rl_config db
    \<and> (\<forall>a. a \<notin> set accounts \<longrightarrow> tbl_find (rl_usage db') a = tbl_find (rl_usage db) a)
    \<and> (\<forall>a \<in> set accounts. \<exists>l u u'. get_account_limits a db = Inr l
         \<and> tbl_find (rl_usage db) a = Some u \<and> tbl_find (rl_usage db') a = Some u'
         \<and> charged_within_limits db cpu net time_slot l u u')"
proof -
  from assms(1) obtain db1 where fold: "res_fold (add_usage_of cpu net time_slot) accounts db = Inr db1"
    and db': "db' = db1\<lparr>rl_state := (rl_state db1)\<lparr>pending_cpu_usage := pending_cpu_usage (rl_state db1) + cpu,
        pending_net_usage := pending_net_usage (rl_state db1) + net\<rparr>\<rparr>"
    and mx: "pending_cpu_usage (rl_state db1) + cpu \<le> elp_max (cpu_limit_parameters (rl_config db1))"
      "pending_net_usage (rl_state db1) + net \<le> elp_max (net_limit_parameters (rl_config db1))"
    by (auto simp: add_transaction_usage_def Let_def split: if_splits)
  note F = add_usage_fold [OF fold assms(2)]
  have "\<exists>l u u'. get_account_limits a db = Inr l \<and> tbl_find (rl_usage db) a = Some u
      \<and> tbl_find (rl_usage db') a = Some u' \<and> charged_within_limits db cpu net time_slot l u u'"
    if "a \<in> set accounts" for a
    using F that billed_within_limits by (simp add: db') blast
  moreover have "tbl_find (rl_usage db') a = tbl_find (rl_usage db) a" if "a \<notin> set accounts" for a
    using F that by (simp add: db')
  ultimately show ?thesis
    using F mx by (simp add: db')
qed

definition example_billing_db :: resource_db where
  "example_billing_db = initialize_database
     \<lparr>rl_limits := [((False, 1), \<lparr>net_weight = 1, cpu_weight = 1, mem_bytes = 100\<rparr>)],
      rl_usage := [(1, new_resource_usage_object\<lparr>mem_usage := 5\<rparr>)],
      rl_state := (rl_state initialize_database)\<lparr>total_net_weight := 2, total_cpu_weight := 4\<rparr>\<rparr>"

lemma example_billing_db_run:
  "\<exists>db'. add_transaction_usage [1] 300 40 9 example_billing_db = Inr db'"
  by (simp add: add_transaction_usage_def add_usage_of_def example_billing_db_def initialize_database_def
      new_resource_limits_config_object_def new_resource_limits_state_object_def
      new_resource_usage_object_def get_account_limits_def tbl_get_def tbl_find_def
      verify_account_mem_usage_def check_window_usage_def
      empty_accumulator_def accumulator_add_def accumulator_roll_def accumulator_decay_def
      integer_divide_ceil_def downgrade_cast_uint64_def mul_ratio_def average_def max_raw_value_def
      INE_PERCENT_def default_max_block_cpu_usage_def default_max_block_net_usage_def
      transaction_id_net_usage_def Let_def)

theorem add_transaction_usage_enforced_witness:
  "\<exists>db'. add_transaction_usage [1] 300 40 9 example_billing_db = Inr db'
     \<and> pending_cpu_usage (rl_state db') = 300
     \<and> (\<exists>l u u'. tbl_find (rl_usage db') 1 = Some u'
          \<and> charged_within_limits example_billing_db 300 40 9 l u u')"
proof -
  obtain db' where run: "add_transaction_usage [1] 300 40 9 example_billing_db = Inr db'"
    using example_billing_db_run by blast
  have "pending_cpu_usage (rl_state example_billing_db) = 0"
    by (simp add: example_billing_db_def initialize_database_def new_resource_limits_state_object_def)
  then show ?thesis
    using run add_transaction_usage_enforced [OF run] by auto
qed

section \<open>What an account may still use\<close>

lemma downgrade_cast_int64_Inr:
  assumes "downgrade_cast_int64 v = Inr x"
  shows "sint x = int (unat v)"
proof -
  have v: "v \<le> 0x7FFFFFFFFFFFFFFF" and x: "x = word_of_nat (unat v)"
    using assms by (auto simp: downgrade_cast_int64_def split: if_splits)
  have "unat v \<le> 0x7FFFFFFFFFFFFFFF" using v by (simp add: word_le_nat_alt)
  then have "unat v < 2 ^ (LENGTH(64) - 1)" by simp
  then show ?thesis unfolding x by (rule sint_word_of_nat)
qed

lemma unat_window_product:
  "unat ((ucast (v :: u64) :: u128) * ucast (w :: u32)) = unat v * unat w"
  "unat ((ucast (w :: u32) :: u128) * ucast (v :: u64)) = unat w * unat v"
proof -
  have "unat v * unat w < 2 ^ LENGTH(64) * 2 ^ LENGTH(32)"
    by (rule mult_strict_mono) (simp_all add: unat_lt2p del: len_num0 len_num1 len_bit0 len_bit1)
  then show "unat ((ucast v :: u128) * ucast w) = unat v * unat w"
    "unat ((ucast w :: u128) * ucast v) = unat w * unat v"
    by (simp_all add: unat_mult_no_overflow unat_ucast_up_simp mult.commute)
qed

lemma available_saturates:
  assumes "(if mx \<le> used then Inr 0 else downgrade_cast_int64 (mx - used)) = Inr x"
  shows "sint x = max 0 (int (unat mx) - int (unat used))"
proof (cases "mx \<le> used")
  case True
  then show ?thesis using assms by (auto simp: word_le_def)
next
  case False
  then have "unat (mx - used) = unat mx - unat used" "unat used \<le> unat mx"
    by (simp_all add: unat_sub_no_borrow word_le_nat_alt)
  then show ?thesis
    using assms False downgrade_cast_int64_Inr [of "mx - used" x] by (simp add: word_le_def)
qed

text \<open>
  The virtual limit that counts for an account: a greylist limit below the elastic multiplier
  caps it at that multiple of the block maximum.
\<close>

definition effective_limit :: "u64 \<Rightarrow> u64 \<Rightarrow> u32 \<Rightarrow> u64" where
  "effective_limit virtual_limit max_limit greylist_limit =
     (if greylist_limit < maximum_elastic_resource_multiplier
      then min virtual_limit (max_limit * ucast greylist_limit) else virtual_limit)"

lemma account_limit_ex_exact:
  assumes "account_limit_ex weight total_weight virtual_limit max_limit window greylist_limit acc = Inr (arl, greylisted)"
    and "0 \<le> sint weight" and "total_weight \<noteq> 0"
    and "unat (effective_limit virtual_limit max_limit greylist_limit) * unat window * unat weight < 2 ^ 128"
  shows "sint (arl_used arl) = int (ceil_div (unat (value_ex acc) * unat window) 1000000)
    \<and> sint (arl_max arl) = int (unat (effective_limit virtual_limit max_limit greylist_limit) * unat window
        * unat weight div unat total_weight)
    \<and> sint (arl_available arl) = max 0 (sint (arl_max arl) - sint (arl_used arl))
    \<and> (greylisted \<longleftrightarrow> effective_limit virtual_limit max_limit greylist_limit \<noteq> virtual_limit)"
proof -
  let ?eff = "effective_limit virtual_limit max_limit greylist_limit"
  let ?gl = "greylist_limit < maximum_elastic_resource_multiplier \<and> max_limit * ucast greylist_limit < virtual_limit"
  let ?mx = "(ucast window * ucast ?eff * ucast weight :: u128) div ucast total_weight"
  have eff: "?eff = (if ?gl then max_limit * ucast greylist_limit else virtual_limit)"
    by (auto simp: effective_limit_def min_def)
  from assms(1-3) obtain used where
      used: "integer_divide_ceil (ucast (value_ex acc) * (ucast window :: u128)) (ucast rate_limiting_precision) = Inr used"
    and av: "(if ?mx \<le> used then Inr 0 else downgrade_cast_int64 (?mx - used)) = Inr (arl_available arl)"
    and us: "downgrade_cast_int64 used = Inr (arl_used arl)" and mx: "downgrade_cast_int64 ?mx = Inr (arl_max arl)"
    and gl: "greylisted = ?gl"
    unfolding account_limit_ex_def Let_def eff [symmetric] by auto
  have u: "unat used = ceil_div (unat (value_ex acc) * unat window) 1000000"
    using integer_divide_ceil_Inr [OF used] by (simp add: unat_window_product)
  have m: "unat ?mx = unat ?eff * unat window * unat weight div unat total_weight"
    using assms(4) by (simp add: unat_div unat_mult_no_overflow unat_window_product unat_ucast_up_simp mult.commute)
  have a: "sint (arl_available arl) = max 0 (int (unat ?mx) - int (unat used))"
    using av by (rule available_saturates)
  have "greylisted \<longleftrightarrow> ?eff \<noteq> virtual_limit" using gl eff by auto
  then show ?thesis
    using a downgrade_cast_int64_Inr [OF us] downgrade_cast_int64_Inr [OF mx] unfolding u m by simp
qed

text \<open>
  C24. What \<open>get_account_cpu_limit_ex\<close> reports for an account with a bounded CPU weight is
  exact: \<open>used\<close> is the window's usage rounded up, \<open>max\<close> is the account's share of the
  capacity under its effective (possibly greylisted) virtual limit, \<open>available\<close> is their
  difference but never negative, and the greylist flag is set exactly when the greylist
  lowered the limit.
\<close>

theorem get_account_cpu_limit_ex_exact:
  assumes "get_account_cpu_limit_ex a greylist_limit db = Inr (arl, greylisted)"
    and "tbl_find (rl_usage db) a = Some u" and "get_account_limits a db = Inr l"
    and "0 \<le> sint (cpu_weight l)" and "total_cpu_weight (rl_state db) \<noteq> 0"
    and "eff = effective_limit (virtual_cpu_limit (rl_state db)) (elp_max (cpu_limit_parameters (rl_config db))) greylist_limit"
    and "window = unat (account_cpu_usage_average_window (rl_config db))"
    and "unat eff * window * unat (cpu_weight l) < 2 ^ 128"
  shows "sint (arl_used arl) = int (ceil_div (unat (value_ex (cpu_usage u)) * window) 1000000)
    \<and> sint (arl_max arl) = int (unat eff * window * unat (cpu_weight l) div unat (total_cpu_weight (rl_state db)))
    \<and> sint (arl_available arl) = max 0 (sint (arl_max arl) - sint (arl_used arl))
    \<and> (greylisted \<longleftrightarrow> eff \<noteq> virtual_cpu_limit (rl_state db))"
  unfolding assms(6,7)
  by (rule account_limit_ex_exact)
    (use assms in \<open>auto simp: get_account_cpu_limit_ex_def tbl_get_def\<close>)

theorem get_account_cpu_limit_ex_exact_witness:
  "\<exists>arl. get_account_cpu_limit_ex 1 1000 example_billing_db = Inr (arl, False)
     \<and> sint (arl_used arl) = 0 \<and> sint (arl_available arl) = sint (arl_max arl)
     \<and> sint (arl_max arl) = 8640000000"
proof -
  let ?db = example_billing_db
  let ?l = "\<lparr>net_weight = 1, cpu_weight = 1, mem_bytes = 100\<rparr>"
  have l: "get_account_limits 1 ?db = Inr ?l"
    by (simp add: example_billing_db_def get_account_limits_def tbl_find_def tbl_get_def)
  have u: "tbl_find (rl_usage ?db) 1 = Some (new_resource_usage_object\<lparr>mem_usage := 5\<rparr>)"
    by (simp add: example_billing_db_def tbl_find_def)
  have st: "virtual_cpu_limit (rl_state ?db) = 200000" "total_cpu_weight (rl_state ?db) = 4"
    "account_cpu_usage_average_window (rl_config ?db) = 172800"
    by (simp_all add: example_billing_db_def initialize_database_def new_resource_limits_config_object_def
      default_max_block_cpu_usage_def Let_def)
  have eff: "effective_limit (virtual_cpu_limit (rl_state ?db)) (elp_max (cpu_limit_parameters (rl_config ?db))) 1000 = 200000"
    by (simp add: effective_limit_def maximum_elastic_resource_multiplier_def st)
  obtain arl where run: "get_account_cpu_limit_ex 1 1000 ?db = Inr (arl, False)"
    by (simp add: get_account_cpu_limit_ex_def l u tbl_get_def account_limit_ex_def st
      maximum_elastic_resource_multiplier_def integer_divide_ceil_def downgrade_cast_int64_def
      new_resource_usage_object_def empty_accumulator_def Let_def)
  show ?thesis
    using run get_account_cpu_limit_ex_exact [OF run u l] eff
    by (simp add: st new_resource_usage_object_def empty_accumulator_def ceil_div_def)
qed

end
