(* ===== verification/Protocol_Features.thy ===== *)
theory Protocol_Features
  imports Digest
begin

text \<open>
  Protocol features (\<open>protocol_feature_manager.hpp\<close>, \<open>.cpp\<close>): the table of built-in features, the
  set of features a node recognizes and the manager that records which of them are active
  since which block, and that forgets activations when blocks are popped on a fork switch.

  A \<open>flat_set\<close> is a set, an iterator into the set of recognized features is the digest it
  points to (\<open>None\<close> for \<open>end()\<close>), and \<open>no_previous\<close> is \<open>None\<close>. The hash that gives a feature its
  digest is a parameter.
\<close>

section \<open>Built-in features\<close>

datatype builtin_protocol_feature_t =
    preactivate_feature
  | only_link_to_existing_permission
  | replace_deferred
  | no_duplicate_deferred_id
  | fix_linkauth_restriction
  | disallow_empty_producer_schedule
  | restrict_action_to_self
  | only_bill_first_authorizer
  | forward_setcode
  | get_sender
  | mem_restrictions
  | webauthn_key
  | wtmsig_block_signatures

text \<open>\<open>static_cast<uint32_t>\<close> of an enumerator.\<close>

fun feature_index :: "builtin_protocol_feature_t \<Rightarrow> nat" where
  "feature_index preactivate_feature = 0"
| "feature_index only_link_to_existing_permission = 1"
| "feature_index replace_deferred = 2"
| "feature_index no_duplicate_deferred_id = 3"
| "feature_index fix_linkauth_restriction = 4"
| "feature_index disallow_empty_producer_schedule = 5"
| "feature_index restrict_action_to_self = 6"
| "feature_index only_bill_first_authorizer = 7"
| "feature_index forward_setcode = 8"
| "feature_index get_sender = 9"
| "feature_index mem_restrictions = 10"
| "feature_index webauthn_key = 11"
| "feature_index wtmsig_block_signatures = 12"

type_synonym time_point = i64

record subjective_restrictions =
  sr_earliest_allowed_activation_time :: time_point
  sr_preactivation_required :: bool
  sr_enabled :: bool

record builtin_protocol_feature_spec =
  codename :: string
  spec_description_digest :: digest_type
  builtin_dependencies :: "builtin_protocol_feature_t set"
  spec_subjective_restrictions :: subjective_restrictions

text \<open>The default member initializer \<open>{time_point{}, true, true}\<close>.\<close>

definition feature_spec :: "string \<Rightarrow> digest_type \<Rightarrow> builtin_protocol_feature_t set \<Rightarrow> builtin_protocol_feature_spec" where
  "feature_spec c d deps =
     \<lparr>codename = c, spec_description_digest = d, builtin_dependencies = deps,
      spec_subjective_restrictions = \<lparr>sr_earliest_allowed_activation_time = 0,
        sr_preactivation_required = True, sr_enabled = True\<rparr>\<rparr>"

text \<open>
  The table of built-in features. It has an entry for every enumerator, so the lookups that
  the code guards with an assertion always succeed.
\<close>

fun builtin_protocol_feature_codenames :: "builtin_protocol_feature_t \<Rightarrow> builtin_protocol_feature_spec" where
  "builtin_protocol_feature_codenames preactivate_feature =
     (feature_spec ''PREACTIVATE_FEATURE''
       (sha256 0xBE869B2EF37DFE64 0x27D5DF813F6B292B 0xC93B368EB9824EF8 0x103373837ABC407E) {})
     \<lparr>spec_subjective_restrictions := \<lparr>sr_earliest_allowed_activation_time = 0,
        sr_preactivation_required = False, sr_enabled = True\<rparr>\<rparr>"
| "builtin_protocol_feature_codenames only_link_to_existing_permission =
     feature_spec ''ONLY_LINK_TO_EXISTING_PERMISSION''
       (sha256 0xE2CD03461CD9C3F3 0x24664EEDBF687239 0x1694CD10AB3A2965 0x4929EC8C2B440DDB) {}"
| "builtin_protocol_feature_codenames replace_deferred =
     feature_spec ''REPLACE_DEFERRED''
       (sha256 0x74843C41F8B30899 0xF6F4D349E16B2AAB 0xF2336088371D42D0 0x44D9267AC459477D) {}"
| "builtin_protocol_feature_codenames no_duplicate_deferred_id =
     feature_spec ''NO_DUPLICATE_DEFERRED_ID''
       (sha256 0x70DA92EE87739645 0x80CAD1EF9FFD1E17 0x69D224F1E6EFB561 0xA075157FB46824CD) {replace_deferred}"
| "builtin_protocol_feature_codenames fix_linkauth_restriction =
     feature_spec ''FIX_LINKAUTH_RESTRICTION''
       (sha256 0x86DC1135C84182A9 0xAAB472931B2257C8 0x487A56BCAE3AEA7C 0x507055B33D1D4E60) {}"
| "builtin_protocol_feature_codenames disallow_empty_producer_schedule =
     feature_spec ''DISALLOW_EMPTY_PRODUCER_SCHEDULE''
       (sha256 0xD4AB3EEC7C615328 0xC56F2E8848EB8118 0x0575D317B90D1AE8 0xCD9AE2FBBEB36478) {}"
| "builtin_protocol_feature_codenames restrict_action_to_self =
     feature_spec ''RESTRICT_ACTION_TO_SELF''
       (sha256 0x9991831812671BE7 0x2CD4C122C7D8784C 0x5C1B60E591F07C47 0xF3571A7205FDBEF1) {}"
| "builtin_protocol_feature_codenames only_bill_first_authorizer =
     feature_spec ''ONLY_BILL_FIRST_AUTHORIZER''
       (sha256 0xA59DC791E2131F2F 0xF2C1D79E25ADBBA2 0x4BB160A47E694FD3 0xE2733B063BC35A56) {}"
| "builtin_protocol_feature_codenames forward_setcode =
     feature_spec ''FORWARD_SETCODE''
       (sha256 0x001D929FC5828089 0xCED5590AF081E542 0xB6457A9C1D6FBEB8 0x2202EEEA260E7CF0) {}"
| "builtin_protocol_feature_codenames get_sender =
     feature_spec ''GET_SENDER''
       (sha256 0xF4E6A2958B74AB1E 0x56E5DE5B0642CBD7 0xA0551AF0DDEFF86A 0x8A82F823B831D8A8) {}"
| "builtin_protocol_feature_codenames mem_restrictions =
     feature_spec ''MEM_RESTRICTIONS''
       (sha256 0x54D86F09B5FD1218 0x21433BD5B98E95A4 0x00CE58E8E04D119D 0x682CAD6965D45B25) {}"
| "builtin_protocol_feature_codenames webauthn_key =
     feature_spec ''WEBAUTHN_KEY''
       (sha256 0xA8771EC578DF7F92 0x1FFB498293DBF299 0xF7C1D9434E8FB38B 0x34BC0C089204195B) {}"
| "builtin_protocol_feature_codenames wtmsig_block_signatures =
     feature_spec ''WTMSIG_BLOCK_SIGNATURES''
       (sha256 0x7F457AAD1C0376AB 0x033F7AA9FCF5D54F 0xF716048E2735A6B8 0x108EA499EB91CC7D) {}"

definition builtin_protocol_feature_codename :: "builtin_protocol_feature_t \<Rightarrow> string" where
  "builtin_protocol_feature_codename c = codename (builtin_protocol_feature_codenames c)"

record builtin_protocol_feature =
  bf_description_digest :: digest_type
  bf_dependencies :: "digest_type set"
  bf_subjective_restrictions :: subjective_restrictions
  bf_codename :: builtin_protocol_feature_t

text \<open>
  \<open>protocol_feature\<close>; \<open>builtin_feature\<close> is optional in the code.
\<close>

record protocol_feature =
  feature_digest :: digest_type
  description_digest :: digest_type
  dependencies :: "digest_type set"
  earliest_allowed_activation_time :: time_point
  preactivation_required :: bool
  pf_enabled :: bool
  builtin_feature :: "builtin_protocol_feature_t option"

text \<open>The hash of type, description, dependencies and code name that identifies a feature.\<close>

type_synonym feature_hash = "digest_type \<Rightarrow> digest_type set \<Rightarrow> builtin_protocol_feature_t \<Rightarrow> digest_type"

definition bf_digest :: "feature_hash \<Rightarrow> builtin_protocol_feature \<Rightarrow> digest_type" where
  "bf_digest H f = H (bf_description_digest f) (bf_dependencies f) (bf_codename f)"

section \<open>The set of recognized features\<close>

record protocol_feature_set =
  recognized :: "(digest_type, protocol_feature) tbl"
  recognized_builtin :: "digest_type option list"

definition empty_protocol_feature_set :: protocol_feature_set where
  "empty_protocol_feature_set = \<lparr>recognized = [], recognized_builtin = []\<rparr>"

datatype recognized_t = unrecognized | disabled | too_early | ready

definition is_recognized :: "digest_type \<Rightarrow> time_point \<Rightarrow> protocol_feature_set \<Rightarrow> recognized_t" where
  "is_recognized d now pfs =
     (case tbl_find (recognized pfs) d of None \<Rightarrow> unrecognized
      | Some f \<Rightarrow>
          if \<not> pf_enabled f then disabled
          else if sint now < sint (earliest_allowed_activation_time f) then too_early
          else ready)"

definition get_builtin_digest :: "builtin_protocol_feature_t \<Rightarrow> protocol_feature_set \<Rightarrow> digest_type option" where
  "get_builtin_digest c pfs =
     (let indx = feature_index c in
      if length (recognized_builtin pfs) \<le> indx then None
      else recognized_builtin pfs ! indx)"

definition get_protocol_feature :: "digest_type \<Rightarrow> protocol_feature_set \<Rightarrow> protocol_feature res" where
  "get_protocol_feature d pfs =
     (case tbl_find (recognized pfs) d of None \<Rightarrow> Inl protocol_feature_exception | Some f \<Rightarrow> Inr f)"

definition validate_dependencies :: "digest_type \<Rightarrow> (digest_type \<Rightarrow> bool) \<Rightarrow> protocol_feature_set \<Rightarrow> bool" where
  "validate_dependencies d validator pfs =
     (case tbl_find (recognized pfs) d of None \<Rightarrow> False
      | Some f \<Rightarrow> (\<forall>x \<in> dependencies f. validator x))"

definition make_default_builtin_protocol_feature ::
  "builtin_protocol_feature_t \<Rightarrow> (builtin_protocol_feature_t \<Rightarrow> digest_type) \<Rightarrow> builtin_protocol_feature" where
  "make_default_builtin_protocol_feature c handle_dependency =
     (let spec = builtin_protocol_feature_codenames c in
      \<lparr>bf_description_digest = spec_description_digest spec,
       bf_dependencies = handle_dependency ` builtin_dependencies spec,
       bf_subjective_restrictions = spec_subjective_restrictions spec,
       bf_codename = c\<rparr>)"

text \<open>The built-in features that the dependencies of \<open>f\<close> cover.\<close>

definition satisfied_builtin_dependencies ::
  "builtin_protocol_feature \<Rightarrow> protocol_feature_set \<Rightarrow> builtin_protocol_feature_t set" where
  "satisfied_builtin_dependencies f pfs =
     {c \<in> builtin_dependencies (builtin_protocol_feature_codenames (bf_codename f)).
        \<exists>d \<in> bf_dependencies f. \<exists>pf. tbl_find (recognized pfs) d = Some pf \<and> builtin_feature pf = Some c}"

text \<open>The loop that fills the vector of built-in features with \<open>end()\<close> up to an index.\<close>

definition grow_to :: "nat \<Rightarrow> 'a \<Rightarrow> 'a list \<Rightarrow> 'a list" where
  "grow_to indx x xs = (if length xs \<le> indx then xs @ replicate (indx + 1 - length xs) x else xs)"

definition add_feature ::
  "feature_hash \<Rightarrow> builtin_protocol_feature \<Rightarrow> protocol_feature_set \<Rightarrow> (protocol_feature_set \<times> protocol_feature) res" where
  "add_feature H f pfs =
     (let indx = feature_index (bf_codename f) in
     INE_ASSERT (indx < length (recognized_builtin pfs) \<longrightarrow> recognized_builtin pfs ! indx = None) protocol_feature_exception
     (let digest = bf_digest H f;
          expected = builtin_dependencies (builtin_protocol_feature_codenames (bf_codename f)) in
     INE_ASSERT (\<forall>d \<in> bf_dependencies f. tbl_find (recognized pfs) d \<noteq> None) protocol_feature_exception
     (INE_ASSERT (card expected \<le> card (satisfied_builtin_dependencies f pfs)) protocol_feature_validation_exception
     (let pf = \<lparr>feature_digest = digest, description_digest = bf_description_digest f,
                dependencies = bf_dependencies f,
                earliest_allowed_activation_time =
                  sr_earliest_allowed_activation_time (bf_subjective_restrictions f),
                preactivation_required = sr_preactivation_required (bf_subjective_restrictions f),
                pf_enabled = sr_enabled (bf_subjective_restrictions f),
                builtin_feature = Some (bf_codename f)\<rparr> in
     INE_ASSERT (tbl_find (recognized pfs) digest = None) protocol_feature_exception
     (Inr (\<lparr>recognized = recognized pfs @ [(digest, pf)],
            recognized_builtin = (grow_to indx None (recognized_builtin pfs))[indx := Some digest]\<rparr>, pf))))))"

section \<open>The manager\<close>

definition not_active :: u32 where
  "not_active = - 1"

record builtin_protocol_feature_entry =
  previous_entry :: "nat option"
  builtin_activation_block_num :: u32

definition inactive_entry :: builtin_protocol_feature_entry where
  "inactive_entry = \<lparr>previous_entry = None, builtin_activation_block_num = not_active\<rparr>"

record protocol_feature_entry =
  entry_feature :: digest_type
  activation_block_num :: u32

record protocol_feature_manager =
  pfm_set :: protocol_feature_set
  activated :: "protocol_feature_entry list"
  builtin_entries :: "builtin_protocol_feature_entry list"
  head_of_builtin_activation_list :: "nat option"
  initialized :: bool

definition new_protocol_feature_manager :: "protocol_feature_set \<Rightarrow> protocol_feature_manager" where
  "new_protocol_feature_manager pfs =
     \<lparr>pfm_set = pfs, activated = [],
      builtin_entries = replicate (length (recognized_builtin pfs)) inactive_entry,
      head_of_builtin_activation_list = None, initialized = False\<rparr>"

definition is_builtin_activated :: "builtin_protocol_feature_t \<Rightarrow> u32 \<Rightarrow> protocol_feature_manager \<Rightarrow> bool" where
  "is_builtin_activated c current_block_num pfm =
     (let indx = feature_index c in
      if length (builtin_entries pfm) \<le> indx then False
      else builtin_activation_block_num (builtin_entries pfm ! indx) \<le> current_block_num)"

definition activate_feature :: "digest_type \<Rightarrow> u32 \<Rightarrow> protocol_feature_manager \<Rightarrow> protocol_feature_manager res" where
  "activate_feature d current_block_num pfm =
     INE_ASSERT (initialized pfm) protocol_feature_exception
     (case tbl_find (recognized (pfm_set pfm)) d of None \<Rightarrow> Inl protocol_feature_exception
      | Some f \<Rightarrow>
     INE_ASSERT (activated pfm \<noteq> [] \<longrightarrow> activation_block_num (last (activated pfm)) \<le> current_block_num)
       protocol_feature_exception
     (case builtin_feature f of None \<Rightarrow> Inl protocol_feature_exception
      | Some c \<Rightarrow>
     (let indx = feature_index c in
     INE_ASSERT (indx < length (builtin_entries pfm)) protocol_feature_exception
     (INE_ASSERT (builtin_activation_block_num (builtin_entries pfm ! indx) = not_active) protocol_feature_exception
     (Inr (pfm\<lparr>activated := activated pfm @ [\<lparr>entry_feature = d, activation_block_num = current_block_num\<rparr>],
               builtin_entries := (builtin_entries pfm)
                 [indx := \<lparr>previous_entry = head_of_builtin_activation_list pfm,
                           builtin_activation_block_num = current_block_num\<rparr>],
               head_of_builtin_activation_list := Some indx\<rparr>))))))"

text \<open>
  \<open>init\<close> replays the activations stored in the chain state's \<open>protocol_state_object\<close>. When it
  throws, the scoped exit resets \<open>_initialized\<close>; the exception leaves with no state here.
\<close>

definition pfm_init :: "(digest_type \<times> u32) list \<Rightarrow> protocol_feature_manager \<Rightarrow> protocol_feature_manager res" where
  "pfm_init stored pfm =
     INE_ASSERT (\<not> initialized pfm) protocol_feature_exception
     (res_fold (\<lambda>(d, b). activate_feature d b) stored (pfm\<lparr>initialized := True\<rparr>))"

definition linked_entries :: "builtin_protocol_feature_entry list \<Rightarrow> nat" where
  "linked_entries es = length (filter (\<lambda>e. previous_entry e \<noteq> None) es)"

lemma linked_entries_inactive:
  "i < length es \<Longrightarrow> linked_entries (es[i := inactive_entry])
     = linked_entries es - (if previous_entry (es ! i) \<noteq> None then 1 else 0)"
  and linked_entries_pos: "i < length es \<Longrightarrow> previous_entry (es ! i) \<noteq> None \<Longrightarrow> 0 < linked_entries es"
proof (induction es arbitrary: i)
  case (Cons e es)
  {
    case 1
    then show ?case
      using Cons.IH by (cases i) (auto simp: linked_entries_def inactive_entry_def)
  next
    case 2
    then show ?case using Cons.IH by (cases i) (auto simp: linked_entries_def)
  }
qed auto

text \<open>
  The first loop of \<open>popped_blocks_to\<close>: it walks the list of built-in activations from its head
  and unlinks every entry above the block. Reading past the vector would be undefined.
\<close>

function pop_builtin_entries ::
  "u32 \<Rightarrow> nat option \<Rightarrow> builtin_protocol_feature_entry list
   \<Rightarrow> (nat option \<times> builtin_protocol_feature_entry list) res" where
  "pop_builtin_entries block_num hd_list es =
     (case hd_list of None \<Rightarrow> Inr (None, es)
      | Some i \<Rightarrow>
          if length es \<le> i then Inl undefined_behaviour
          else if builtin_activation_block_num (es ! i) \<le> block_num then Inr (Some i, es)
          else pop_builtin_entries block_num (previous_entry (es ! i)) (es[i := inactive_entry]))"
  by pat_completeness auto

termination
  by (relation "measure (\<lambda>(b, h, es). linked_entries es + (if h = None then 0 else 1))")
    (use linked_entries_pos in \<open>auto simp: linked_entries_inactive not_le\<close>)

declare pop_builtin_entries.simps [simp del]

definition popped_blocks_to :: "u32 \<Rightarrow> protocol_feature_manager \<Rightarrow> protocol_feature_manager res" where
  "popped_blocks_to block_num pfm =
     INE_ASSERT (initialized pfm) protocol_feature_exception
     (res_bind (pop_builtin_entries block_num (head_of_builtin_activation_list pfm) (builtin_entries pfm))
       (\<lambda>(h, es).
     Inr (pfm\<lparr>head_of_builtin_activation_list := h, builtin_entries := es,
              activated := rev (dropWhile (\<lambda>e. block_num < activation_block_num e) (rev (activated pfm)))\<rparr>)))"

text \<open>
  The iterator over the activated features: singular (no manager), at an index, or at the end
  (\<open>end_index\<close>).
\<close>

datatype pfm_iterator = singular_iterator | at_index nat | at_end

definition pfm_cbegin :: "protocol_feature_manager \<Rightarrow> pfm_iterator" where
  "pfm_cbegin pfm = (if length (activated pfm) = 0 then at_end else at_index 0)"

definition at_activation_ordinal :: "nat \<Rightarrow> protocol_feature_manager \<Rightarrow> pfm_iterator" where
  "at_activation_ordinal n pfm = (if length (activated pfm) \<le> n then at_end else at_index n)"

text \<open>
  \<open>std::lower_bound\<close> and \<open>std::upper_bound\<close> on the activations, which are sorted by block: the
  partition point of the predicate.
\<close>

definition pfm_lower_bound :: "u32 \<Rightarrow> protocol_feature_manager \<Rightarrow> pfm_iterator" where
  "pfm_lower_bound block_num pfm =
     at_activation_ordinal (length (takeWhile (\<lambda>e. activation_block_num e < block_num) (activated pfm))) pfm"

definition pfm_upper_bound :: "u32 \<Rightarrow> protocol_feature_manager \<Rightarrow> pfm_iterator" where
  "pfm_upper_bound block_num pfm =
     at_activation_ordinal (length (takeWhile (\<lambda>e. \<not> block_num < activation_block_num e) (activated pfm))) pfm"

fun iterator_activation_ordinal :: "pfm_iterator \<Rightarrow> nat res" where
  "iterator_activation_ordinal singular_iterator = Inl protocol_feature_iterator_exception"
| "iterator_activation_ordinal at_end = Inl protocol_feature_iterator_exception"
| "iterator_activation_ordinal (at_index i) = Inr i"

fun iterator_activation_block_num :: "protocol_feature_manager \<Rightarrow> pfm_iterator \<Rightarrow> u32 res" where
  "iterator_activation_block_num pfm singular_iterator = Inl protocol_feature_iterator_exception"
| "iterator_activation_block_num pfm at_end = Inl protocol_feature_iterator_exception"
| "iterator_activation_block_num pfm (at_index i) =
     (if i < length (activated pfm) then Inr (activation_block_num (activated pfm ! i))
      else Inl undefined_behaviour)"

fun iterator_next :: "protocol_feature_manager \<Rightarrow> pfm_iterator \<Rightarrow> pfm_iterator res" where
  "iterator_next pfm singular_iterator = Inl protocol_feature_iterator_exception"
| "iterator_next pfm at_end = Inl protocol_feature_iterator_exception"
| "iterator_next pfm (at_index i) =
     Inr (if length (activated pfm) \<le> Suc i then at_end else at_index (Suc i))"

fun iterator_prev :: "protocol_feature_manager \<Rightarrow> pfm_iterator \<Rightarrow> pfm_iterator res" where
  "iterator_prev pfm singular_iterator = Inl protocol_feature_iterator_exception"
| "iterator_prev pfm at_end =
     INE_ASSERT (0 < length (activated pfm)) protocol_feature_iterator_exception
       (Inr (at_index (length (activated pfm) - 1)))"
| "iterator_prev pfm (at_index i) =
     INE_ASSERT (0 < i) protocol_feature_iterator_exception (Inr (at_index (i - 1)))"

section \<open>The recognized set is consistent\<close>

lemma feature_index_inj [simp]: "feature_index a = feature_index b \<longleftrightarrow> a = b"
  by (cases a; cases b) simp_all

text \<open>
  Slot \<open>c\<close> of the vector of built-in features names a digest exactly when the feature recorded
  under that digest is the built-in feature \<open>c\<close>, and every dependency is recorded.
\<close>

definition pfs_ok :: "protocol_feature_set \<Rightarrow> bool" where
  "pfs_ok pfs \<longleftrightarrow>
     (\<forall>c d. get_builtin_digest c pfs = Some d
        \<longleftrightarrow> (\<exists>pf. tbl_find (recognized pfs) d = Some pf \<and> builtin_feature pf = Some c))
     \<and> (\<forall>d pf. tbl_find (recognized pfs) d = Some pf \<longrightarrow>
           feature_digest pf = d \<and> (\<forall>x \<in> dependencies pf. tbl_find (recognized pfs) x \<noteq> None)
           \<and> (\<forall>c. builtin_feature pf = Some c \<longrightarrow> feature_index c < length (recognized_builtin pfs)))"

lemma grow_to_nth:
  "j < length (grow_to i x xs) \<Longrightarrow> grow_to i x xs ! j = (if j < length xs then xs ! j else x)"
  by (auto simp: grow_to_def nth_append split: if_splits)

lemma length_grow_to [simp]: "length (grow_to i x xs) = max (length xs) (Suc i)"
  by (simp add: grow_to_def)

lemma get_builtin_digest_add:
  "get_builtin_digest c (pfs\<lparr>recognized := r,
      recognized_builtin := (grow_to (feature_index c') None (recognized_builtin pfs))[feature_index c' := Some d]\<rparr>)
   = (if c = c' then Some d else get_builtin_digest c pfs)"
  by (auto simp: get_builtin_digest_def Let_def nth_list_update grow_to_nth)

lemma empty_protocol_feature_set_ok: "pfs_ok empty_protocol_feature_set"
  by (simp add: pfs_ok_def empty_protocol_feature_set_def get_builtin_digest_def tbl_find_def)

text \<open>What a successful \<open>add_feature\<close> has checked and changed.\<close>

lemma add_feature_Inr:
  assumes "add_feature H f pfs = Inr (pfs', pf)"
  shows "get_builtin_digest (bf_codename f) pfs = None"
    and "\<forall>d \<in> bf_dependencies f. tbl_find (recognized pfs) d \<noteq> None"
    and "card (builtin_dependencies (builtin_protocol_feature_codenames (bf_codename f)))
      \<le> card (satisfied_builtin_dependencies f pfs)"
    and "tbl_find (recognized pfs) (bf_digest H f) = None"
    and "feature_digest pf = bf_digest H f" "dependencies pf = bf_dependencies f"
      "builtin_feature pf = Some (bf_codename f)"
    and "tbl_find (recognized pfs') d = (if d = bf_digest H f then Some pf else tbl_find (recognized pfs) d)"
    and "get_builtin_digest c pfs' = (if c = bf_codename f then Some (bf_digest H f) else get_builtin_digest c pfs)"
    and "length (recognized_builtin pfs') = max (length (recognized_builtin pfs)) (Suc (feature_index (bf_codename f)))"
proof -
  let ?c = "bf_codename f" and ?d = "bf_digest H f"
  from assms have
      free: "feature_index ?c < length (recognized_builtin pfs) \<longrightarrow> recognized_builtin pfs ! feature_index ?c = None"
    and new: "tbl_find (recognized pfs) ?d = None"
    and pfs': "pfs' = pfs\<lparr>recognized := recognized pfs @ [(?d, pf)],
        recognized_builtin := (grow_to (feature_index ?c) None (recognized_builtin pfs))[feature_index ?c := Some ?d]\<rparr>"
    by (auto simp: add_feature_def Let_def split: if_splits)
  show "get_builtin_digest ?c pfs = None" using free by (simp add: get_builtin_digest_def Let_def)
  show "tbl_find (recognized pfs') d = (if d = ?d then Some pf else tbl_find (recognized pfs) d)"
    using new by (auto simp: pfs' tbl_find_def map_add_def split: option.splits)
  show "get_builtin_digest c pfs' = (if c = ?c then Some ?d else get_builtin_digest c pfs)"
    unfolding pfs' by (rule get_builtin_digest_add)
  show "length (recognized_builtin pfs') = max (length (recognized_builtin pfs)) (Suc (feature_index ?c))"
    by (simp add: pfs')
qed (use assms in \<open>auto simp: add_feature_def Let_def split: if_splits\<close>)

lemma add_feature_ok:
  assumes "pfs_ok pfs" and "add_feature H f pfs = Inr (pfs', pf)"
  shows "pfs_ok pfs'"
  unfolding pfs_ok_def
proof (intro conjI allI impI)
  note add = add_feature_Inr [OF assms(2)]
  fix c d
  have "get_builtin_digest c pfs = Some d
      \<longleftrightarrow> (\<exists>pf. tbl_find (recognized pfs) d = Some pf \<and> builtin_feature pf = Some c)"
    using assms(1) unfolding pfs_ok_def by blast
  then show "get_builtin_digest c pfs' = Some d
      \<longleftrightarrow> (\<exists>pf. tbl_find (recognized pfs') d = Some pf \<and> builtin_feature pf = Some c)"
    using add(1,4,7) unfolding add(8,9) by (cases "c = bf_codename f"; cases "d = bf_digest H f") auto
next
  note add = add_feature_Inr [OF assms(2)]
  fix d g
  assume g: "tbl_find (recognized pfs') d = Some g"
  show "feature_digest g = d"
    using assms(1) g add(5) unfolding add(8) pfs_ok_def by (auto split: if_splits)
  show "\<forall>x \<in> dependencies g. tbl_find (recognized pfs') x \<noteq> None"
    using assms(1) g add(2,6) unfolding add(8) pfs_ok_def by (auto split: if_splits)
  fix c
  assume "builtin_feature g = Some c"
  then show "feature_index c < length (recognized_builtin pfs')"
    using assms(1) g add(7) unfolding add(8,10) pfs_ok_def by (auto simp: less_max_iff_disj split: if_splits)
qed

text \<open>
  C25. Recognizing a feature keeps the recognized set consistent: when \<open>add_feature\<close> succeeds,
  the vector of built-in features still mirrors the set of features, the new feature is found
  under its digest and under its code name, nothing recognized before changes, and a feature
  whose code name is already taken or that misses one of its built-in dependencies is refused.
\<close>

theorem add_feature_consistent:
  assumes "pfs_ok pfs" and "add_feature H f pfs = Inr (pfs', pf)"
  shows "pfs_ok pfs'
    \<and> get_builtin_digest (bf_codename f) pfs = None
    \<and> get_builtin_digest (bf_codename f) pfs' = Some (bf_digest H f)
    \<and> (\<forall>d. tbl_find (recognized pfs') d = (if d = bf_digest H f then Some pf else tbl_find (recognized pfs) d))
    \<and> (\<forall>c. c \<noteq> bf_codename f \<longrightarrow> get_builtin_digest c pfs' = get_builtin_digest c pfs)
    \<and> (\<forall>c \<in> builtin_dependencies (builtin_protocol_feature_codenames (bf_codename f)).
         \<exists>d \<in> bf_dependencies f. get_builtin_digest c pfs = Some d)"
proof -
  let ?exp = "builtin_dependencies (builtin_protocol_feature_codenames (bf_codename f))"
  note add = add_feature_Inr [OF assms(2)]
  have "finite ?exp" by (cases "bf_codename f") (simp_all add: feature_spec_def)
  moreover have "satisfied_builtin_dependencies f pfs \<subseteq> ?exp"
    by (auto simp: satisfied_builtin_dependencies_def)
  ultimately have "satisfied_builtin_dependencies f pfs = ?exp"
    using add(3) by (simp add: card_seteq)
  then have "\<exists>d \<in> bf_dependencies f. get_builtin_digest c pfs = Some d" if "c \<in> ?exp" for c
    using that assms(1) unfolding satisfied_builtin_dependencies_def pfs_ok_def by blast
  then show ?thesis
    using add(1,8,9) add_feature_ok [OF assms] by simp
qed

definition example_pf_hash :: feature_hash where
  "example_pf_hash d deps c = sha256 (of_nat (feature_index c)) 0 0 (hash0 d)"

definition example_builtin :: "builtin_protocol_feature_t \<Rightarrow> digest_type set \<Rightarrow> builtin_protocol_feature" where
  "example_builtin c deps = (make_default_builtin_protocol_feature c (\<lambda>_. zero_digest))\<lparr>bf_dependencies := deps\<rparr>"

theorem add_feature_consistent_witness:
  "\<exists>pfs' pf. add_feature example_pf_hash (example_builtin webauthn_key {}) empty_protocol_feature_set = Inr (pfs', pf)
     \<and> pfs_ok pfs' \<and> get_builtin_digest webauthn_key pfs' = Some (feature_digest pf)"
proof -
  obtain pfs' pf where
      run: "add_feature example_pf_hash (example_builtin webauthn_key {}) empty_protocol_feature_set = Inr (pfs', pf)"
    and d: "feature_digest pf = bf_digest example_pf_hash (example_builtin webauthn_key {})"
    by (simp add: add_feature_def example_builtin_def empty_protocol_feature_set_def tbl_find_def
        make_default_builtin_protocol_feature_def feature_spec_def Let_def)
  show ?thesis
    using run d add_feature_consistent [OF empty_protocol_feature_set_ok run]
    by (simp add: example_builtin_def make_default_builtin_protocol_feature_def Let_def)
qed

section \<open>Activations and fork switches\<close>

text \<open>
  What the manager's linked list represents: the activations in order, as pairs of the slot of
  the built-in feature and the block. \<open>link_act\<close> is the update that one activation makes.
\<close>

type_synonym act = "nat \<times> u32"

fun link_act :: "act \<Rightarrow> nat option \<times> builtin_protocol_feature_entry list
    \<Rightarrow> nat option \<times> builtin_protocol_feature_entry list" where
  "link_act (i, b) (h, es) = (Some i, es[i := \<lparr>previous_entry = h, builtin_activation_block_num = b\<rparr>])"

definition links :: "nat \<Rightarrow> act list \<Rightarrow> nat option \<times> builtin_protocol_feature_entry list" where
  "links n acts = fold link_act acts (None, replicate n inactive_entry)"

text \<open>Each slot is activated once, within the vector, at a real block, in block order.\<close>

definition acts_ok :: "nat \<Rightarrow> act list \<Rightarrow> bool" where
  "acts_ok n acts \<longleftrightarrow> distinct (map fst acts) \<and> sorted (map snd acts)
     \<and> (\<forall>(i, b) \<in> set acts. i < n \<and> b \<noteq> not_active)"

lemma links_snoc: "links n (acts @ [a]) = link_act a (links n acts)"
  by (simp add: links_def)

lemma length_links [simp]: "length (snd (links n acts)) = n"
proof (induction acts rule: rev_induct)
  case Nil
  then show ?case by (simp add: links_def)
next
  case (snoc a acts)
  then show ?case by (cases "links n acts"; cases a) (simp add: links_snoc)
qed

lemma links_slot:
  "acts_ok n acts \<Longrightarrow> i < n \<Longrightarrow>
     builtin_activation_block_num (snd (links n acts) ! i) = (case map_of acts i of None \<Rightarrow> not_active | Some b \<Rightarrow> b)"
  and links_free: "acts_ok n acts \<Longrightarrow> i < n \<Longrightarrow> i \<notin> fst ` set acts \<Longrightarrow> snd (links n acts) ! i = inactive_entry"
proof (induction acts rule: rev_induct)
  case Nil
  {
    case 1
    then show ?case by (simp add: links_def inactive_entry_def)
  next
    case 2
    then show ?case by (simp add: links_def)
  }
next
  case (snoc a acts)
  obtain k b where a: "a = (k, b)" by (cases a)
  obtain h es where L: "links n acts = (h, es)" by (cases "links n acts")
  have len: "length es = n" using length_links [of n acts] by (simp add: L)
  {
    case 1
    then have ok: "acts_ok n acts" and "k \<notin> fst ` set acts" by (auto simp: acts_ok_def a sorted_append)
    then have "map_of acts k = None" by (simp add: map_of_eq_None_iff)
    then show ?case
      using snoc.IH(1) [OF ok 1(2)] 1(2) len
      by (cases "i = k"; cases "map_of acts i") (simp_all add: links_snoc a L nth_list_update map_add_def)
  next
    case 2
    then have "acts_ok n acts" by (auto simp: acts_ok_def sorted_append)
    then show ?case
      using snoc.IH(2) 2 len by (auto simp: links_snoc a L nth_list_update)
  }
qed

text \<open>The loop of \<open>popped_blocks_to\<close> undoes exactly the activations above the block.\<close>

lemma pop_builtin_entries_links:
  "acts_ok n acts \<Longrightarrow>
   pop_builtin_entries block_num (fst (links n acts)) (snd (links n acts))
     = Inr (links n (filter (\<lambda>a. snd a \<le> block_num) acts))"
proof (induction acts rule: rev_induct)
  case Nil
  then show ?case by (simp add: links_def pop_builtin_entries.simps)
next
  case (snoc a acts)
  obtain k b where a: "a = (k, b)" by (cases a)
  obtain h es where L: "links n acts = (h, es)" by (cases "links n acts")
  have len: "length es = n" using length_links [of n acts] by (simp add: L)
  have ok: "acts_ok n acts" and k: "k < n" "k \<notin> fst ` set acts"
    and le: "\<forall>x \<in> set acts. snd x \<le> b"
    using snoc.prems by (auto simp: acts_ok_def a sorted_append)
  show ?case
  proof (cases "b \<le> block_num")
    case True
    then have "filter (\<lambda>a. snd a \<le> block_num) (acts @ [a]) = acts @ [a]"
      using le by (auto simp: a filter_id_conv intro: order_trans)
    then show ?thesis
      using True len k by (simp add: pop_builtin_entries.simps links_snoc a L)
  next
    case False
    have "es ! k = inactive_entry" using links_free [OF ok k] by (simp add: L)
    then have "es[k := inactive_entry] = es" by (metis list_update_id)
    then show ?thesis
      using False len k snoc.IH [OF ok] by (simp add: pop_builtin_entries.simps [of _ "Some k"] links_snoc a L)
  qed
qed

text \<open>
  The manager that a history of activations \<open>fs\<close> (feature digest and block) stands for, and
  when such a history is one the code accepts.
\<close>

definition slot_of :: "protocol_feature_set \<Rightarrow> digest_type \<Rightarrow> nat option" where
  "slot_of pfs d = Option.bind (tbl_find (recognized pfs) d) (\<lambda>f. map_option feature_index (builtin_feature f))"

definition acts_of :: "protocol_feature_set \<Rightarrow> (digest_type \<times> u32) list \<Rightarrow> act list" where
  "acts_of pfs fs = map (\<lambda>(d, b). (the (slot_of pfs d), b)) fs"

definition pfm_of :: "protocol_feature_set \<Rightarrow> (digest_type \<times> u32) list \<Rightarrow> protocol_feature_manager" where
  "pfm_of pfs fs =
     (let (h, es) = links (length (recognized_builtin pfs)) (acts_of pfs fs) in
      \<lparr>pfm_set = pfs,
       activated = map (\<lambda>(d, b). \<lparr>entry_feature = d, activation_block_num = b\<rparr>) fs,
       builtin_entries = es, head_of_builtin_activation_list = h, initialized = True\<rparr>)"

definition history_ok :: "protocol_feature_set \<Rightarrow> (digest_type \<times> u32) list \<Rightarrow> bool" where
  "history_ok pfs fs \<longleftrightarrow> (\<forall>(d, b) \<in> set fs. slot_of pfs d \<noteq> None)
     \<and> acts_ok (length (recognized_builtin pfs)) (acts_of pfs fs)"

lemma acts_of_eq_Nil [simp]: "acts_of pfs fs = [] \<longleftrightarrow> fs = []"
  by (simp add: acts_of_def)

lemma acts_ok_snoc:
  "acts_ok n (acts @ [(i, b)]) \<longleftrightarrow> acts_ok n acts \<and> i \<notin> fst ` set acts \<and> i < n \<and> b \<noteq> not_active
     \<and> (acts \<noteq> [] \<longrightarrow> snd (last acts) \<le> b)"
proof -
  have "(\<forall>x \<in> set acts. snd x \<le> b) \<longleftrightarrow> (acts \<noteq> [] \<longrightarrow> snd (last acts) \<le> b)" if "sorted (map snd acts)"
    using that by (induction acts rule: rev_induct) (auto simp: sorted_append intro: order_trans)
  then show ?thesis by (auto simp: acts_ok_def sorted_append)
qed

lemma activated_pfm_of:
  "fs \<noteq> [] \<Longrightarrow> activation_block_num (last (activated (pfm_of pfs fs))) = snd (last (acts_of pfs fs))"
  by (cases fs rule: rev_cases) (auto simp: pfm_of_def acts_of_def split: prod.splits)

lemma activate_feature_pfm_of:
  assumes "history_ok pfs fs" and "b \<noteq> not_active"
  shows "activate_feature d b (pfm_of pfs fs)
    = (if history_ok pfs (fs @ [(d, b)]) then Inr (pfm_of pfs (fs @ [(d, b)])) else Inl protocol_feature_exception)"
proof (cases "slot_of pfs d")
  case None
  then have "\<not> history_ok pfs (fs @ [(d, b)])" by (auto simp: history_ok_def)
  then show ?thesis
    using None by (auto simp: activate_feature_def pfm_of_def slot_of_def split: prod.splits option.splits bind_splits)
next
  case (Some i)
  let ?n = "length (recognized_builtin pfs)" and ?acts = "acts_of pfs fs"
  obtain f c where f: "tbl_find (recognized pfs) d = Some f" "builtin_feature f = Some c" "i = feature_index c"
    using Some by (auto simp: slot_of_def bind_eq_Some_conv)
  obtain h es where L: "links ?n ?acts = (h, es)" by (cases "links ?n ?acts")
  have ok: "acts_ok ?n ?acts" using assms(1) by (simp add: history_ok_def)
  have len: "length es = ?n" using length_links [of ?n ?acts] by (simp add: L)
  have snoc: "acts_of pfs (fs @ [(d, b)]) = ?acts @ [(i, b)]" by (simp add: acts_of_def Some)
  have hist: "history_ok pfs (fs @ [(d, b)]) \<longleftrightarrow> acts_ok ?n (?acts @ [(i, b)])"
    using assms(1) by (auto simp: history_ok_def snoc Some simp del: not_None_eq)
  have slot: "builtin_activation_block_num (es ! i) = not_active \<longleftrightarrow> i \<notin> fst ` set ?acts" if "i < ?n"
  proof -
    have "builtin_activation_block_num (es ! i) = (case map_of ?acts i of None \<Rightarrow> not_active | Some b \<Rightarrow> b)"
      using links_slot [OF ok that] by (simp add: L)
    moreover have "v \<noteq> not_active" if "map_of ?acts i = Some v" for v
      using ok map_of_SomeD [OF that] by (auto simp: acts_ok_def)
    ultimately show ?thesis by (cases "map_of ?acts i") (auto simp: map_of_eq_None_iff [symmetric])
  qed
  have new: "links ?n (?acts @ [(i, b)]) = (Some i, es[i := \<lparr>previous_entry = h, builtin_activation_block_num = b\<rparr>])"
    by (simp add: links_snoc L)
  have lst: "(fs \<noteq> [] \<longrightarrow> activation_block_num (last (activated (pfm_of pfs fs))) \<le> b)
      \<longleftrightarrow> (?acts \<noteq> [] \<longrightarrow> snd (last ?acts) \<le> b)"
    using activated_pfm_of [of fs pfs] by auto
  show ?thesis
    unfolding hist acts_ok_snoc
    using ok assms(2) slot len lst new snoc f L
    by (auto simp: activate_feature_def pfm_of_def Let_def)
qed

lemma acts_of_filter:
  "acts_of pfs (filter (\<lambda>x. Q (snd x)) fs) = filter (\<lambda>x. Q (snd x)) (acts_of pfs fs)"
  by (induction fs) (auto simp: acts_of_def)

lemma acts_ok_filter: "acts_ok n acts \<Longrightarrow> acts_ok n (filter P acts)"
  by (auto simp: acts_ok_def distinct_map_filter sorted_filter)

lemma history_ok_filter: "history_ok pfs fs \<Longrightarrow> history_ok pfs (filter (\<lambda>x. Q (snd x)) fs)"
  by (auto simp: history_ok_def acts_of_filter acts_ok_filter)

lemma activate_all_iff:
  assumes "history_ok pfs fs0" and "\<forall>(d, b) \<in> set fs. b \<noteq> not_active"
  shows "res_fold (\<lambda>(d, b). activate_feature d b) fs (pfm_of pfs fs0) = Inr pfm
    \<longleftrightarrow> history_ok pfs (fs0 @ fs) \<and> pfm = pfm_of pfs (fs0 @ fs)"
  using assms
proof (induction fs arbitrary: fs0)
  case Nil
  then show ?case by auto
next
  case (Cons x fs)
  obtain d b where x: "x = (d, b)" by (cases x)
  have pre: "history_ok pfs (fs0 @ [(d, b)])" if "history_ok pfs (fs0 @ (d, b) # fs)"
    using that by (auto simp: history_ok_def acts_of_def acts_ok_def sorted_append)
  show ?case
    using Cons.IH [of "fs0 @ [(d, b)]"] Cons.prems pre
    by (auto simp: x activate_feature_pfm_of)
qed

lemma pfm_init_iff:
  assumes "\<forall>(d, b) \<in> set fs. b \<noteq> not_active"
  shows "pfm_init fs (new_protocol_feature_manager pfs) = Inr pfm \<longleftrightarrow> history_ok pfs fs \<and> pfm = pfm_of pfs fs"
proof -
  have "(new_protocol_feature_manager pfs)\<lparr>initialized := True\<rparr> = pfm_of pfs []"
    by (simp add: new_protocol_feature_manager_def pfm_of_def acts_of_def links_def)
  moreover have "history_ok pfs []" by (simp add: history_ok_def acts_of_def acts_ok_def)
  ultimately show ?thesis
    using activate_all_iff [OF _ assms, of pfs "[]" pfm]
    by (simp add: pfm_init_def new_protocol_feature_manager_def)
qed

lemma drop_above_sorted:
  "sorted (map g xs) \<Longrightarrow> rev (dropWhile (\<lambda>x. (n :: 'a::linorder) < g x) (rev xs)) = filter (\<lambda>x. g x \<le> n) xs"
proof (induction xs rule: rev_induct)
  case Nil
  then show ?case by simp
next
  case (snoc x xs)
  then have "\<forall>y \<in> set xs. g y \<le> g x" by (auto simp: sorted_append)
  then have "filter (\<lambda>y. g y \<le> n) xs = xs" if "g x \<le> n"
    using that by (auto simp: filter_id_conv intro: order_trans)
  then show ?case using snoc by (auto simp: sorted_append not_le)
qed

lemma popped_blocks_to_pfm_of:
  assumes "history_ok pfs fs"
  shows "popped_blocks_to n (pfm_of pfs fs) = Inr (pfm_of pfs (filter (\<lambda>x. snd x \<le> n) fs))"
proof -
  let ?m = "length (recognized_builtin pfs)" and ?P = "\<lambda>x. snd x \<le> n"
  let ?e = "\<lambda>(d, b). \<lparr>entry_feature = d, activation_block_num = b\<rparr>"
  obtain h es where L: "links ?m (acts_of pfs fs) = (h, es)" by (cases "links ?m (acts_of pfs fs)")
  have ok: "acts_ok ?m (acts_of pfs fs)" using assms by (simp add: history_ok_def)
  have g: "activation_block_num (?e x) = snd x" for x :: "digest_type \<times> u32" by (simp split: prod.splits)
  have "sorted (map snd fs)"
    using ok by (simp add: acts_ok_def acts_of_def comp_def case_prod_beta')
  then have "rev (dropWhile (\<lambda>e. n < activation_block_num e) (rev (map ?e fs))) = map ?e (filter ?P fs)"
    using drop_above_sorted [of activation_block_num "map ?e fs" n] by (simp add: comp_def g filter_map)
  then show ?thesis
    using pop_builtin_entries_links [OF ok, of n]
    by (simp add: popped_blocks_to_def pfm_of_def L acts_of_filter [where Q = "\<lambda>b. b \<le> n"] split: prod.splits)
qed

lemma is_builtin_activated_pfm_of:
  assumes "pfs_ok pfs" and "history_ok pfs fs" and "n \<noteq> not_active"
  shows "is_builtin_activated c n (pfm_of pfs fs)
    \<longleftrightarrow> (\<exists>d b. get_builtin_digest c pfs = Some d \<and> (d, b) \<in> set fs \<and> b \<le> n)"
proof -
  let ?m = "length (recognized_builtin pfs)" and ?acts = "acts_of pfs fs" and ?i = "feature_index c"
  have ok: "acts_ok ?m ?acts" using assms(2) by (simp add: history_ok_def)
  have slot: "get_builtin_digest c pfs = Some d \<longleftrightarrow> slot_of pfs d = Some ?i" for d
    using assms(1) unfolding pfs_ok_def slot_of_def by (auto simp: bind_eq_Some_conv)
  have mem: "(?i, b) \<in> set ?acts \<longleftrightarrow> (\<exists>d. get_builtin_digest c pfs = Some d \<and> (d, b) \<in> set fs)" for b
  proof
    assume "(?i, b) \<in> set ?acts"
    then obtain d where d: "(d, b) \<in> set fs" "?i = the (slot_of pfs d)" by (auto simp: acts_of_def)
    then have "slot_of pfs d = Some ?i" using assms(2) by (auto simp: history_ok_def)
    then show "\<exists>d. get_builtin_digest c pfs = Some d \<and> (d, b) \<in> set fs" using d(1) slot by blast
  next
    assume "\<exists>d. get_builtin_digest c pfs = Some d \<and> (d, b) \<in> set fs"
    then obtain d where "slot_of pfs d = Some ?i" "(d, b) \<in> set fs" using slot by blast
    then show "(?i, b) \<in> set ?acts" by (auto simp: acts_of_def intro: rev_image_eqI [of "(d, b)"])
  qed
  have na: "not_active \<le> n \<longleftrightarrow> False"
    using assms(3) by (simp add: not_active_def word_order.extremum_unique)
  obtain h es where L: "links ?m ?acts = (h, es)" by (cases "links ?m ?acts")
  have len: "length es = ?m" using length_links [of ?m ?acts] by (simp add: L)
  have "is_builtin_activated c n (pfm_of pfs fs) \<longleftrightarrow> (\<exists>b. (?i, b) \<in> set ?acts \<and> b \<le> n)"
  proof (cases "?i < ?m")
    case False
    then have "(?i, b) \<notin> set ?acts" for b using ok by (auto simp: acts_ok_def)
    then show ?thesis
      using False len by (simp add: is_builtin_activated_def pfm_of_def L Let_def)
  next
    case True
    have "is_builtin_activated c n (pfm_of pfs fs)
        \<longleftrightarrow> (case map_of ?acts ?i of None \<Rightarrow> not_active | Some b \<Rightarrow> b) \<le> n"
      using True links_slot [OF ok True] len by (simp add: is_builtin_activated_def pfm_of_def L Let_def)
    moreover have "(?i, b) \<in> set ?acts \<longleftrightarrow> map_of ?acts ?i = Some b" for b
      using ok by (simp add: acts_ok_def)
    ultimately show ?thesis by (cases "map_of ?acts ?i") (simp_all add: na)
  qed
  then show ?thesis using mem by blast
qed

text \<open>
  C16. Activations follow the chain through fork switches. A manager built from any accepted
  history of activations says that a built-in feature is active at block \<open>n\<close> exactly when the
  history activates its digest at \<open>n\<close> or before; and popping the chain back to block \<open>n\<close> leaves
  exactly the manager that the activations up to \<open>n\<close> alone would have built, without ever
  reading outside its vectors. (Block number \<open>2\<^sup>3\<^sup>2 - 1\<close> stands for "not active" in the code.)
\<close>

theorem activation_history_popped:
  assumes "pfs_ok pfs" and "pfm_init fs (new_protocol_feature_manager pfs) = Inr pfm"
    and "\<forall>(d, b) \<in> set fs. b \<noteq> not_active" and "n \<noteq> not_active"
  shows "(\<forall>c. is_builtin_activated c n pfm \<longleftrightarrow> (\<exists>d b. get_builtin_digest c pfs = Some d \<and> (d, b) \<in> set fs \<and> b \<le> n))
    \<and> (\<exists>pfm'. popped_blocks_to n pfm = Inr pfm'
         \<and> pfm_init (filter (\<lambda>x. snd x \<le> n) fs) (new_protocol_feature_manager pfs) = Inr pfm')"
proof -
  have hist: "history_ok pfs fs" and pfm: "pfm = pfm_of pfs fs"
    using assms(2) pfm_init_iff [OF assms(3)] by auto
  have "is_builtin_activated c n pfm \<longleftrightarrow> (\<exists>d b. get_builtin_digest c pfs = Some d \<and> (d, b) \<in> set fs \<and> b \<le> n)" for c
    using is_builtin_activated_pfm_of [OF assms(1) hist assms(4)] by (simp add: pfm)
  moreover have "\<forall>(d, b) \<in> set (filter (\<lambda>x. snd x \<le> n) fs). b \<noteq> not_active" using assms(3) by auto
  then have "pfm_init (filter (\<lambda>x. snd x \<le> n) fs) (new_protocol_feature_manager pfs)
      = Inr (pfm_of pfs (filter (\<lambda>x. snd x \<le> n) fs))"
    using pfm_init_iff history_ok_filter [OF hist, of "\<lambda>b. b \<le> n"] by blast
  ultimately show ?thesis
    using popped_blocks_to_pfm_of [OF hist] by (simp add: pfm)
qed

definition example_pfs :: protocol_feature_set where
  "example_pfs = fst (projr (add_feature example_pf_hash (example_builtin webauthn_key {}) empty_protocol_feature_set))"

lemma example_pfs_run:
  "add_feature example_pf_hash (example_builtin webauthn_key {}) empty_protocol_feature_set
     = Inr (example_pfs, snd (projr (add_feature example_pf_hash (example_builtin webauthn_key {}) empty_protocol_feature_set)))"
  by (simp add: example_pfs_def add_feature_def example_builtin_def empty_protocol_feature_set_def tbl_find_def
      make_default_builtin_protocol_feature_def feature_spec_def Let_def)

lemma example_pfs_ok: "pfs_ok example_pfs"
proof -
  have "pfs_ok pfs'" if "add_feature H f empty_protocol_feature_set = Inr (pfs', pf)" for H f pfs' pf
    using add_feature_ok [OF empty_protocol_feature_set_ok that] .
  then show ?thesis using example_pfs_run by blast
qed

theorem activation_history_popped_witness:
  "\<exists>pfm pfm'. pfm_init [(bf_digest example_pf_hash (example_builtin webauthn_key {}), 7)]
         (new_protocol_feature_manager example_pfs) = Inr pfm
     \<and> \<not> is_builtin_activated webauthn_key 5 pfm \<and> popped_blocks_to 5 pfm = Inr pfm'
     \<and> pfm_init [] (new_protocol_feature_manager example_pfs) = Inr pfm'"
proof -
  let ?d = "bf_digest example_pf_hash (example_builtin webauthn_key {})"
  obtain pfm where run: "pfm_init [(?d, 7)] (new_protocol_feature_manager example_pfs) = Inr pfm"
    by (simp add: pfm_init_def new_protocol_feature_manager_def activate_feature_def example_pfs_def
        add_feature_def example_builtin_def empty_protocol_feature_set_def tbl_find_def grow_to_def
        make_default_builtin_protocol_feature_def feature_spec_def inactive_entry_def Let_def)
  have "\<forall>(d, b) \<in> set [(?d, 7)]. b \<noteq> not_active" "(5 :: u32) \<noteq> not_active"
    by (simp_all add: not_active_def)
  note hist = activation_history_popped [OF example_pfs_ok run this]
  show ?thesis
    using run hist by auto
qed

end
