(* ===== verification/Authority.thy ===== *)
theory Authority
  imports Prelude "HOL-Library.List_Lexorder" "HOL-Library.Product_Lexorder"
begin

text \<open>
  Public keys and weighted authorities: \<open>fc/crypto/public_key\<close> (identity and order only; the
  elliptic-curve operations are not modelled), the weighted entries and \<open>validate\<close> of
  \<open>authority.hpp\<close>, and the block signing authorities and schedules of \<open>producer_schedule.hpp\<close>.
  The \<open>shared_\<close> variants of these types hold the same data in memory-mapped vectors and are
  not distinguished here.
\<close>

section \<open>Keys and signatures\<close>

text \<open>
  The alternatives of \<open>public_key::storage_type\<close>: the serialized curve point, and for WebAuthn
  also the user presence and the relying party.
\<close>

datatype public_key =
    K1 "u8 list"
  | R1 "u8 list"
  | WA "u8 list" u8 string

type_synonym public_key_type = public_key

text \<open>
  \<open>operator<\<close>: first the alternative, then the data (\<open>memcmp\<close>), then presence and relying party
  (both compared as unsigned bytes).
\<close>

fun pk_sort_key :: "public_key \<Rightarrow> nat \<times> nat list \<times> nat \<times> nat list" where
  "pk_sort_key (K1 d) = (0, map unat d, 0, [])"
| "pk_sort_key (R1 d) = (1, map unat d, 0, [])"
| "pk_sort_key (WA d p r) = (2, map unat d, unat p, map of_char r)"

lemma map_inj_eq: "inj f \<Longrightarrow> map f xs = map f ys \<longleftrightarrow> xs = ys"
  by (metis inj_map_eq_map)

lemma inj_unat: "inj (unat :: 'a::len word \<Rightarrow> nat)"
  by (simp add: inj_def word_unat_eq_iff)

lemma inj_of_char: "inj (of_char :: char \<Rightarrow> nat)"
  by (simp add: inj_def)

lemma pk_sort_key_inj [simp]: "pk_sort_key a = pk_sort_key b \<longleftrightarrow> a = b"
  by (cases a; cases b) (simp_all add: map_inj_eq inj_unat inj_of_char word_unat_eq_iff)

instantiation public_key :: linorder
begin

definition less_public_key :: "public_key \<Rightarrow> public_key \<Rightarrow> bool" where
  "less_public_key a b \<longleftrightarrow> pk_sort_key a < pk_sort_key b"

definition less_eq_public_key :: "public_key \<Rightarrow> public_key \<Rightarrow> bool" where
  "less_eq_public_key a b \<longleftrightarrow> pk_sort_key a \<le> pk_sort_key b"

instance
  by standard (auto simp: less_public_key_def less_eq_public_key_def simp flip: pk_sort_key_inj)

end

datatype signature =
    SIG_K1 "u8 list"
  | SIG_R1 "u8 list"
  | SIG_WA "u8 list" "u8 list" string

type_synonym signature_type = signature

section \<open>Authorities\<close>

type_synonym weight_type = u16

record permission_level =
  actor :: account_name
  permission :: permission_name

record permission_level_weight =
  plw_permission :: permission_level
  plw_weight :: weight_type

record key_weight =
  kw_key :: public_key_type
  kw_weight :: weight_type

record wait_weight =
  wait_sec :: u32
  ww_weight :: weight_type

record authority =
  threshold :: u32
  keys :: "key_weight list"
  accounts :: "permission_level_weight list"
  waits :: "wait_weight list"

text \<open>The constructor from one key or one permission level, with an optional delay.\<close>

definition authority_of_key :: "public_key_type \<Rightarrow> u32 \<Rightarrow> authority" where
  "authority_of_key k delay_sec =
     \<lparr>threshold = (if 0 < delay_sec then 2 else 1), keys = [\<lparr>kw_key = k, kw_weight = 1\<rparr>], accounts = [],
      waits = (if 0 < delay_sec then [\<lparr>wait_sec = delay_sec, ww_weight = 1\<rparr>] else [])\<rparr>"

definition authority_of_level :: "permission_level \<Rightarrow> u32 \<Rightarrow> authority" where
  "authority_of_level p delay_sec =
     \<lparr>threshold = (if 0 < delay_sec then 2 else 1), keys = [], accounts = [\<lparr>plw_permission = p, plw_weight = 1\<rparr>],
      waits = (if 0 < delay_sec then [\<lparr>wait_sec = delay_sec, ww_weight = 1\<rparr>] else [])\<rparr>"

text \<open>The order of permission levels: \<open>operator<\<close> ties actor and permission.\<close>

definition permission_level_less :: "permission_level \<Rightarrow> permission_level \<Rightarrow> bool" where
  "permission_level_less a b \<longleftrightarrow> (actor a, permission a) < (actor b, permission b)"

text \<open>
  One of the three loops of \<open>validate\<close>: \<open>prev\<close> is the previous entry, \<open>lt\<close> the required strict
  order; the result is \<open>None\<close> where the loop returns \<open>false\<close>, else the accumulated weight.
\<close>

fun validate_loop :: "('a \<Rightarrow> 'a \<Rightarrow> bool) \<Rightarrow> ('a \<Rightarrow> weight_type) \<Rightarrow> 'a option \<Rightarrow> 'a list \<Rightarrow> u32 \<Rightarrow> u32 option" where
  "validate_loop lt w prev [] total_weight = Some total_weight"
| "validate_loop lt w prev (x # xs) total_weight =
     (if prev \<noteq> None \<and> \<not> lt (the prev) x then None
      else validate_loop lt w (Some x) xs (total_weight + ucast (w x)))"

definition validate_authority :: "authority \<Rightarrow> bool" where
  "validate_authority auth =
     (if 2 ^ 16 < length (keys auth) + length (accounts auth) + length (waits auth) then False
      else if threshold auth = 0 then False
      else
        (case validate_loop (\<lambda>a b. kw_key a < kw_key b) kw_weight None (keys auth) 0 of
           None \<Rightarrow> False
         | Some t1 \<Rightarrow>
        (case validate_loop (\<lambda>a b. permission_level_less (plw_permission a) (plw_permission b))
                plw_weight None (accounts auth) t1 of
           None \<Rightarrow> False
         | Some t2 \<Rightarrow>
           if waits auth \<noteq> [] \<and> wait_sec (hd (waits auth)) = 0 then False
           else
        (case validate_loop (\<lambda>a b. wait_sec a < wait_sec b) ww_weight None (waits auth) t2 of
           None \<Rightarrow> False
         | Some t3 \<Rightarrow> threshold auth \<le> t3))))"

section \<open>Block signing authorities and schedules\<close>

record block_signing_authority =
  bsa_threshold :: u32
  bsa_keys :: "key_weight list"

text \<open>
  \<open>keys_satisfy_and_relevant\<close>: the loop over the keys with its saturating sum, which stops
  growing once the threshold is reached, and the count of the presented keys.
\<close>

fun satisfy_loop :: "u32 \<Rightarrow> public_key_type set \<Rightarrow> key_weight list \<Rightarrow> u32 \<Rightarrow> nat \<Rightarrow> u32 \<times> nat" where
  "satisfy_loop thr presented [] total_weight relevant = (total_weight, relevant)"
| "satisfy_loop thr presented (kw # kws) total_weight relevant =
     (if kw_key kw \<in> presented then
        satisfy_loop thr presented kws
          (if total_weight < thr then total_weight + min ((- 1) - total_weight) (ucast (kw_weight kw))
           else total_weight)
          (relevant + 1)
      else satisfy_loop thr presented kws total_weight relevant)"

definition keys_satisfy_and_relevant :: "public_key_type set \<Rightarrow> block_signing_authority \<Rightarrow> bool \<times> nat" where
  "keys_satisfy_and_relevant presented auth =
     (let (total_weight, relevant) = satisfy_loop (bsa_threshold auth) presented (bsa_keys auth) 0 0
      in (bsa_threshold auth \<le> total_weight, relevant))"

record producer_authority =
  producer_name :: account_name
  pa_authority :: block_signing_authority

record producer_authority_schedule =
  version :: u32
  producers :: "producer_authority list"

record producer_key =
  pk_producer_name :: account_name
  block_signing_key :: public_key_type

record legacy_producer_schedule =
  lps_version :: u32
  lps_producers :: "producer_key list"

definition empty_schedule :: producer_authority_schedule where
  "empty_schedule = \<lparr>version = 0, producers = []\<rparr>"

text \<open>The constructor that converts a legacy schedule: one key of weight and threshold 1 each.\<close>

definition schedule_of_legacy :: "legacy_producer_schedule \<Rightarrow> producer_authority_schedule" where
  "schedule_of_legacy old =
     \<lparr>version = lps_version old,
      producers = map (\<lambda>p. \<lparr>producer_name = pk_producer_name p,
         pa_authority = \<lparr>bsa_threshold = 1, bsa_keys = [\<lparr>kw_key = block_signing_key p, kw_weight = 1\<rparr>]\<rparr>\<rparr>)
        (lps_producers old)\<rparr>"

section \<open>Validation in exact arithmetic\<close>

abbreviation weights :: "('a \<Rightarrow> weight_type) \<Rightarrow> 'a list \<Rightarrow> nat" where
  "weights w xs \<equiv> sum_list (map (\<lambda>x. unat (w x)) xs)"

lemma weights_bound: "weights w xs \<le> length xs * (2 ^ 16 - 1)"
proof (induction xs)
  case (Cons x xs)
  then show ?case using unat_lt2p [of "w x"] by simp
qed simp

lemma validate_loop_eq:
  assumes "transp lt"
  shows "validate_loop lt w prev xs total_weight
    = (if sorted_wrt lt (case prev of None \<Rightarrow> xs | Some p \<Rightarrow> p # xs)
       then Some (total_weight + of_nat (weights w xs)) else None)"
  using assms
proof (induction xs arbitrary: prev total_weight)
  case Nil
  then show ?case by (simp split: option.splits)
next
  case (Cons x xs)
  have *: "sorted_wrt lt (p # x # xs) \<longleftrightarrow> lt p x \<and> sorted_wrt lt (x # xs)" for p
    using Cons.prems by (auto dest: transpD)
  show ?case
    using Cons.IH [OF Cons.prems, of "Some x"] * by (cases prev) (simp_all del: sorted_wrt.simps(2) add: add.assoc)
qed

lemma transp_validate_orders:
  "transp (\<lambda>a b. kw_key a < kw_key b)"
  "transp (\<lambda>a b. permission_level_less (plw_permission a) (plw_permission b))"
  "transp (\<lambda>a b. wait_sec a < wait_sec b)"
  by (auto intro!: transpI simp: permission_level_less_def less_prod_def split: if_splits dest: less_trans)

text \<open>
  C17. \<open>validate\<close> accepts exactly the satisfiable authorities in canonical form: at most \<open>2\<^sup>1\<^sup>6\<close> entries,
  a positive threshold, keys, permission levels and delays each strictly increasing (so without
  repetition) with no zero delay, and weights whose exact sum reaches the threshold: the 32-bit
  sum of the code never wraps. The order is the one that the comparisons of the code require
  (each entry below the next one); the two comments beside them, which call the order in force
  descending and an ascending one still to be done, do not describe it.
\<close>

theorem validate_authority_iff:
  "validate_authority auth \<longleftrightarrow>
     length (keys auth) + length (accounts auth) + length (waits auth) \<le> 2 ^ 16
     \<and> threshold auth \<noteq> 0
     \<and> sorted_wrt (<) (map kw_key (keys auth))
     \<and> sorted_wrt permission_level_less (map plw_permission (accounts auth))
     \<and> sorted_wrt (<) (map wait_sec (waits auth)) \<and> 0 \<notin> wait_sec ` set (waits auth)
     \<and> unat (threshold auth)
         \<le> weights kw_weight (keys auth) + weights plw_weight (accounts auth) + weights ww_weight (waits auth)"
proof -
  let ?W = "weights kw_weight (keys auth) + weights plw_weight (accounts auth) + weights ww_weight (waits auth)"
  have zero: "waits auth \<noteq> [] \<and> wait_sec (hd (waits auth)) = 0 \<longleftrightarrow> 0 \<in> wait_sec ` set (waits auth)"
    if "sorted_wrt (<) (map wait_sec (waits auth))"
    using that by (cases "waits auth") auto
  have le: "threshold auth \<le> of_nat ?W \<longleftrightarrow> unat (threshold auth) \<le> ?W"
    if "length (keys auth) + length (accounts auth) + length (waits auth) \<le> 2 ^ 16"
  proof -
    have "?W \<le> (length (keys auth) + length (accounts auth) + length (waits auth)) * (2 ^ 16 - 1)"
      using weights_bound [of kw_weight "keys auth"] weights_bound [of plw_weight "accounts auth"]
        weights_bound [of ww_weight "waits auth"] by (simp add: algebra_simps)
    also have "\<dots> \<le> 2 ^ 16 * (2 ^ 16 - 1)" using that by simp
    finally have "?W < 2 ^ LENGTH(32)" by simp
    then have "unat (of_nat ?W :: u32) = ?W" by (rule unat_word_of_nat_eq)
    then show ?thesis by (simp only: word_le_nat_alt)
  qed
  have maps: "sorted_wrt (<) (map kw_key (keys auth)) \<longleftrightarrow> sorted_wrt (\<lambda>a b. kw_key a < kw_key b) (keys auth)"
    "sorted_wrt permission_level_less (map plw_permission (accounts auth))
      \<longleftrightarrow> sorted_wrt (\<lambda>a b. permission_level_less (plw_permission a) (plw_permission b)) (accounts auth)"
    "sorted_wrt (<) (map wait_sec (waits auth)) \<longleftrightarrow> sorted_wrt (\<lambda>a b. wait_sec a < wait_sec b) (waits auth)"
    by (simp_all add: sorted_wrt_map)
  show ?thesis
    using zero le unfolding validate_authority_def maps
    by (auto simp: validate_loop_eq transp_validate_orders not_less add.assoc)
qed

section \<open>Satisfaction in exact arithmetic\<close>

lemma saturating_step:
  fixes tw :: u32
  shows "unat (tw + min ((- 1) - tw) w) = min (2 ^ 32 - 1) (unat tw + unat w)"
proof -
  have "unat ((- 1) - tw) = 2 ^ 32 - 1 - unat tw" using unat_max_minus [of tw] by simp
  then have m: "unat (min ((- 1) - tw) w) = min (2 ^ 32 - 1 - unat tw) (unat w)"
    by (simp add: min_def word_le_nat_alt)
  then have "unat tw + unat (min ((- 1) - tw) w) < 2 ^ LENGTH(32)"
    using unat_lt2p [of tw] by simp
  then show ?thesis using m unat_lt2p [of tw] by (simp only: unat_add_no_overflow) simp
qed

lemma satisfy_loop_exact:
  "satisfy_loop thr presented kws tw rel = (t, r) \<Longrightarrow>
     r = rel + length (filter (\<lambda>kw. kw_key kw \<in> presented) kws)
     \<and> (thr \<le> t \<longleftrightarrow> unat thr \<le> unat tw + weights kw_weight (filter (\<lambda>kw. kw_key kw \<in> presented) kws))"
proof (induction kws arbitrary: tw rel)
  case Nil
  then show ?case by (simp add: word_le_nat_alt)
next
  case (Cons kw kws)
  show ?case
  proof (cases "kw_key kw \<in> presented")
    case False
    then show ?thesis using Cons by simp
  next
    case True
    let ?tw = "if tw < thr then tw + min ((- 1) - tw) (ucast (kw_weight kw)) else tw"
    have "unat ?tw + x \<ge> unat thr \<longleftrightarrow> unat tw + (unat (kw_weight kw) + x) \<ge> unat thr" for x
      using unat_lt2p [of thr] saturating_step [of tw "ucast (kw_weight kw)"]
      by (auto simp: word_less_nat_alt unat_ucast_up_simp min_def)
    then show ?thesis
      using Cons.IH [of ?tw "rel + 1"] Cons.prems True by simp
  qed
qed

lemma keys_satisfy_loop_exact:
  "keys_satisfy_and_relevant presented auth =
     (unat (bsa_threshold auth) \<le> weights kw_weight (filter (\<lambda>kw. kw_key kw \<in> presented) (bsa_keys auth)),
      length (filter (\<lambda>kw. kw_key kw \<in> presented) (bsa_keys auth)))"
proof -
  obtain t r where tr: "satisfy_loop (bsa_threshold auth) presented (bsa_keys auth) 0 0 = (t, r)"
    by (cases "satisfy_loop (bsa_threshold auth) presented (bsa_keys auth) 0 0")
  show ?thesis
    using satisfy_loop_exact [OF tr] by (simp add: keys_satisfy_and_relevant_def tr Let_def)
qed

end
