(* ===== verification/Raw_Codec.thy ===== *)
theory Raw_Codec
  imports Digest
begin

unbundle bit_operations_syntax

text \<open>
  The binary format of \<open>fc::raw\<close> (\<open>libraries/fc/include/fc/io/raw.hpp\<close>, \<open>datastream.hpp\<close>,
  \<open>container_detail.hpp\<close>, \<open>enum_type.hpp\<close>): little-endian integers, variable-length integers,
  byte strings, vectors, pairs, optional values and tagged unions. Everything the chain hashes,
  signs, stores and sends is written in this format.

  A packer returns the bytes it writes or the exception of its size assertion; an unpacker
  takes the bytes that are left in the stream and returns the value with the rest of the stream.
  The size-counting pass of \<open>pack\<close> runs the same packer on a stream that only counts, so it has
  no definition of its own. \<open>raw_codec\<close> is the contract of a packer with its unpacker; each
  combinator carries the contract from its parts.
\<close>

section \<open>Streams\<close>

type_synonym 'a packer = "'a \<Rightarrow> bytes res"
type_synonym 'a unpacker = "bytes \<Rightarrow> ('a \<times> bytes) res"

definition ds_read :: "nat \<Rightarrow> bytes \<Rightarrow> (bytes \<times> bytes) res" where
  "ds_read s ds = (if s \<le> length ds then Inr (take s ds, drop s ds) else Inl out_of_range_exception)"

fun ds_get :: "bytes \<Rightarrow> (u8 \<times> bytes) res" where
  "ds_get [] = Inl out_of_range_exception"
| "ds_get (b # ds) = Inr (b, ds)"

text \<open>Writing two fields one after the other.\<close>

definition pack_append :: "bytes res \<Rightarrow> bytes res \<Rightarrow> bytes res" where
  "pack_append a b = res_bind a (\<lambda>x. res_bind b (\<lambda>y. Inr (x @ y)))"

lemma pack_append_Inr [simp]:
  "pack_append a b = Inr z \<longleftrightarrow> (\<exists>x y. a = Inr x \<and> b = Inr y \<and> z = x @ y)"
  by (auto simp: pack_append_def)

lemma ds_read_append [simp]: "length bs = n \<Longrightarrow> ds_read n (bs @ rest) = Inr (bs, rest)"
  by (auto simp: ds_read_def)

section \<open>Integers\<close>

text \<open>
  A scalar is copied as it lies in memory: \<open>sizeof(v)\<close> bytes, the least significant first (the
  supported platforms are little-endian).
\<close>

definition le_bytes :: "nat \<Rightarrow> 'a::len word \<Rightarrow> bytes" where
  "le_bytes n w = map (\<lambda>i. ucast (drop_bit (8 * i) w)) [0..<n]"

fun of_le_bytes :: "bytes \<Rightarrow> 'a::len word" where
  "of_le_bytes [] = 0"
| "of_le_bytes (b # bs) = ucast b OR push_bit 8 (of_le_bytes bs)"

definition pack_scalar :: "'a::len word packer" where
  "pack_scalar w = Inr (le_bytes (LENGTH('a) div 8) w)"

definition unpack_scalar :: "'a::len word unpacker" where
  "unpack_scalar ds = res_bind (ds_read (LENGTH('a) div 8) ds) (\<lambda>(bs, ds'). Inr (of_le_bytes bs, ds'))"

text \<open>
  The loop of \<open>pack(unsigned_int)\<close> and \<open>pack(signed_int)\<close>: seven bits at a time, the top bit of a
  byte says that more follow.
\<close>

lemma unat_drop_bit_less: "drop_bit 7 w \<noteq> 0 \<Longrightarrow> unat (drop_bit 7 w) < unat (w :: 'a::len word)"
proof -
  assume "drop_bit 7 w \<noteq> 0"
  then have "0 < unat w" by (intro gr0I) (auto simp: unat_eq_0)
  then have "unat w div 2 ^ 7 < unat w" by simp
  then show ?thesis by (simp only: unat_drop_bit_eq) (simp only: drop_bit_eq_div)
qed

function pack_varint :: "'a::len word \<Rightarrow> bytes" where
  "pack_varint val =
     (let b = ucast val AND 0x7f; val' = drop_bit 7 val in
      if val' \<noteq> 0 then (b OR 0x80) # pack_varint val' else [b])"
  by pat_completeness auto

termination
  by (relation "measure unat") (simp_all add: unat_drop_bit_less)

declare pack_varint.simps [simp del]

definition pack_unsigned_int :: "u32 packer" where
  "pack_unsigned_int v = Inr (pack_varint (ucast v :: u64))"

text \<open>
  The zigzag encoding of a signed 32-bit value (kept as its two's complement bits). The left shift
  of a negative value, which C++ leaves undefined before C++20, is taken as the shift of the two's
  complement bits that the supported compilers make of it.
\<close>

definition pack_signed_int :: "u32 packer" where
  "pack_signed_int v = Inr (pack_varint (push_bit 1 v XOR signed_drop_bit 31 v))"

text \<open>
  The loop of \<open>unpack(unsigned_int)\<close>: it stops after five bytes whatever the top bit says, and
  the 32-bit shift drops what does not fit.
\<close>

fun unpack_varint :: "u64 \<Rightarrow> nat \<Rightarrow> bytes \<Rightarrow> (u64 \<times> bytes) res" where
  "unpack_varint v by [] = Inl out_of_range_exception"
| "unpack_varint v by (b # ds) =
     (let v' = v OR ucast (push_bit by (ucast (b AND 0x7f) :: u32)); by' = by + 7 in
      if b AND 0x80 \<noteq> 0 \<and> by' < 32 then unpack_varint v' by' ds else Inr (v', ds))"

definition unpack_unsigned_int :: "u32 unpacker" where
  "unpack_unsigned_int ds = res_bind (unpack_varint 0 0 ds) (\<lambda>(v, ds'). Inr (ucast v, ds'))"

text \<open>
  The loop of \<open>unpack(signed_int)\<close> has no bound on the shift: a sixth byte would shift a 32-bit
  value by 35, which C++ leaves undefined.
\<close>

fun unpack_signed_varint :: "u32 \<Rightarrow> nat \<Rightarrow> bytes \<Rightarrow> (u32 \<times> bytes) res" where
  "unpack_signed_varint v by [] = Inl out_of_range_exception"
| "unpack_signed_varint v by (b # ds) =
     (if 32 \<le> by then Inl undefined_behaviour
      else let v' = v OR push_bit by (ucast (b AND 0x7f)) in
           if b AND 0x80 \<noteq> 0 then unpack_signed_varint v' (by + 7) ds else Inr (v', ds))"

definition unpack_signed_int :: "u32 unpacker" where
  "unpack_signed_int ds =
     res_bind (unpack_signed_varint 0 0 ds) (\<lambda>(v, ds').
       Inr (ucast ((ucast (drop_bit 1 v) :: u64) XOR (ucast (NOT (v AND 1)) + 1)), ds'))"

definition pack_bool :: "bool packer" where
  "pack_bool v = pack_scalar (if v then 1 else 0 :: u8)"

definition unpack_bool :: "bool unpacker" where
  "unpack_bool ds = res_bind (unpack_scalar ds) (\<lambda>(b :: u8, ds').
     INE_ASSERT (b AND NOT 1 = 0) fc_assert_exception (Inr (b \<noteq> 0, ds')))"

text \<open>An \<open>enum_type\<close> over 8-bit integers is written as its integer; reading does not check it.\<close>

definition pack_enum_u8 :: "u8 packer" where
  "pack_enum_u8 v = pack_scalar v"

definition unpack_enum_u8 :: "u8 unpacker" where
  "unpack_enum_u8 ds = unpack_scalar ds"

section \<open>Containers\<close>

definition MAX_NUM_ARRAY_ELEMENTS :: nat where
  "MAX_NUM_ARRAY_ELEMENTS = 1024 * 1024"

definition MAX_SIZE_OF_BYTE_ARRAYS :: nat where
  "MAX_SIZE_OF_BYTE_ARRAYS = 20 * 1024 * 1024"

definition pack_bytes :: "bytes packer" where
  "pack_bytes v =
     INE_ASSERT (length v \<le> MAX_SIZE_OF_BYTE_ARRAYS) fc_assert_exception
     (pack_append (pack_unsigned_int (word_of_nat (length v))) (Inr v))"

definition unpack_bytes :: "bytes unpacker" where
  "unpack_bytes ds =
     res_bind (unpack_unsigned_int ds) (\<lambda>(size, ds').
     INE_ASSERT (unat size \<le> MAX_SIZE_OF_BYTE_ARRAYS) fc_assert_exception
     (ds_read (unat size) ds'))"

text \<open>A string is written like a byte vector.\<close>

definition pack_string :: "string packer" where
  "pack_string v =
     INE_ASSERT (length v \<le> MAX_SIZE_OF_BYTE_ARRAYS) fc_assert_exception
     (pack_append (pack_unsigned_int (word_of_nat (length v))) (Inr (map of_char v)))"

definition unpack_string :: "string unpacker" where
  "unpack_string ds = res_bind (unpack_bytes ds) (\<lambda>(tmp, ds'). Inr (map (\<lambda>b. char_of (unat b)) tmp, ds'))"

text \<open>The bytes of a fixed-size array: no length is written.\<close>

definition pack_array :: "nat \<Rightarrow> bytes packer" where
  "pack_array n v = Inr (take n v)"

definition unpack_array :: "nat \<Rightarrow> bytes unpacker" where
  "unpack_array n ds = ds_read n ds"

fun pack_items :: "'a packer \<Rightarrow> 'a list packer" where
  "pack_items p [] = Inr []"
| "pack_items p (x # xs) = pack_append (p x) (pack_items p xs)"

fun unpack_items :: "'a unpacker \<Rightarrow> nat \<Rightarrow> 'a list unpacker" where
  "unpack_items u 0 ds = Inr ([], ds)"
| "unpack_items u (Suc n) ds =
     res_bind (u ds) (\<lambda>(x, ds'). res_bind (unpack_items u n ds') (\<lambda>(xs, ds''). Inr (x # xs, ds'')))"

definition pack_vector :: "'a packer \<Rightarrow> 'a list packer" where
  "pack_vector p v =
     INE_ASSERT (length v \<le> MAX_NUM_ARRAY_ELEMENTS) fc_assert_exception
     (pack_append (pack_unsigned_int (word_of_nat (length v))) (pack_items p v))"

definition unpack_vector :: "'a unpacker \<Rightarrow> 'a list unpacker" where
  "unpack_vector u ds =
     res_bind (unpack_unsigned_int ds) (\<lambda>(size, ds').
     INE_ASSERT (unat size \<le> MAX_NUM_ARRAY_ELEMENTS) fc_assert_exception
     (unpack_items u (unat size) ds'))"

definition pack_pair :: "'a packer \<Rightarrow> 'b packer \<Rightarrow> ('a \<times> 'b) packer" where
  "pack_pair p q v = pack_append (p (fst v)) (q (snd v))"

definition unpack_pair :: "'a unpacker \<Rightarrow> 'b unpacker \<Rightarrow> ('a \<times> 'b) unpacker" where
  "unpack_pair u w ds =
     res_bind (u ds) (\<lambda>(x, ds'). res_bind (w ds') (\<lambda>(y, ds''). Inr ((x, y), ds'')))"

definition pack_optional :: "'a packer \<Rightarrow> 'a option packer" where
  "pack_optional p v =
     pack_append (pack_bool (v \<noteq> None)) (case v of None \<Rightarrow> Inr [] | Some x \<Rightarrow> p x)"

definition unpack_optional :: "'a unpacker \<Rightarrow> 'a option unpacker" where
  "unpack_optional u ds =
     res_bind (unpack_bool ds) (\<lambda>(b, ds').
     if b then res_bind (u ds') (\<lambda>(x, ds''). Inr (Some x, ds'')) else Inr (None, ds'))"

text \<open>
  A \<open>static_variant\<close>: the number of the alternative, then its value. \<open>U w\<close> is the unpacker of
  alternative \<open>w\<close>; it fails for a number that names none (\<open>set_which\<close>).
\<close>

definition pack_static_variant :: "u32 \<Rightarrow> bytes res \<Rightarrow> bytes res" where
  "pack_static_variant which v = pack_append (pack_unsigned_int which) v"

definition unpack_static_variant :: "(u32 \<Rightarrow> 'a unpacker) \<Rightarrow> 'a unpacker" where
  "unpack_static_variant U ds = res_bind (unpack_unsigned_int ds) (\<lambda>(w, ds'). U w ds')"

text \<open>
  A \<open>boost::container::vector\<close> of a fundamental type of \<open>k\<close> bytes: the element count is used as
  the byte count of the copy. The elements are given as they lie in memory.
\<close>

definition pack_fundamental_vector :: "nat \<Rightarrow> 'a::len word list packer" where
  "pack_fundamental_vector k v =
     INE_ASSERT (length v \<le> MAX_NUM_ARRAY_ELEMENTS) fc_assert_exception
     (pack_append (pack_unsigned_int (word_of_nat (length v)))
        (Inr (take (length v) (concat (map (le_bytes k) v)))))"

text \<open>\<open>T unpack<T>(const vector<char>&)\<close>: bytes after the value are ignored.\<close>

definition unpack_all :: "'a unpacker \<Rightarrow> bytes \<Rightarrow> 'a res" where
  "unpack_all u s = res_bind (u s) (\<lambda>(x, ds). Inr x)"

text \<open>
  A reflected class is packed as its members in order (\<open>pack_object_visitor\<close>): the packer of the
  nested pairs of the members, and the unpacker of the same with a constructor applied.
\<close>

definition pack_as :: "('b \<Rightarrow> 'a) \<Rightarrow> 'a packer \<Rightarrow> 'b packer" where
  "pack_as get p x = p (get x)"

definition unpack_as :: "('a \<Rightarrow> 'b) \<Rightarrow> 'a unpacker \<Rightarrow> 'b unpacker" where
  "unpack_as mk u ds = res_bind (u ds) (\<lambda>(x, ds'). Inr (mk x, ds'))"

section \<open>The contract of a codec\<close>

text \<open>
  What is packed is read back exactly, whatever follows it, and a stream that ends within a
  value is refused. \<open>valid\<close> says which model values are values of the C++ type (an array has
  its fixed length).
\<close>

locale raw_codec =
  fixes pack :: "'a packer" and unpack :: "'a unpacker" and valid :: "'a \<Rightarrow> bool"
  assumes roundtrip: "valid x \<Longrightarrow> pack x = Inr bs \<Longrightarrow> unpack (bs @ rest) = Inr (x, rest)"
    and truncated: "valid x \<Longrightarrow> pack x = Inr bs \<Longrightarrow> k < length bs \<Longrightarrow>
      unpack (take k bs) = Inl out_of_range_exception"
begin

lemma unpack_all_pack: "valid x \<Longrightarrow> pack x = Inr bs \<Longrightarrow> unpack_all unpack bs = Inr x"
  using roundtrip [of x bs "[]"] by (simp add: unpack_all_def)

lemma unpack_all_truncated:
  "valid x \<Longrightarrow> pack x = Inr bs \<Longrightarrow> k < length bs \<Longrightarrow> unpack_all unpack (take k bs) = Inl out_of_range_exception"
  by (simp add: unpack_all_def truncated)

text \<open>The format is prefix-free, so no two values have the same bytes.\<close>

lemma prefix_free:
  assumes "valid x" "valid y" "pack x = Inr bs" "pack y = Inr (bs @ cs)"
  shows "x = y \<and> cs = []"
proof -
  have "unpack (bs @ cs) = Inr (y, [])" using roundtrip [of y "bs @ cs" "[]"] assms by simp
  moreover have "unpack (bs @ cs) = Inr (x, cs)" using assms by (intro roundtrip)
  ultimately show ?thesis by simp
qed

lemma pack_inj: "valid x \<Longrightarrow> valid y \<Longrightarrow> pack x = Inr bs \<Longrightarrow> pack y = Inr bs \<Longrightarrow> x = y"
  using prefix_free [of x y bs "[]"] by simp

text \<open>A stream cut within two fields: either in the first or in the second.\<close>

lemma truncated_append:
  assumes "valid x" "pack x = Inr ba" "k < length (ba @ bb)"
  obtains "unpack (take k (ba @ bb)) = Inl out_of_range_exception"
  | j where "j < length bb" "unpack (take k (ba @ bb)) = Inr (x, take j bb)"
proof (cases "k < length ba")
  case True
  then show thesis using truncated [OF assms(1,2) True] that(1) by simp
next
  case False
  then have "take k (ba @ bb) = ba @ take (k - length ba) bb" by simp
  moreover have "k - length ba < length bb" using False assms(3) by (simp add: less_diff_conv2)
  ultimately show thesis using roundtrip [OF assms(1,2)] that(2) by metis
qed

end

lemmas raw_codecI = raw_codec.intro

section \<open>Every codec of the format meets the contract\<close>

lemma bit_of_le_bytes:
  "bit (of_le_bytes bs :: 'a::len word) i \<longleftrightarrow> i < LENGTH('a) \<and> i div 8 < length bs \<and> bit (bs ! (i div 8)) (i mod 8)"
proof (induction bs arbitrary: i)
  case (Cons b bs)
  show ?case
  proof (cases "i < 8")
    case True
    then show ?thesis by (auto simp: bit_simps dest: bit_imp_le_length)
  next
    case False
    then have "\<not> bit b i" by (auto dest: bit_imp_le_length)
    moreover obtain j where "i = 8 + j" using False by (metis le_add_diff_inverse not_less)
    moreover have "(8 + j) div 8 = Suc (j div 8)" by simp
    ultimately show ?thesis using Cons.IH [of j] by (auto simp: bit_simps)
  qed
qed simp

lemma of_le_bytes_le_bytes: "LENGTH('a) \<le> 8 * n \<Longrightarrow> of_le_bytes (le_bytes n w) = (w :: 'a::len word)"
proof (rule bit_word_eqI)
  fix i assume n: "LENGTH('a) \<le> 8 * n" and i: "i < LENGTH('a)"
  then have d: "i div 8 < n" by (simp add: less_mult_imp_div_less mult.commute)
  then have "bit (le_bytes n w ! (i div 8)) (i mod 8) = bit w i"
    by (simp add: le_bytes_def bit_simps)
  then show "bit (of_le_bytes (le_bytes n w) :: 'a word) i = bit w i"
    using i d by (simp add: bit_of_le_bytes le_bytes_def)
qed

lemma length_le_bytes [simp]: "length (le_bytes n w) = n"
  by (simp add: le_bytes_def)

lemma scalar_codec:
  "8 dvd LENGTH('a::len) \<Longrightarrow> raw_codec (pack_scalar :: 'a word packer) unpack_scalar (\<lambda>_. True)"
  by (rule raw_codecI) (auto simp: pack_scalar_def unpack_scalar_def of_le_bytes_le_bytes ds_read_def)

interpretation raw_u8: raw_codec "pack_scalar :: u8 packer" unpack_scalar "\<lambda>_. True"
  by (rule scalar_codec) simp

interpretation raw_u16: raw_codec "pack_scalar :: u16 packer" unpack_scalar "\<lambda>_. True"
  by (rule scalar_codec) simp

interpretation raw_u32: raw_codec "pack_scalar :: u32 packer" unpack_scalar "\<lambda>_. True"
  by (rule scalar_codec) simp

interpretation raw_u64: raw_codec "pack_scalar :: u64 packer" unpack_scalar "\<lambda>_. True"
  by (rule scalar_codec) simp

interpretation raw_u128: raw_codec "pack_scalar :: u128 packer" unpack_scalar "\<lambda>_. True"
  by (rule scalar_codec) simp

text \<open>Variable-length integers.\<close>

lemma bit_varint_masks: "bit (0x7f :: int) i \<longleftrightarrow> i < 7" "bit (0x80 :: int) i \<longleftrightarrow> i = 7"
proof -
  have "(0x7f :: int) = mask 7" "(0x80 :: int) = 2 ^ 7" by (simp_all add: mask_eq_exp_minus_1)
  then show "bit (0x7f :: int) i \<longleftrightarrow> i < 7" "bit (0x80 :: int) i \<longleftrightarrow> i = 7"
    by (simp_all only: bit_mask_iff bit_exp_iff) auto
qed

lemma varint_byte_simps:
  "(ucast (w :: 'a::len word) AND 0x7f OR 0x80 :: u8) AND 0x80 \<noteq> 0"
  "(ucast w AND 0x7f :: u8) AND 0x80 = 0"
  "(ucast w AND 0x7f OR 0x80 :: u8) AND 0x7f = ucast w AND 0x7f"
  "(ucast w AND 0x7f :: u8) AND 0x7f = ucast w AND 0x7f"
proof -
  have "bit ((ucast w AND 0x7f OR 0x80 :: u8) AND 0x80) 7" by (simp add: bit_simps bit_varint_masks)
  then show "(ucast w AND 0x7f OR 0x80 :: u8) AND 0x80 \<noteq> 0" by force
qed (rule bit_word_eqI; auto simp: bit_simps bit_varint_masks)+

lemma bit_varint_byte:
  "bit (ucast (ucast (w :: 'a::len word) AND 0x7f :: u8) :: 'b::len word) i
     \<longleftrightarrow> i < LENGTH('b) \<and> i < 7 \<and> bit w i"
  by (auto simp: bit_simps bit_varint_masks)

text \<open>One round of the loops puts seven more bits in place.\<close>

lemma varint_round:
  fixes val :: "'a::len word" and v :: "'c::len word"
  assumes "by < LENGTH('b::len)" and "\<And>i. bit val i \<Longrightarrow> by + i < LENGTH('b)"
  shows "v OR ucast (push_bit by (ucast (ucast val AND 0x7f :: u8) :: 'b word)) OR push_bit (by + 7) (ucast (drop_bit 7 val))
    = v OR push_bit by (ucast val)"
proof (rule bit_word_eqI)
  fix i assume i: "i < LENGTH('c)"
  have "bit val (i - by) \<Longrightarrow> by \<le> i \<Longrightarrow> i < LENGTH('b)" using assms(2) [of "i - by"] by simp
  then show "bit (v OR ucast (push_bit by (ucast (ucast val AND 0x7f :: u8) :: 'b word))
        OR push_bit (by + 7) (ucast (drop_bit 7 val))) i
      = bit (v OR push_bit by (ucast val)) i"
    using i assms(1)
    by (cases "by \<le> i"; cases "i - by < 7") (auto simp: bit_simps bit_varint_masks)
qed

lemma drop_bit_nonzero_ex: "drop_bit n (w :: 'a::len word) \<noteq> 0 \<Longrightarrow> \<exists>i. bit w (n + i)"
  using bit_word_eqI [of "drop_bit n w" 0] by (auto simp: bit_drop_bit_eq)

lemma unpack_varint_pack:
  fixes val :: u64
  assumes "\<And>i. bit val i \<Longrightarrow> by + i < 32" and "by < 32"
  shows "unpack_varint v by (pack_varint val @ rest) = Inr (v OR push_bit by val, rest)"
  using assms
proof (induction val arbitrary: v "by" rule: pack_varint.induct)
  case (1 val)
  have round: "v OR ucast (push_bit by (ucast (ucast val AND 0x7f :: u8) :: u32)) OR push_bit (by + 7) (drop_bit 7 val)
      = v OR push_bit by val"
    using varint_round [where 'b = 32, of "by" val v] 1(2,3) by simp
  show ?case
  proof (cases "drop_bit 7 val = 0")
    case True
    then show ?thesis using round by (simp add: pack_varint.simps [of val] varint_byte_simps Let_def)
  next
    case False
    have small: "by + 7 + i < 32" if "bit (drop_bit 7 val) i" for i
      using 1(2) [of "7 + i"] that by (simp add: bit_simps)
    then have "by + 7 < 32" using drop_bit_nonzero_ex [OF False] 1(2) by fastforce
    then show ?thesis
      using round 1(1) [OF refl refl False small]
      by (simp add: pack_varint.simps [of val] varint_byte_simps Let_def False or.assoc)
  qed
qed

lemma unpack_signed_varint_pack:
  fixes val :: u32
  assumes "\<And>i. bit val i \<Longrightarrow> by + i < 32" and "by < 32"
  shows "unpack_signed_varint v by (pack_varint val @ rest) = Inr (v OR push_bit by val, rest)"
  using assms
proof (induction val arbitrary: v "by" rule: pack_varint.induct)
  case (1 val)
  have round: "v OR push_bit by (ucast (ucast val AND 0x7f :: u8)) OR push_bit (by + 7) (drop_bit 7 val)
      = v OR push_bit by val"
    using varint_round [where 'b = 32, of "by" val v] 1(2,3) by simp
  show ?case
  proof (cases "drop_bit 7 val = 0")
    case True
    then show ?thesis using round 1(3) by (simp add: pack_varint.simps [of val] varint_byte_simps Let_def)
  next
    case False
    have small: "by + 7 + i < 32" if "bit (drop_bit 7 val) i" for i
      using 1(2) [of "7 + i"] that by (simp add: bit_simps)
    then have "by + 7 < 32" using drop_bit_nonzero_ex [OF False] 1(2) by fastforce
    then show ?thesis
      using round 1(1) [OF refl refl False small] 1(3)
      by (simp add: pack_varint.simps [of val] varint_byte_simps Let_def False or.assoc)
  qed
qed

text \<open>A varint that is cut short still asks for more bytes.\<close>

lemma pack_varint_truncated:
  "k < length (pack_varint (val :: 'a::len word)) \<Longrightarrow> \<forall>b \<in> set (take k (pack_varint val)). b AND 0x80 \<noteq> 0"
proof (induction val arbitrary: k rule: pack_varint.induct)
  case (1 val)
  show ?case
  proof (cases "drop_bit 7 val = 0")
    case True
    then show ?thesis using 1(2) by (simp add: pack_varint.simps [of val] Let_def)
  next
    case False
    then show ?thesis
      using 1(1) [OF refl refl False, of "k - 1"] 1(2)
      by (cases k) (auto simp: pack_varint.simps [of val] Let_def varint_byte_simps)
  qed
qed

lemma length_pack_varint:
  "(\<And>i. bit (val :: 'a::len word) i \<Longrightarrow> i < 7 * Suc n) \<Longrightarrow> length (pack_varint val) \<le> Suc n"
proof (induction val arbitrary: n rule: pack_varint.induct)
  case (1 val)
  show ?case
  proof (cases "drop_bit 7 val = 0")
    case False
    then obtain j where j: "bit val (7 + j)" using drop_bit_nonzero_ex by blast
    then obtain m where m: "n = Suc m" using 1(2) [OF j] by (cases n) auto
    have "i < 7 * Suc m" if "bit (drop_bit 7 val) i" for i
      using 1(2) [of "7 + i"] that m by (simp add: bit_simps)
    then show ?thesis
      using 1(1) [OF refl refl False] m by (simp add: pack_varint.simps [of val] Let_def)
  qed (simp add: pack_varint.simps [of val] Let_def)
qed

lemma length_pack_varint_32: "(\<And>i. bit (val :: 'a::len word) i \<Longrightarrow> i < 32) \<Longrightarrow> length (pack_varint val) \<le> 5"
  using length_pack_varint [of val 4] by force

lemma length_pack_varint_pos: "pack_varint val \<noteq> []"
  by (simp add: pack_varint.simps [of val] Let_def)

lemma unpack_varint_short:
  "\<forall>b \<in> set ds. b AND 0x80 \<noteq> 0 \<Longrightarrow> by + 7 * length ds < 32 \<Longrightarrow> unpack_varint v by ds = Inl out_of_range_exception"
  by (induction v "by" ds rule: unpack_varint.induct) (auto simp: Let_def)

lemma unpack_signed_varint_short:
  "\<forall>b \<in> set ds. b AND 0x80 \<noteq> 0 \<Longrightarrow> by + 7 * length ds < 32 \<Longrightarrow>
     unpack_signed_varint v by ds = Inl out_of_range_exception"
  by (induction v "by" ds rule: unpack_signed_varint.induct) (auto simp: Let_def)

lemma u64_of_u32_bits: "bit (ucast (x :: u32) :: u64) i \<Longrightarrow> i < 32"
  by (auto simp: bit_simps dest: bit_imp_le_length)

interpretation raw_unsigned_int: raw_codec pack_unsigned_int unpack_unsigned_int "\<lambda>_. True"
proof (rule raw_codecI)
  fix x bs rest assume "pack_unsigned_int x = Inr bs"
  moreover have "(ucast (ucast x :: u64) :: u32) = x" by (rule bit_word_eqI) (simp add: bit_simps)
  ultimately show "unpack_unsigned_int (bs @ rest) = Inr (x, rest)"
    by (auto simp: pack_unsigned_int_def unpack_unsigned_int_def unpack_varint_pack u64_of_u32_bits)
next
  fix x bs k assume "pack_unsigned_int x = Inr bs" and k: "k < length bs"
  then have bs: "bs = pack_varint (ucast x :: u64)" by (simp add: pack_unsigned_int_def)
  have "k < 5" using k length_pack_varint_32 [of "ucast x :: u64"] u64_of_u32_bits [of x] bs by fastforce
  then have "unpack_varint 0 0 (take k bs) = Inl out_of_range_exception"
    using pack_varint_truncated k bs by (intro unpack_varint_short) auto
  then show "unpack_unsigned_int (take k bs) = Inl out_of_range_exception"
    by (simp add: unpack_unsigned_int_def)
qed

text \<open>Decoding undoes the zigzag encoding: bit 31 decides between the shifted value and its complement.\<close>

lemma zigzag_roundtrip:
  fixes x :: u32
  defines "v \<equiv> push_bit 1 x XOR signed_drop_bit 31 x"
  shows "ucast ((ucast (drop_bit 1 v) :: u64) XOR (ucast (NOT (v AND 1)) + 1)) = x"
proof -
  have bv: "bit v i \<longleftrightarrow> i < 32 \<and> (if i = 0 then bit x 31 else bit x (i - 1) \<noteq> bit x 31)" for i
    by (auto simp: v_def bit_simps simp del: push_bit_Suc One_nat_def dest: bit_imp_le_length)
  have low: "(ucast (ucast (NOT (v AND 1)) + 1 :: u64) :: u32) = (if bit x 31 then -1 else 0)"
  proof (cases "bit x 31")
    case True
    then have "v AND 1 = 1" using bv [of 0] by (simp add: and_one_eq odd_iff_mod_2_eq_one bit_0)
    then show ?thesis using True by simp
  next
    case False
    then have "v AND 1 = 0" using bv [of 0] by (simp add: and_one_eq even_iff_mod_2_eq_zero bit_0)
    moreover have "(ucast (ucast (- 1 :: u32) + 1 :: u64) :: u32) = 0" by code_simp
    ultimately show ?thesis using False by simp
  qed
  have "ucast ((ucast (drop_bit 1 v) :: u64) XOR (ucast (NOT (v AND 1)) + 1))
      = drop_bit 1 v XOR (if bit x 31 then -1 else 0)"
    unfolding low [symmetric] by (rule bit_word_eqI) (auto simp: bit_simps)
  also have "\<dots> = x"
  proof (rule bit_word_eqI)
    fix n assume "n < LENGTH(32)"
    then show "bit (drop_bit 1 v XOR (if bit x 31 then -1 else 0)) n = bit x n"
      by (cases "n = 31") (auto simp: bv bit_simps simp del: drop_bit_Suc)
  qed
  finally show ?thesis .
qed

interpretation raw_signed_int: raw_codec pack_signed_int unpack_signed_int "\<lambda>_. True"
proof (rule raw_codecI)
  fix x bs rest assume p: "pack_signed_int x = Inr bs"
  have "bit (val :: u32) i \<Longrightarrow> 0 + i < 32" for val i by (auto dest: bit_imp_le_length)
  then show "unpack_signed_int (bs @ rest) = Inr (x, rest)"
    using p zigzag_roundtrip [of x]
    by (auto simp: pack_signed_int_def unpack_signed_int_def unpack_signed_varint_pack)
next
  fix x bs k assume "pack_signed_int x = Inr bs" and k: "k < length bs"
  then obtain val :: u32 where bs: "bs = pack_varint val" by (auto simp: pack_signed_int_def)
  have "bit val i \<Longrightarrow> i < 32" for i by (auto dest: bit_imp_le_length)
  then have "k < 5" using k length_pack_varint_32 [of val] bs by simp
  then have "unpack_signed_varint 0 0 (take k bs) = Inl out_of_range_exception"
    using pack_varint_truncated k bs by (intro unpack_signed_varint_short) auto
  then show "unpack_signed_int (take k bs) = Inl out_of_range_exception"
    by (simp add: unpack_signed_int_def)
qed

interpretation raw_bool: raw_codec pack_bool unpack_bool "\<lambda>_. True"
proof (rule raw_codecI)
  fix x bs rest assume "pack_bool x = Inr bs"
  then have "unpack_scalar (bs @ rest) = Inr (if x then 1 else 0 :: u8, rest)"
    unfolding pack_bool_def by (intro raw_u8.roundtrip) simp_all
  then show "unpack_bool (bs @ rest) = Inr (x, rest)" by (simp add: unpack_bool_def)
next
  fix x bs k assume "pack_bool x = Inr bs" "k < length bs"
  then show "unpack_bool (take k bs) = Inl out_of_range_exception"
    by (simp add: pack_bool_def unpack_bool_def raw_u8.truncated)
qed

interpretation raw_enum_u8: raw_codec pack_enum_u8 unpack_enum_u8 "\<lambda>_. True"
  by (rule raw_codecI) (simp_all add: pack_enum_u8_def unpack_enum_u8_def raw_u8.roundtrip raw_u8.truncated)

lemma unsigned_int_roundtrip [simp]:
  "pack_unsigned_int v = Inr bs \<Longrightarrow> unpack_unsigned_int (bs @ rest) = Inr (v, rest)"
  by (rule raw_unsigned_int.roundtrip) simp_all

lemma unat_length [simp]: "n \<le> MAX_SIZE_OF_BYTE_ARRAYS \<Longrightarrow> unat (word_of_nat n :: u32) = n"
  by (rule unat_word_of_nat_eq) (simp add: MAX_SIZE_OF_BYTE_ARRAYS_def)

lemma array_limit_below [simp]: "n \<le> MAX_NUM_ARRAY_ELEMENTS \<Longrightarrow> n \<le> MAX_SIZE_OF_BYTE_ARRAYS"
  by (simp add: MAX_NUM_ARRAY_ELEMENTS_def MAX_SIZE_OF_BYTE_ARRAYS_def)

interpretation raw_bytes: raw_codec pack_bytes unpack_bytes "\<lambda>_. True"
proof (rule raw_codecI)
  fix x bs rest assume "pack_bytes x = Inr bs"
  then show "unpack_bytes (bs @ rest) = Inr (x, rest)"
    by (auto simp: pack_bytes_def unpack_bytes_def split: if_splits simp del: res_bind_eq_Inr)
next
  fix x bs k assume p: "pack_bytes x = Inr bs" and k: "k < length bs"
  then obtain ba where ba: "pack_unsigned_int (word_of_nat (length x)) = Inr ba" "bs = ba @ x"
    and len: "length x \<le> MAX_SIZE_OF_BYTE_ARRAYS"
    by (auto simp: pack_bytes_def split: if_splits)
  from raw_unsigned_int.truncated_append [OF TrueI ba(1), of k x] k ba(2)
  show "unpack_bytes (take k bs) = Inl out_of_range_exception"
    by (cases rule: raw_unsigned_int.truncated_append [OF TrueI ba(1), of k x])
      (use k ba(2) len in \<open>auto simp: unpack_bytes_def ds_read_def\<close>)
qed

lemma char_bytes [simp]: "map (\<lambda>b. char_of (unat (b :: u8))) (map of_char s) = s"
proof -
  have "unat (of_char c :: u8) = of_char c" for c
    using unat_word_of_nat_eq [where 'a = 8, of "of_char c"] nat_of_char_less_256 [of c]
    by (simp add: of_nat_of_char)
  then show ?thesis by (simp add: comp_def)
qed

interpretation raw_string: raw_codec pack_string unpack_string "\<lambda>_. True"
proof -
  have eq: "pack_string x = pack_bytes (map of_char x)" for x
    by (simp add: pack_string_def pack_bytes_def)
  show "raw_codec pack_string unpack_string (\<lambda>_. True)"
    by (rule raw_codecI)
      (simp_all add: eq unpack_string_def raw_bytes.roundtrip raw_bytes.truncated del: map_map)
qed

lemma array_codec: "raw_codec (pack_array n) (unpack_array n) (\<lambda>v. length v = n)"
  by (rule raw_codecI) (auto simp: pack_array_def unpack_array_def ds_read_def)

lemma pair_codec:
  assumes "raw_codec p u v" and "raw_codec q w z"
  shows "raw_codec (pack_pair p q) (unpack_pair u w) (\<lambda>x. v (fst x) \<and> z (snd x))"
proof (rule raw_codecI)
  fix x bs rest assume x: "v (fst x) \<and> z (snd x)" "pack_pair p q x = Inr bs"
  then obtain ba bb where p: "p (fst x) = Inr ba" "q (snd x) = Inr bb" "bs = ba @ bb"
    by (auto simp: pack_pair_def)
  show "unpack_pair u w (bs @ rest) = Inr (x, rest)"
    using raw_codec.roundtrip [OF assms(1) _ p(1), of "bb @ rest"]
      raw_codec.roundtrip [OF assms(2) _ p(2), of rest] x p(3)
    by (simp add: unpack_pair_def del: res_bind_eq_Inr)
next
  fix x bs k assume x: "v (fst x) \<and> z (snd x)" "pack_pair p q x = Inr bs" and k: "k < length bs"
  then obtain ba bb where p: "p (fst x) = Inr ba" "q (snd x) = Inr bb" "bs = ba @ bb"
    by (auto simp: pack_pair_def)
  have v: "v (fst x)" "k < length (ba @ bb)" using x k p by simp_all
  show "unpack_pair u w (take k bs) = Inl out_of_range_exception"
    by (cases rule: raw_codec.truncated_append [OF assms(1) v(1) p(1) v(2)])
      (use x p(3) raw_codec.truncated [OF assms(2) _ p(2)] in \<open>auto simp: unpack_pair_def\<close>)
qed

lemma items_roundtrip:
  assumes "raw_codec p u v"
  shows "list_all v xs \<Longrightarrow> pack_items p xs = Inr bs \<Longrightarrow> unpack_items u (length xs) (bs @ rest) = Inr (xs, rest)"
proof (induction xs arbitrary: bs)
  case (Cons x xs)
  then obtain b bs' where "p x = Inr b" "pack_items p xs = Inr bs'" "bs = b @ bs'" by auto
  then show ?case
    using Cons raw_codec.roundtrip [OF assms, of x b "bs' @ rest"] by (simp del: res_bind_eq_Inr)
qed simp

lemma items_truncated:
  assumes "raw_codec p u v"
  shows "list_all v xs \<Longrightarrow> pack_items p xs = Inr bs \<Longrightarrow> k < length bs \<Longrightarrow>
    unpack_items u (length xs) (take k bs) = Inl out_of_range_exception"
proof (induction xs arbitrary: bs k)
  case (Cons x xs)
  then obtain b bs' where b: "p x = Inr b" "pack_items p xs = Inr bs'" "bs = b @ bs'" by auto
  have v: "v x" "k < length (b @ bs')" using Cons.prems b by simp_all
  show ?case
    by (cases rule: raw_codec.truncated_append [OF assms v(1) b(1) v(2)])
      (use Cons b in auto)
qed simp

lemma vector_codec:
  assumes "raw_codec p u v"
  shows "raw_codec (pack_vector p) (unpack_vector u) (list_all v)"
proof (rule raw_codecI)
  fix x bs rest assume "list_all v x" "pack_vector p x = Inr bs"
  then show "unpack_vector u (bs @ rest) = Inr (x, rest)"
    by (auto simp: pack_vector_def unpack_vector_def items_roundtrip [OF assms] split: if_splits
        simp del: res_bind_eq_Inr)
next
  fix x bs k assume x: "list_all v x" "pack_vector p x = Inr bs" and k: "k < length bs"
  then obtain ba bb where b: "pack_unsigned_int (word_of_nat (length x)) = Inr ba" "pack_items p x = Inr bb"
    "bs = ba @ bb" and len: "length x \<le> MAX_NUM_ARRAY_ELEMENTS"
    by (auto simp: pack_vector_def split: if_splits)
  show "unpack_vector u (take k bs) = Inl out_of_range_exception"
    by (cases rule: raw_unsigned_int.truncated_append [OF TrueI b(1), of k bb])
      (use k x len b items_truncated [OF assms x(1) b(2)] in \<open>auto simp: unpack_vector_def\<close>)
qed

lemma optional_codec:
  assumes "raw_codec p u v"
  shows "raw_codec (pack_optional p) (unpack_optional u) (pred_option v)"
proof (rule raw_codecI)
  fix x bs rest assume "pred_option v x" "pack_optional p x = Inr bs"
  then show "unpack_optional u (bs @ rest) = Inr (x, rest)"
    by (cases x) (auto simp: pack_optional_def unpack_optional_def raw_bool.roundtrip
        raw_codec.roundtrip [OF assms] simp del: res_bind_eq_Inr)
next
  fix x bs k assume x: "pred_option v x" "pack_optional p x = Inr bs" and k: "k < length bs"
  then obtain ba bb where b: "pack_bool (x \<noteq> None) = Inr ba" "(case x of None \<Rightarrow> Inr [] | Some y \<Rightarrow> p y) = Inr bb"
    "bs = ba @ bb" by (auto simp: pack_optional_def)
  show "unpack_optional u (take k bs) = Inl out_of_range_exception"
    by (cases rule: raw_bool.truncated_append [OF TrueI b(1), of k bb])
      (use k x b raw_codec.truncated [OF assms] in \<open>auto simp: unpack_optional_def split: option.splits\<close>)
qed

lemma static_variant_roundtrip:
  assumes "raw_codec p u v" "v x" "pack_static_variant w (p x) = Inr bs" "U w = unpack_as mk u"
  shows "unpack_static_variant U (bs @ rest) = Inr (mk x, rest)"
  using assms raw_codec.roundtrip [OF assms(1,2)]
  by (auto simp: pack_static_variant_def unpack_static_variant_def unpack_as_def simp del: res_bind_eq_Inr)

lemma static_variant_truncated:
  assumes "raw_codec p u v" "v x" "pack_static_variant w (p x) = Inr bs" "U w = unpack_as mk u" "k < length bs"
  shows "unpack_static_variant U (take k bs) = Inl out_of_range_exception"
proof -
  obtain a b where ab: "pack_unsigned_int w = Inr a" "p x = Inr b" "bs = a @ b"
    using assms(3) by (auto simp: pack_static_variant_def)
  show ?thesis
    by (cases rule: raw_unsigned_int.truncated_append [OF TrueI ab(1), of k b])
      (use assms(4,5) ab raw_codec.truncated [OF assms(1,2) ab(2)] in
        \<open>auto simp: unpack_static_variant_def unpack_as_def\<close>)
qed

text \<open>
  \<open>raw_codecs\<close> collects the codecs, so that the contract of a reflected class follows by
  resolution along its members.
\<close>

named_theorems raw_codecs

lemmas basic_codecs [raw_codecs] = raw_u8.raw_codec_axioms raw_u16.raw_codec_axioms raw_u32.raw_codec_axioms
  raw_u64.raw_codec_axioms raw_u128.raw_codec_axioms raw_unsigned_int.raw_codec_axioms
  raw_signed_int.raw_codec_axioms raw_bool.raw_codec_axioms raw_enum_u8.raw_codec_axioms
  raw_bytes.raw_codec_axioms raw_string.raw_codec_axioms array_codec vector_codec pair_codec optional_codec

lemma raw_codec_weaken: "raw_codec p u v \<Longrightarrow> (\<And>x. v' x \<Longrightarrow> v x) \<Longrightarrow> raw_codec p u v'"
  using raw_codec.roundtrip [of p u v] raw_codec.truncated [of p u v] by (intro raw_codecI) blast+

lemma reflected_codec:
  assumes "raw_codec p u v" and "\<And>x. mk (get x) = x" and "\<And>x. v' x \<Longrightarrow> v (get x)"
  shows "raw_codec (pack_as get p) (unpack_as mk u) v'"
proof (rule raw_codecI)
  fix x bs rest assume "v' x" "pack_as get p x = Inr bs"
  then have "u (bs @ rest) = Inr (get x, rest)"
    using assms(3) by (intro raw_codec.roundtrip [OF assms(1)]) (simp_all add: pack_as_def)
  then show "unpack_as mk u (bs @ rest) = Inr (x, rest)" by (simp add: unpack_as_def assms(2))
next
  fix x bs k assume "v' x" "pack_as get p x = Inr bs" "k < length bs"
  then have "u (take k bs) = Inl out_of_range_exception"
    using assms(3) by (intro raw_codec.truncated [OF assms(1)]) (simp_all add: pack_as_def)
  then show "unpack_as mk u (take k bs) = Inl out_of_range_exception" by (simp add: unpack_as_def)
qed

section \<open>Properties of the format\<close>

text \<open>
  C28. Every 32-bit value has a variable-length form of one to five bytes, unsigned and (in zigzag
  form) signed, and \<open>unpack\<close> reads the value back from it and stops right after it, whatever
  follows in the stream.
\<close>

theorem varint_forms:
  "\<exists>bs cs. pack_unsigned_int v = Inr bs \<and> length bs \<in> {1..5} \<and> unpack_unsigned_int (bs @ rest) = Inr (v, rest)
    \<and> pack_signed_int v = Inr cs \<and> length cs \<in> {1..5} \<and> unpack_signed_int (cs @ rest) = Inr (v, rest)"
proof -
  obtain bs cs where b: "pack_unsigned_int v = Inr bs" and c: "pack_signed_int v = Inr cs"
    by (simp add: pack_unsigned_int_def pack_signed_int_def)
  have pos: "Suc 0 \<le> length (pack_varint w)" for w :: "'a::len word"
    using length_pack_varint_pos [of w] by (simp add: Suc_le_eq)
  have "length bs \<in> {1..5}"
    using b pos length_pack_varint_32 [of "ucast v :: u64"] u64_of_u32_bits [of v]
    by (fastforce simp: pack_unsigned_int_def)
  moreover have "length cs \<in> {1..5}"
    using c pos length_pack_varint_32 [where 'a = 32] by (fastforce simp: pack_signed_int_def dest: bit_imp_le_length)
  ultimately show ?thesis
    using b c raw_unsigned_int.roundtrip [OF TrueI b] raw_signed_int.roundtrip [OF TrueI c] by blast
qed

text \<open>
  A \<open>boost::container::vector\<close> of 64-bit elements loses all but the first \<open>n\<close> of its \<open>8 * n\<close>
  bytes: two different vectors are packed to the same bytes.
\<close>

lemma pack_fundamental_vector_loses_data:
  "pack_fundamental_vector 8 [1 :: u64, 2] = pack_fundamental_vector 8 [1, 3]"
  by (simp add: pack_fundamental_vector_def le_bytes_def upt_rec)

end
