(* ===== verification/Key_Codec.thy ===== *)
theory Key_Codec
  imports Raw_Codec Authority
begin

text \<open>
  The binary form of digests, public keys, block signing authorities and producer schedules,
  after the \<open>FC_REFLECT\<close> declarations of \<open>producer_schedule.hpp\<close> and \<open>authority.hpp\<close> and the
  \<open>fc::raw\<close> operators of \<open>sha256\<close> and the public key types. Each codec meets the contract
  \<open>raw_codec\<close> on the values that a C++ object can have.
\<close>

section \<open>Digests\<close>

definition pack_sha256 :: "sha256 packer" where
  "pack_sha256 =
     pack_as (\<lambda>d. (hash0 d, hash1 d, hash2 d, hash3 d))
       (pack_pair pack_scalar (pack_pair pack_scalar (pack_pair pack_scalar pack_scalar)))"

definition unpack_sha256 :: "sha256 unpacker" where
  "unpack_sha256 =
     unpack_as (\<lambda>(a, b, c, d). sha256 a b c d)
       (unpack_pair unpack_scalar (unpack_pair unpack_scalar (unpack_pair unpack_scalar unpack_scalar)))"

section \<open>Keys\<close>

text \<open>A WebAuthn key must name its relying party: \<open>post_init\<close> runs when it is read.\<close>

definition pack_public_key :: "public_key_type packer" where
  "pack_public_key k = (case k of
       K1 d \<Rightarrow> pack_static_variant 0 (pack_array 33 d)
     | R1 d \<Rightarrow> pack_static_variant 1 (pack_array 33 d)
     | WA d p r \<Rightarrow> pack_static_variant 2 (pack_pair (pack_array 33) (pack_pair pack_scalar pack_string) (d, p, r)))"

definition unpack_webauthn_key :: "(bytes \<times> u8 \<times> string) unpacker" where
  "unpack_webauthn_key ds =
     res_bind (unpack_pair (unpack_array 33) (unpack_pair unpack_scalar unpack_string) ds) (\<lambda>((d, p, r), rest).
     INE_ASSERT (r \<noteq> []) fc_assert_exception (Inr ((d, p, r), rest)))"

definition unpack_public_key :: "public_key_type unpacker" where
  "unpack_public_key = unpack_static_variant (\<lambda>w.
     if w = 0 then unpack_as K1 (unpack_array 33)
     else if w = 1 then unpack_as R1 (unpack_array 33)
     else if w = 2 then unpack_as (\<lambda>(d, p, r). WA d p r) unpack_webauthn_key
     else (\<lambda>ds. Inl fc_assert_exception))"

definition pack_key_weight :: "key_weight packer" where
  "pack_key_weight = pack_as (\<lambda>k. (kw_key k, kw_weight k)) (pack_pair pack_public_key pack_scalar)"

definition unpack_key_weight :: "key_weight unpacker" where
  "unpack_key_weight = unpack_as (\<lambda>(k, w). \<lparr>kw_key = k, kw_weight = w\<rparr>) (unpack_pair unpack_public_key unpack_scalar)"

section \<open>Producer schedules\<close>

text \<open>\<open>block_signing_authority\<close> is a \<open>static_variant\<close> with one alternative.\<close>

definition pack_block_signing_authority :: "block_signing_authority packer" where
  "pack_block_signing_authority a =
     pack_static_variant 0 (pack_as (\<lambda>a. (bsa_threshold a, bsa_keys a)) (pack_pair pack_scalar (pack_vector pack_key_weight)) a)"

definition unpack_block_signing_authority :: "block_signing_authority unpacker" where
  "unpack_block_signing_authority = unpack_static_variant (\<lambda>w.
     if w = 0 then unpack_as (\<lambda>(t, ks). \<lparr>bsa_threshold = t, bsa_keys = ks\<rparr>) (unpack_pair unpack_scalar (unpack_vector unpack_key_weight))
     else (\<lambda>ds. Inl fc_assert_exception))"

definition pack_producer_authority :: "producer_authority packer" where
  "pack_producer_authority = pack_as (\<lambda>p. (producer_name p, pa_authority p)) (pack_pair pack_scalar pack_block_signing_authority)"

definition unpack_producer_authority :: "producer_authority unpacker" where
  "unpack_producer_authority = unpack_as (\<lambda>(n, a). \<lparr>producer_name = n, pa_authority = a\<rparr>)
     (unpack_pair unpack_scalar unpack_block_signing_authority)"

definition pack_schedule :: "producer_authority_schedule packer" where
  "pack_schedule = pack_as (\<lambda>s. (version s, producers s)) (pack_pair pack_scalar (pack_vector pack_producer_authority))"

definition unpack_schedule :: "producer_authority_schedule unpacker" where
  "unpack_schedule = unpack_as (\<lambda>(v, ps). \<lparr>version = v, producers = ps\<rparr>)
     (unpack_pair unpack_scalar (unpack_vector unpack_producer_authority))"

section \<open>The codecs meet the contract\<close>

interpretation raw_sha256: raw_codec pack_sha256 unpack_sha256 "\<lambda>_. True"
  unfolding pack_sha256_def unpack_sha256_def
  by (rule reflected_codec, (rule raw_codecs)+) auto

text \<open>Keys have the 33 bytes of a compressed curve point, and WebAuthn keys name a relying party.\<close>

fun public_key_ok :: "public_key_type \<Rightarrow> bool" where
  "public_key_ok (K1 d) \<longleftrightarrow> length d = 33"
| "public_key_ok (R1 d) \<longleftrightarrow> length d = 33"
| "public_key_ok (WA d p r) \<longleftrightarrow> length d = 33 \<and> r \<noteq> []"

lemma webauthn_key_codec:
  "raw_codec (pack_pair (pack_array 33) (pack_pair pack_scalar pack_string)) unpack_webauthn_key
     (\<lambda>(d, p, r). length d = 33 \<and> r \<noteq> [])" (is "raw_codec ?p _ _")
proof (rule raw_codecI)
  note wa = pair_codec [OF array_codec [of 33] pair_codec [OF raw_u8.raw_codec_axioms raw_string.raw_codec_axioms]]
  fix x bs rest assume "case x of (d, p :: u8, r :: string) \<Rightarrow> length d = 33 \<and> r \<noteq> []" "?p x = Inr bs"
  then show "unpack_webauthn_key (bs @ rest) = Inr (x, rest)"
    using raw_codec.roundtrip [OF wa, of x bs rest] by (cases x) (simp add: unpack_webauthn_key_def del: res_bind_eq_Inr)
next
  note wa = pair_codec [OF array_codec [of 33] pair_codec [OF raw_u8.raw_codec_axioms raw_string.raw_codec_axioms]]
  fix x bs k assume "case x of (d, p :: u8, r :: string) \<Rightarrow> length d = 33 \<and> r \<noteq> []" "?p x = Inr bs" "k < length bs"
  then show "unpack_webauthn_key (take k bs) = Inl out_of_range_exception"
    using raw_codec.truncated [OF wa, of x bs k] by (cases x) (simp add: unpack_webauthn_key_def)
qed

interpretation raw_public_key: raw_codec pack_public_key unpack_public_key public_key_ok
proof (rule raw_codecI)
  fix x bs rest assume "public_key_ok x" "pack_public_key x = Inr bs"
  then show "unpack_public_key (bs @ rest) = Inr (x, rest)"
    unfolding unpack_public_key_def
    by (cases x)
      (simp_all add: pack_public_key_def static_variant_roundtrip [OF array_codec]
        static_variant_roundtrip [OF webauthn_key_codec, of "(_, _, _)"])
next
  fix x bs k assume "public_key_ok x" "pack_public_key x = Inr bs" "k < length bs"
  then show "unpack_public_key (take k bs) = Inl out_of_range_exception"
    unfolding unpack_public_key_def
    by (cases x)
      (simp_all add: pack_public_key_def static_variant_truncated [OF array_codec]
        static_variant_truncated [OF webauthn_key_codec, of "(_, _, _)"])
qed

lemma key_weight_codec: "raw_codec pack_key_weight unpack_key_weight (\<lambda>k. public_key_ok (kw_key k))"
  unfolding pack_key_weight_def unpack_key_weight_def
  by (rule reflected_codec, (rule raw_codecs raw_public_key.raw_codec_axioms)+) auto

definition signing_authority_ok :: "block_signing_authority \<Rightarrow> bool" where
  "signing_authority_ok a \<longleftrightarrow> list_all (\<lambda>k. public_key_ok (kw_key k)) (bsa_keys a)"

definition schedule_keys_ok :: "producer_authority_schedule \<Rightarrow> bool" where
  "schedule_keys_ok s \<longleftrightarrow> list_all (\<lambda>p. signing_authority_ok (pa_authority p)) (producers s)"

lemma signing_authority_v0_codec:
  "raw_codec (pack_as (\<lambda>a. (bsa_threshold a, bsa_keys a)) (pack_pair pack_scalar (pack_vector pack_key_weight)))
     (unpack_as (\<lambda>(t, ks). \<lparr>bsa_threshold = t, bsa_keys = ks\<rparr>) (unpack_pair unpack_scalar (unpack_vector unpack_key_weight)))
     signing_authority_ok"
  by (rule reflected_codec, (rule raw_codecs key_weight_codec)+) (auto simp: signing_authority_ok_def)

lemma signing_authority_codec: "raw_codec pack_block_signing_authority unpack_block_signing_authority signing_authority_ok"
proof (rule raw_codecI)
  fix x bs rest assume "signing_authority_ok x" "pack_block_signing_authority x = Inr bs"
  then show "unpack_block_signing_authority (bs @ rest) = Inr (x, rest)"
    unfolding unpack_block_signing_authority_def pack_block_signing_authority_def
    using raw_codec.roundtrip [OF signing_authority_v0_codec, of x _ rest]
    by (auto simp: pack_static_variant_def unpack_static_variant_def simp del: res_bind_eq_Inr)
next
  fix x bs k assume x: "signing_authority_ok x" "pack_block_signing_authority x = Inr bs" and k: "k < length bs"
  obtain ba bb where b: "pack_unsigned_int 0 = Inr ba"
      "pack_as (\<lambda>a. (bsa_threshold a, bsa_keys a)) (pack_pair pack_scalar (pack_vector pack_key_weight)) x = Inr bb" "bs = ba @ bb"
    using x(2) by (auto simp: pack_block_signing_authority_def pack_static_variant_def)
  from k b(3) have "k < length (ba @ bb)" by simp
  then show "unpack_block_signing_authority (take k bs) = Inl out_of_range_exception"
    unfolding unpack_block_signing_authority_def b(3)
    by (cases rule: raw_unsigned_int.truncated_append [OF TrueI b(1)])
      (use raw_codec.truncated [OF signing_authority_v0_codec x(1) b(2)] in \<open>auto simp: unpack_static_variant_def\<close>)
qed

lemma producer_authority_codec:
  "raw_codec pack_producer_authority unpack_producer_authority (\<lambda>p. signing_authority_ok (pa_authority p))"
  unfolding pack_producer_authority_def unpack_producer_authority_def
  by (rule reflected_codec, (rule raw_codecs signing_authority_codec)+) auto

interpretation raw_schedule: raw_codec pack_schedule unpack_schedule schedule_keys_ok
  unfolding pack_schedule_def unpack_schedule_def
  by (rule reflected_codec, (rule raw_codecs producer_authority_codec)+) (auto simp: schedule_keys_ok_def)

end
