(* ===== verification/Block_Header.thy ===== *)
theory Block_Header
  imports Key_Codec Protocol_Features
begin

unbundle bit_operations_syntax

text \<open>
  Block time stamps (\<open>block_timestamp.hpp\<close>), block headers with their ids and extensions
  (\<open>block_header.hpp\<close>, \<open>block_header.cpp\<close>, \<open>emplace_extension\<close> of \<open>types.hpp\<close>) and the protocol
  feature activation extension (\<open>protocol_feature_activation.hpp\<close>, \<open>.cpp\<close>).

  The data of the two header extensions are read and written with the codecs of \<open>Key_Codec\<close>.
  Hashing and the recovery of a public key from a signature are the fields of a record \<open>crypto\<close>,
  a parameter of the definitions.
\<close>

section \<open>Time stamps\<close>

definition block_interval_ms :: nat where
  "block_interval_ms = 500"

definition block_timestamp_epoch :: nat where
  "block_timestamp_epoch = 946684800000"

text \<open>A block time stamp is its slot; \<open>next\<close> refuses to wrap.\<close>

type_synonym block_timestamp_type = u32

definition timestamp_next :: "block_timestamp_type \<Rightarrow> block_timestamp_type res" where
  "timestamp_next slot = INE_ASSERT (1 \<le> (- 1) - slot) fc_overflow_exception (Inr (slot + 1))"

text \<open>
  \<open>operator fc::time_point\<close>: microseconds since 1970 in 64-bit arithmetic.
\<close>

definition to_time_point :: "block_timestamp_type \<Rightarrow> i64" where
  "to_time_point slot =
     (ucast slot * of_nat block_interval_ms + of_nat block_timestamp_epoch) * 1000"

text \<open>
  \<open>set_time_point\<close>: \<open>count() / 1000\<close> is a signed division; the subtraction of the unsigned epoch
  and the division by the interval are unsigned, and the result is truncated to the slot.
\<close>

definition set_time_point :: "i64 \<Rightarrow> block_timestamp_type" where
  "set_time_point micro =
     (let msec = (word_of_int (sgn (sint micro) * (\<bar>sint micro\<bar> div 1000)) :: u64)
      in ucast ((msec - of_nat block_timestamp_epoch) div of_nat block_interval_ms))"

definition set_time_point_sec :: "u32 \<Rightarrow> block_timestamp_type" where
  "set_time_point_sec sec =
     ucast (((ucast sec :: u64) * 1000 - of_nat block_timestamp_epoch) div of_nat block_interval_ms)"

section \<open>Extensions\<close>

definition emplace_extension :: "u16 \<Rightarrow> bytes \<Rightarrow> extensions_type \<Rightarrow> extensions_type" where
  "emplace_extension eid data exts =
     (let k = length (takeWhile (\<lambda>ext. \<not> eid < fst ext) exts)
      in take k exts @ [(eid, data)] @ drop k exts)"

datatype block_header_extension =
    protocol_feature_activation "digest_type list"
  | producer_schedule_change_extension producer_authority_schedule

definition protocol_feature_activation_id :: u16 where
  "protocol_feature_activation_id = 0"

definition producer_schedule_change_id :: u16 where
  "producer_schedule_change_id = 1"

text \<open>\<open>protocol_feature_activation::reflector_init\<close>, run when the extension is unpacked.\<close>

definition activation_reflector_init :: "digest_type list \<Rightarrow> unit res" where
  "activation_reflector_init features =
     INE_ASSERT (0 < length features) ill_formed_protocol_feature_activation
     (INE_ASSERT (distinct features) ill_formed_protocol_feature_activation (Inr ()))"

definition pack_activation :: "digest_type list packer" where
  "pack_activation = pack_vector pack_sha256"

definition unpack_activation :: "digest_type list unpacker" where
  "unpack_activation ds =
     res_bind (unpack_vector unpack_sha256 ds) (\<lambda>(features, rest).
     res_bind (activation_reflector_init features) (\<lambda>_. Inr (features, rest)))"

text \<open>
  The constructor of \<open>protocol_feature_activation_set\<close> from an old set and additional features:
  the union, which must be disjoint when \<open>enforce_disjoint\<close> is set.
\<close>

definition protocol_feature_activation_set ::
  "digest_type set \<Rightarrow> digest_type list \<Rightarrow> bool \<Rightarrow> digest_type set res" where
  "protocol_feature_activation_set orig additional enforce_disjoint =
     (let pf = orig \<union> set additional in
      INE_ASSERT (\<not> enforce_disjoint \<or> card pf = card orig + length additional)
        invalid_block_header_extension (Inr pf))"

section \<open>Headers\<close>

record block_header =
  timestamp :: block_timestamp_type
  producer :: account_name
  confirmed :: u16
  previous :: block_id_type
  transaction_mroot :: digest_type
  action_mroot :: digest_type
  schedule_version :: u32
  new_producers :: "legacy_producer_schedule option"
  header_extensions :: extensions_type

record signed_block_header = block_header +
  producer_signature :: signature_type

text \<open>
  The operations outside the chain library: SHA-256 of a packed header, of a pair of digests
  and of packed schedules, and key recovery.
\<close>

record crypto =
  hash_header :: "block_header \<Rightarrow> digest_type"
  hash_pair :: "digest_type \<times> digest_type \<Rightarrow> digest_type"
  hash_legacy_schedule :: "legacy_producer_schedule \<Rightarrow> digest_type"
  hash_schedule :: "producer_authority_schedule \<Rightarrow> digest_type"
  recover_key :: "signature_type \<Rightarrow> digest_type \<Rightarrow> public_key_type res"

definition header_digest :: "crypto \<Rightarrow> signed_block_header \<Rightarrow> digest_type" where
  "header_digest C h = hash_header C (block_header.truncate h)"

definition num_from_id :: "block_id_type \<Rightarrow> u32" where
  "num_from_id i = endian_reverse_u32 (ucast (hash0 i))"

definition header_block_num :: "'a block_header_scheme \<Rightarrow> u32" where
  "header_block_num h = num_from_id (previous h) + 1"

definition header_id :: "crypto \<Rightarrow> signed_block_header \<Rightarrow> block_id_type" where
  "header_id C h =
     (let d = header_digest C h in
      sha256 ((hash0 d AND 0xffffffff00000000) + ucast (endian_reverse_u32 (header_block_num h)))
        (hash1 d) (hash2 d) (hash3 d))"

text \<open>
  \<open>decompose_t::extract\<close>: the extension with this id, unpacked, or \<open>None\<close> when the id is not
  supported. Both supported extensions set \<open>enforce_unique\<close>.
\<close>

definition extract_extension :: "u16 \<Rightarrow> bytes \<Rightarrow> block_header_extension option res" where
  "extract_extension i data =
     (if i = protocol_feature_activation_id then
        res_bind (unpack_all unpack_activation data) (\<lambda>features. Inr (Some (protocol_feature_activation features)))
      else if i = producer_schedule_change_id then
        res_bind (unpack_all unpack_schedule data) (\<lambda>sched. Inr (Some (producer_schedule_change_extension sched)))
      else Inr None)"

text \<open>
  The loop of \<open>validate_and_extract_header_extensions\<close>: \<open>first\<close> says that \<open>i = 0\<close> and \<open>bound\<close> is
  \<open>id_type_lower_bound\<close>. As the ids ascend, the \<open>flat_multimap\<close> keeps the order of the header.
\<close>

fun extract_loop :: "bool \<Rightarrow> u16 \<Rightarrow> extensions_type \<Rightarrow> (u16 \<times> block_header_extension) list res" where
  "extract_loop first bound [] = Inr []"
| "extract_loop first bound ((i, data) # exts) =
     INE_ASSERT (bound \<le> i) invalid_block_header_extension
     (res_bind (extract_extension i data) (\<lambda>match.
      case match of None \<Rightarrow> Inl invalid_block_header_extension
      | Some x \<Rightarrow>
          INE_ASSERT (first \<or> bound < i) invalid_block_header_extension
          (res_bind (extract_loop False i exts) (\<lambda>rest. Inr ((i, x) # rest)))))"

definition validate_and_extract_header_extensions ::
  "signed_block_header \<Rightarrow> (u16 \<times> block_header_extension) list res" where
  "validate_and_extract_header_extensions h = extract_loop True 0 (header_extensions h)"

text \<open>\<open>count\<close> and \<open>lower_bound\<close> of the multimap of extensions.\<close>

definition exts_count :: "u16 \<Rightarrow> (u16 \<times> block_header_extension) list \<Rightarrow> nat" where
  "exts_count i exts = length (filter (\<lambda>x. fst x = i) exts)"

definition exts_lower_bound :: "u16 \<Rightarrow> (u16 \<times> block_header_extension) list \<Rightarrow> block_header_extension option" where
  "exts_lower_bound i exts = map_option snd (find (\<lambda>x. i \<le> fst x) exts)"

section \<open>The block number in the id\<close>

lemma low_half_of_masked: "(ucast ((a AND 0xffffffff00000000) + ucast (w :: u32)) :: u32) = w" for a :: u64
proof -
  have m: "(0xffffffff00000000 :: u64) = push_bit 32 (mask 32)"
    by (simp add: mask_eq_exp_minus_1 push_bit_eq_mult)
  have dis: "(a AND 0xffffffff00000000) AND ucast w = (0 :: u64)"
    unfolding m by (rule bit_word_eqI) (auto simp: bit_simps dest: bit_imp_le_length)
  have "(a AND 0xffffffff00000000) + ucast w = (a AND 0xffffffff00000000) OR ucast w"
    using dis by (rule disjunctive_add_eq_or)
  then show ?thesis
    unfolding m by (intro bit_word_eqI) (auto simp: bit_simps)
qed

lemma num_from_id_header_id [simp]: "num_from_id (header_id C h) = header_block_num h"
  by (simp add: num_from_id_def header_id_def Let_def low_half_of_masked endian_reverse_u32_involution)

text \<open>
  C26. The id of a block carries its number: the id of a header built on a block whose id carries
  the number \<open>n\<close> carries \<open>n + 1\<close>, whatever the header's hash is, so along a chain of headers the
  ids count the blocks.
\<close>

theorem num_from_header_id:
  assumes "num_from_id (previous h) = n"
  shows "num_from_id (header_id C h) = n + 1"
  using assms by (simp add: header_block_num_def)

theorem num_from_header_id_witness:
  "\<forall>C. num_from_id (header_id C \<lparr>timestamp = 3, producer = 1, confirmed = 0, previous = sha256 0x09000000 0 0 0,
     transaction_mroot = zero_digest, action_mroot = zero_digest, schedule_version = 0, new_producers = None,
     header_extensions = [], producer_signature = SIG_K1 []\<rparr>) = 10"
proof -
  have "num_from_id (sha256 0x09000000 0 0 0) = 9" by code_simp
  then show ?thesis
    using num_from_header_id [of "\<lparr>timestamp = 3, producer = 1, confirmed = 0, previous = sha256 0x09000000 0 0 0,
      transaction_mroot = zero_digest, action_mroot = zero_digest, schedule_version = 0, new_producers = None,
      header_extensions = [], producer_signature = SIG_K1 []\<rparr>" 9 C] by simp
qed

section \<open>Slots and time points\<close>

lemma ucast_eqI: "unat (q :: u64) = unat (w :: u32) \<Longrightarrow> ucast q = w"
proof -
  assume "unat q = unat w"
  then have "(word_of_nat (unat q) :: u32) = word_of_nat (unat w)" by (simp only:)
  then show ?thesis by simp
qed

lemma trunc_div_nonneg: "sgn (int n) * (\<bar>int n\<bar> div 1000) = int (n div 1000)"
  by (cases "n = 0") (simp_all add: zdiv_int)

lemma unat_to_time_point:
  "unat (to_time_point slot) = (unat slot * block_interval_ms + block_timestamp_epoch) * 1000"
proof -
  have lt: "unat slot < 2 ^ 32" using unat_lt2p [of slot] by simp
  let ?n = "(unat slot * block_interval_ms + block_timestamp_epoch) * 1000"
  have "to_time_point slot = of_nat ?n"
    by (simp add: to_time_point_def)
  moreover have "?n < 2 ^ LENGTH(64)"
    using lt by (simp add: block_interval_ms_def block_timestamp_epoch_def)
  ultimately show ?thesis by (simp only: unat_word_of_nat_eq)
qed

lemma sint_to_time_point:
  "sint (to_time_point slot) = int ((unat slot * block_interval_ms + block_timestamp_epoch) * 1000)"
proof -
  have "unat (to_time_point slot) < 2 ^ (LENGTH(64) - 1)"
    using unat_lt2p [of slot] by (simp add: unat_to_time_point block_interval_ms_def block_timestamp_epoch_def)
  then have "sint (word_of_nat (unat (to_time_point slot)) :: i64) = int (unat (to_time_point slot))"
    by (rule sint_word_of_nat)
  then show ?thesis by (simp only: unat_to_time_point [symmetric]) simp
qed

text \<open>
  C27. Slots and time points agree: the time point of a slot is exactly 500 ms times the slot
  after the epoch (year 2000), in microseconds and without overflow for any slot, so later slots
  have later time points; converting it back gives the slot, and so does every time point
  within the slot's half second.
\<close>

theorem set_time_point_of_slot:
  assumes "0 \<le> offset" and "offset < 500000"
  shows "sint (to_time_point slot) = (int (unat slot) * 500 + 946684800000) * 1000
    \<and> set_time_point (to_time_point slot + word_of_int offset) = slot"
proof -
  let ?n = "unat slot * block_interval_ms + block_timestamp_epoch"
  have lt: "unat slot < 2 ^ 32" using unat_lt2p [of slot] by simp
  define k where "k = nat offset"
  have k: "k < 500000" and off: "(word_of_int offset :: i64) = of_nat k"
    using assms by (simp_all add: k_def)
  have t: "to_time_point slot + word_of_int offset = (of_nat (?n * 1000 + k) :: i64)"
    by (simp add: to_time_point_def off)
  have "?n * 1000 + k < 2 ^ (LENGTH(64) - 1)"
    using lt k by (simp add: block_interval_ms_def block_timestamp_epoch_def)
  then have s: "sint (to_time_point slot + word_of_int offset) = int (?n * 1000 + k)"
    unfolding t by (rule sint_word_of_nat)
  have "(?n * 1000 + k) div 1000 = ?n + k div 1000" by simp
  then have msec: "word_of_int (sgn (int (?n * 1000 + k)) * (\<bar>int (?n * 1000 + k)\<bar> div 1000))
      = (of_nat (?n + k div 1000) :: u64)"
    by (simp only: trunc_div_nonneg of_int_of_nat_eq)
  have "of_nat (?n + k div 1000) - of_nat block_timestamp_epoch
      = (of_nat (unat slot * 500 + k div 1000) :: u64)"
    by (simp add: block_interval_ms_def)
  moreover have "unat ((of_nat (unat slot * 500 + k div 1000) :: u64) div of_nat block_interval_ms) = unat slot"
  proof -
    have "unat slot * 500 + k div 1000 < 2 ^ LENGTH(64)" using lt k by simp
    then have "unat (of_nat (unat slot * 500 + k div 1000) :: u64) = unat slot * 500 + k div 1000"
      by (rule unat_word_of_nat_eq)
    moreover have "k div 1000 < 500" using k by (simp add: less_mult_imp_div_less)
    ultimately show ?thesis by (simp add: unat_div block_interval_ms_def del: of_nat_add of_nat_mult)
  qed
  ultimately have "unat ((of_nat (?n + k div 1000) - of_nat block_timestamp_epoch :: u64) div of_nat block_interval_ms)
      = unat slot" by (simp only:)
  then have "set_time_point (to_time_point slot + word_of_int offset) = slot"
    unfolding set_time_point_def s Let_def msec by (rule ucast_eqI)
  then show ?thesis
    using sint_to_time_point [of slot] by (simp add: block_interval_ms_def block_timestamp_epoch_def)
qed

theorem set_time_point_of_slot_witness:
  "set_time_point (to_time_point 1000000000 + word_of_int 499999) = 1000000000"
  using set_time_point_of_slot [of 499999 1000000000] by simp

end
