(* ===== verification/Block_Header_State.thy ===== *)
theory Block_Header_State
  imports Block_Header Merkle
begin

text \<open>
  The consensus state that goes with a block header (\<open>block_header_state.hpp\<close>, \<open>.cpp\<close>): the
  schedule of producers, the count of DPoS confirmations, the last irreversible block, pending
  schedules and the check of block signatures. \<open>next\<close> computes the template of the following
  block and \<open>finish_next\<close> checks a header against it.

  A \<open>flat_map\<close> is a sorted list of pairs, the set of activated protocol features a set, and the
  validator of new features, the signer and the \<open>crypto\<close> operations are parameters. The hash
  of the Merkle tree is \<open>hash_pair\<close>.
\<close>

section \<open>State\<close>

definition producer_repetitions :: nat where
  "producer_repetitions = 1"

definition maximum_tracked_dpos_confirmations :: nat where
  "maximum_tracked_dpos_confirmations = 1024"

record schedule_info =
  schedule_lib_num :: u32
  schedule_hash :: digest_type
  schedule :: producer_authority_schedule

record block_header_state_common =
  block_num :: u32
  dpos_proposed_irreversible_blocknum :: u32
  dpos_irreversible_blocknum :: u32
  active_schedule :: producer_authority_schedule
  blockroot_merkle :: incremental_merkle
  producer_to_last_produced :: "(account_name, u32) flat_map"
  producer_to_last_implied_irb :: "(account_name, u32) flat_map"
  valid_block_signing_authority :: block_signing_authority
  confirm_count :: "u8 list"

record pending_block_header_state = block_header_state_common +
  prev_activated_protocol_features :: "digest_type set"
  prev_pending_schedule :: schedule_info
  was_pending_promoted :: bool
  pb_previous :: block_id_type
  pb_producer :: account_name
  pb_timestamp :: block_timestamp_type
  active_schedule_version :: u32
  pb_confirmed :: u16

record block_header_state = block_header_state_common +
  bhs_id :: block_id_type
  header :: signed_block_header
  pending_schedule :: schedule_info
  activated_protocol_features :: "digest_type set"
  additional_signatures :: "signature_type list"
  header_exts :: "(u16 \<times> block_header_extension) list"

type_synonym feature_validator = "block_timestamp_type \<Rightarrow> digest_type set \<Rightarrow> digest_type list \<Rightarrow> unit res"

section \<open>Operations\<close>

definition detail_is_builtin_activated ::
  "digest_type set \<Rightarrow> protocol_feature_set \<Rightarrow> builtin_protocol_feature_t \<Rightarrow> bool" where
  "detail_is_builtin_activated pfa pfs c =
     (case get_builtin_digest c pfs of None \<Rightarrow> False | Some d \<Rightarrow> d \<in> pfa)"

definition get_scheduled_producer ::
  "block_timestamp_type \<Rightarrow> 'a block_header_state_common_scheme \<Rightarrow> producer_authority res" where
  "get_scheduled_producer t s =
     (let ps = producers (active_schedule s) in
      if length ps * producer_repetitions = 0 then Inl undefined_behaviour
      else (let index = unat t mod (length ps * producer_repetitions);
                index = index div producer_repetitions
            in Inr (ps ! index)))"

text \<open>The vector \<open>blocknums\<close> and the element that \<open>std::nth_element\<close> puts at its index.\<close>

definition implied_blocknums :: "account_name \<Rightarrow> 'a block_header_state_common_scheme \<Rightarrow> u32 list" where
  "implied_blocknums producer_of_next_block s =
     map (\<lambda>(p, b). if p = producer_of_next_block then dpos_proposed_irreversible_blocknum s else b)
       (producer_to_last_implied_irb s)"

definition calc_dpos_last_irreversible :: "account_name \<Rightarrow> 'a block_header_state_common_scheme \<Rightarrow> u32" where
  "calc_dpos_last_irreversible producer_of_next_block s =
     (let blocknums = implied_blocknums producer_of_next_block s in
      if length blocknums = 0 then 0
      else (let index = (length blocknums - 1) div 3 in sort blocknums ! index))"

text \<open>
  The \<open>while\<close> loop of \<open>next\<close> over \<open>confirm_count\<close>, from its last element down: position \<open>i\<close> is the
  first argument minus one. It returns the counts and the proposed irreversible block.
\<close>

fun confirm_loop :: "nat \<Rightarrow> u32 \<Rightarrow> u8 list \<Rightarrow> u32 \<Rightarrow> u32 \<Rightarrow> u8 list \<times> u32" where
  "confirm_loop 0 blocks_to_confirm cc new_block_num proposed = (cc, proposed)"
| "confirm_loop (Suc i) blocks_to_confirm cc new_block_num proposed =
     (if blocks_to_confirm = 0 then (cc, proposed)
      else (let cc = cc[i := cc ! i - 1] in
        if cc ! i = 0 then
          (drop (Suc i) cc, new_block_num - of_nat (length cc - 1 - i))
        else confirm_loop i (blocks_to_confirm - 1) cc new_block_num proposed))"

text \<open>The counts with room for the new block: the oldest is dropped at the tracking limit.\<close>

definition grow_confirm_count :: "u8 \<Rightarrow> u8 list \<Rightarrow> u8 list" where
  "grow_confirm_count required cc =
     (if length cc < maximum_tracked_dpos_confirmations then cc @ [required]
      else drop 1 cc @ [required])"

text \<open>The two loops of \<open>next\<close> that carry per-producer data over to a promoted schedule.\<close>

definition promoted_map ::
  "account_name \<Rightarrow> u32 \<Rightarrow> u32 \<Rightarrow> (account_name, u32) flat_map \<Rightarrow> producer_authority list \<Rightarrow> (account_name, u32) flat_map" where
  "promoted_map prd mine irreversible old ps =
     fold (\<lambda>pro m.
        flat_map_set (producer_name pro)
          (if producer_name pro = prd then mine
           else case map_of old (producer_name pro) of Some b \<Rightarrow> b | None \<Rightarrow> irreversible) m) ps []"

definition bhs_next ::
  "crypto \<Rightarrow> block_timestamp_type \<Rightarrow> u16 \<Rightarrow> block_header_state \<Rightarrow> pending_block_header_state res" where
  "bhs_next C when0 num_prev_blocks_to_confirm s =
     res_bind (if when0 \<noteq> 0
               then INE_ASSERT (timestamp (header s) < when0) block_validate_exception (Inr when0)
               else Inr (timestamp (header s) + 1)) (\<lambda>when.
     res_bind (get_scheduled_producer when s) (\<lambda>proauth.
     INE_ASSERT (case map_of (producer_to_last_produced s) (producer_name proauth) of
                   None \<Rightarrow> True
                 | Some last_produced \<Rightarrow> last_produced < (block_num s + 1) - ucast num_prev_blocks_to_confirm)
       producer_double_confirm
     (case merkle_append (hash_pair C) (bhs_id s) (blockroot_merkle s) of
        None \<Rightarrow> Inl undefined_behaviour
      | Some merkle' \<Rightarrow>
     (let new_block_num = block_num s + 1;
          required_confs = (of_nat (length (producers (active_schedule s)) * 2 div 3 + 1) :: u32);
          cc = grow_confirm_count (ucast required_confs) (confirm_count s);
          (cc, proposed) = confirm_loop (length cc) (ucast num_prev_blocks_to_confirm + 1) cc new_block_num
             (dpos_proposed_irreversible_blocknum s);
          irreversible = calc_dpos_last_irreversible (producer_name proauth) s;
          promote = (producers (schedule (pending_schedule s)) \<noteq> []
                     \<and> schedule_lib_num (pending_schedule s) \<le> irreversible);
          sched = (if promote then schedule (pending_schedule s) else active_schedule s);
          last_produced = flat_map_set (producer_name proauth) new_block_num
            (if promote then promoted_map (producer_name proauth) new_block_num irreversible
               (producer_to_last_produced s) (producers sched)
             else producer_to_last_produced s);
          implied = (if promote then promoted_map (producer_name proauth) (dpos_proposed_irreversible_blocknum s)
               irreversible (producer_to_last_implied_irb s) (producers sched)
             else flat_map_set (producer_name proauth) (dpos_proposed_irreversible_blocknum s)
               (producer_to_last_implied_irb s))
      in Inr \<lparr>block_num = new_block_num,
              dpos_proposed_irreversible_blocknum = proposed,
              dpos_irreversible_blocknum = irreversible,
              active_schedule = sched,
              blockroot_merkle = merkle',
              producer_to_last_produced = last_produced,
              producer_to_last_implied_irb = implied,
              valid_block_signing_authority = pa_authority proauth,
              confirm_count = cc,
              prev_activated_protocol_features = activated_protocol_features s,
              prev_pending_schedule = pending_schedule s,
              was_pending_promoted = promote,
              pb_previous = bhs_id s,
              pb_producer = producer_name proauth,
              pb_timestamp = when,
              active_schedule_version = version (active_schedule s),
              pb_confirmed = num_prev_blocks_to_confirm\<rparr>))))"

text \<open>A schedule in the legacy form: the first key of every producer.\<close>

definition downgraded_producers :: "producer_authority_schedule \<Rightarrow> legacy_producer_schedule res" where
  "downgraded_producers sched =
     INE_ASSERT (\<forall>q \<in> set (producers sched).
          length (bsa_keys (pa_authority q)) = 1
          \<and> ucast (kw_weight (hd (bsa_keys (pa_authority q)))) = bsa_threshold (pa_authority q))
       producer_schedule_exception
     (Inr \<lparr>lps_version = version sched,
           lps_producers = map (\<lambda>q. \<lparr>pk_producer_name = producer_name q,
             block_signing_key = kw_key (hd (bsa_keys (pa_authority q)))\<rparr>) (producers sched)\<rparr>)"

definition make_block_header ::
  "digest_type \<Rightarrow> digest_type \<Rightarrow> producer_authority_schedule option \<Rightarrow> digest_type list
   \<Rightarrow> protocol_feature_set \<Rightarrow> signature_type \<Rightarrow> pending_block_header_state \<Rightarrow> signed_block_header res" where
  "make_block_header tx_mroot act_mroot new_prods new_features pfs default_signature p =
     (let h = \<lparr>timestamp = pb_timestamp p, producer = pb_producer p, confirmed = pb_confirmed p,
               previous = pb_previous p, transaction_mroot = tx_mroot, action_mroot = act_mroot,
               schedule_version = active_schedule_version p, new_producers = None,
               header_extensions = [], producer_signature = default_signature\<rparr> in
     res_bind (if 0 < length new_features
               then res_bind (pack_activation new_features) (\<lambda>data.
                 Inr (h\<lparr>header_extensions := emplace_extension protocol_feature_activation_id data (header_extensions h)\<rparr>))
               else Inr h) (\<lambda>h.
     case new_prods of None \<Rightarrow> Inr h
     | Some sched \<Rightarrow>
         if detail_is_builtin_activated (prev_activated_protocol_features p) pfs wtmsig_block_signatures
         then res_bind (pack_schedule sched) (\<lambda>data.
           Inr (h\<lparr>header_extensions := emplace_extension producer_schedule_change_id data (header_extensions h)\<rparr>))
         else res_bind (downgraded_producers sched) (\<lambda>np. Inr (h\<lparr>new_producers := Some np\<rparr>))))"

text \<open>
  The part of \<open>_finish_next\<close> that determines a newly proposed schedule and its hash, in the
  order of the code: first the legacy field, then the extension, which overrides it.
\<close>

definition check_new_schedule :: "u32 \<Rightarrow> pending_block_header_state \<Rightarrow> 'a res \<Rightarrow> 'a res" where
  "check_new_schedule new_version p k =
     INE_ASSERT (\<not> was_pending_promoted p) producer_schedule_exception
     (INE_ASSERT (new_version = version (active_schedule p) + 1) producer_schedule_exception
     (INE_ASSERT (producers (schedule (prev_pending_schedule p)) = []) producer_schedule_exception k))"

definition new_schedule_of ::
  "crypto \<Rightarrow> signed_block_header \<Rightarrow> (u16 \<times> block_header_extension) list \<Rightarrow> protocol_feature_set
   \<Rightarrow> pending_block_header_state \<Rightarrow> (producer_authority_schedule \<times> digest_type) option res" where
  "new_schedule_of C h exts pfs p =
     (let wtmsig_enabled = ((new_producers h \<noteq> None \<or> 0 < exts_count producer_schedule_change_id exts)
            \<and> detail_is_builtin_activated (prev_activated_protocol_features p) pfs wtmsig_block_signatures) in
     res_bind (case new_producers h of None \<Rightarrow> Inr None
               | Some np \<Rightarrow>
                   INE_ASSERT (\<not> wtmsig_enabled) producer_schedule_exception
                   (check_new_schedule (lps_version np) p
                     (Inr (Some (schedule_of_legacy np, hash_legacy_schedule C np))))) (\<lambda>maybe_new.
     if 0 < exts_count producer_schedule_change_id exts then
       INE_ASSERT wtmsig_enabled producer_schedule_exception
       (INE_ASSERT (\<not> was_pending_promoted p) producer_schedule_exception
       (case exts_lower_bound producer_schedule_change_id exts of
          Some (producer_schedule_change_extension sched) \<Rightarrow>
            check_new_schedule (version sched) p (Inr (Some (sched, hash_schedule C sched)))
        | _ \<Rightarrow> Inl fc_assert_exception))
     else Inr maybe_new))"

text \<open>
  The activation of protocol features. The code asks \<open>exts.count(extension_id() > 0)\<close>, with the
  comparison inside the argument: the key it counts is \<open>false\<close>, that is 0, which happens to be
  the id of the activation extension.
\<close>

definition new_activated_features ::
  "(u16 \<times> block_header_extension) list \<Rightarrow> feature_validator \<Rightarrow> pending_block_header_state \<Rightarrow> digest_type set res" where
  "new_activated_features exts validator p =
     (if 0 < exts_count (if 0 < protocol_feature_activation_id then 1 else 0) exts then
        (case exts_lower_bound protocol_feature_activation_id exts of
           Some (protocol_feature_activation features) \<Rightarrow>
             res_bind (validator (pb_timestamp p) (prev_activated_protocol_features p) features) (\<lambda>_.
             protocol_feature_activation_set (prev_activated_protocol_features p) features True)
         | _ \<Rightarrow> Inl fc_assert_exception)
      else Inr (prev_activated_protocol_features p))"

definition finish_pending_schedule ::
  "(producer_authority_schedule \<times> digest_type) option \<Rightarrow> pending_block_header_state \<Rightarrow> schedule_info" where
  "finish_pending_schedule maybe_new p =
     (case maybe_new of
        Some (sched, h) \<Rightarrow> \<lparr>schedule_lib_num = block_num p, schedule_hash = h, schedule = sched\<rparr>
      | None \<Rightarrow>
          \<lparr>schedule_lib_num = schedule_lib_num (prev_pending_schedule p),
           schedule_hash = schedule_hash (prev_pending_schedule p),
           schedule = (if was_pending_promoted p
                       then empty_schedule\<lparr>version := version (schedule (prev_pending_schedule p))\<rparr>
                       else schedule (prev_pending_schedule p))\<rparr>)"

definition finish_next_base ::
  "crypto \<Rightarrow> signed_block_header \<Rightarrow> protocol_feature_set \<Rightarrow> feature_validator
   \<Rightarrow> pending_block_header_state \<Rightarrow> block_header_state res" where
  "finish_next_base C h pfs validator p =
     INE_ASSERT (timestamp h = pb_timestamp p) block_validate_exception
     (INE_ASSERT (previous h = pb_previous p) unlinkable_block_exception
     (INE_ASSERT (confirmed h = pb_confirmed p) block_validate_exception
     (INE_ASSERT (producer h = pb_producer p) wrong_producer
     (INE_ASSERT (schedule_version h = active_schedule_version p) producer_schedule_exception
     (res_bind (validate_and_extract_header_extensions h) (\<lambda>exts.
      res_bind (new_schedule_of C h exts pfs p) (\<lambda>maybe_new.
      res_bind (new_activated_features exts validator p) (\<lambda>features.
      Inr (block_header_state_common.extend (block_header_state_common.truncate p)
        (block_header_state.fields (header_id C h) h (finish_pending_schedule maybe_new p) features [] exts))))))))))"

text \<open>The loop of \<open>verify_signee\<close> over the additional signatures.\<close>

fun add_signing_keys :: "crypto \<Rightarrow> digest_type \<Rightarrow> signature_type list \<Rightarrow> public_key_type set \<Rightarrow> public_key_type set res" where
  "add_signing_keys C d [] ks = Inr ks"
| "add_signing_keys C d (sig # sigs) ks =
     res_bind (recover_key C sig d) (\<lambda>k.
     INE_ASSERT (k \<notin> ks) wrong_signing_key (add_signing_keys C d sigs (insert k ks)))"

definition sig_digest :: "crypto \<Rightarrow> block_header_state \<Rightarrow> digest_type" where
  "sig_digest C s =
     (let header_bmroot = hash_pair C (header_digest C (header s), get_root (blockroot_merkle s))
      in hash_pair C (header_bmroot, schedule_hash (pending_schedule s)))"

definition verify_signee :: "crypto \<Rightarrow> block_header_state \<Rightarrow> unit res" where
  "verify_signee C s =
     (let auth = valid_block_signing_authority s; digest = sig_digest C s in
     INE_ASSERT (1 + length (additional_signatures s) \<le> length (bsa_keys auth)) wrong_signing_key
     (res_bind (recover_key C (producer_signature (header s)) digest) (\<lambda>k.
      res_bind (add_signing_keys C digest (additional_signatures s) {k}) (\<lambda>ks.
      (let (is_satisfied, relevant_sig_count) = keys_satisfy_and_relevant ks auth in
      INE_ASSERT (relevant_sig_count = card ks) wrong_signing_key
      (INE_ASSERT is_satisfied wrong_signing_key (Inr ())))))))"

definition sign :: "crypto \<Rightarrow> (digest_type \<Rightarrow> signature_type list) \<Rightarrow> block_header_state \<Rightarrow> block_header_state res" where
  "sign C signer s =
     (let sigs = signer (sig_digest C s) in
     INE_ASSERT (sigs \<noteq> []) no_block_signatures
     (let s' = s\<lparr>header := (header s)\<lparr>producer_signature := last sigs\<rparr>, additional_signatures := butlast sigs\<rparr>
      in res_bind (verify_signee C s') (\<lambda>_. Inr s')))"

text \<open>\<open>finish_next\<close> for a received header, and for a header that is being produced and signed.\<close>

definition finish_next ::
  "crypto \<Rightarrow> signed_block_header \<Rightarrow> signature_type list \<Rightarrow> protocol_feature_set \<Rightarrow> feature_validator \<Rightarrow> bool
   \<Rightarrow> pending_block_header_state \<Rightarrow> block_header_state res" where
  "finish_next C h add_sigs pfs validator skip_validate_signee p =
     INE_ASSERT (add_sigs = []
         \<or> detail_is_builtin_activated (prev_activated_protocol_features p) pfs wtmsig_block_signatures)
       producer_schedule_exception
     (res_bind (finish_next_base C h pfs validator p) (\<lambda>result.
      (let result = (if add_sigs \<noteq> [] then result\<lparr>additional_signatures := add_sigs\<rparr> else result) in
      if skip_validate_signee then Inr result
      else res_bind (verify_signee C result) (\<lambda>_. Inr result))))"

definition finish_next_sign ::
  "crypto \<Rightarrow> signed_block_header \<Rightarrow> protocol_feature_set \<Rightarrow> feature_validator \<Rightarrow> (digest_type \<Rightarrow> signature_type list)
   \<Rightarrow> pending_block_header_state \<Rightarrow> (block_header_state \<times> signed_block_header) res" where
  "finish_next_sign C h pfs validator signer p =
     res_bind (finish_next_base C h pfs validator p) (\<lambda>result0.
     res_bind (sign C signer result0) (\<lambda>result.
     (let h' = h\<lparr>producer_signature := producer_signature (header result)\<rparr> in
     INE_ASSERT (additional_signatures result = []
         \<or> detail_is_builtin_activated (prev_activated_protocol_features p) pfs wtmsig_block_signatures)
       producer_schedule_exception (Inr (result, h')))))"

definition bhs_next_header ::
  "crypto \<Rightarrow> signed_block_header \<Rightarrow> signature_type list \<Rightarrow> protocol_feature_set \<Rightarrow> feature_validator \<Rightarrow> bool
   \<Rightarrow> block_header_state \<Rightarrow> block_header_state res" where
  "bhs_next_header C h add_sigs pfs validator skip_validate_signee s =
     res_bind (bhs_next C (timestamp h) (confirmed h) s)
       (finish_next C h add_sigs pfs validator skip_validate_signee)"

definition get_new_protocol_feature_activations :: "block_header_state \<Rightarrow> digest_type list res" where
  "get_new_protocol_feature_activations s =
     (if exts_count protocol_feature_activation_id (header_exts s) = 0 then Inr []
      else (case exts_lower_bound protocol_feature_activation_id (header_exts s) of
              Some (protocol_feature_activation features) \<Rightarrow> Inr features
            | _ \<Rightarrow> Inl fc_assert_exception))"

section \<open>The two-thirds rule\<close>

lemma sorted_nth_iff_count:
  fixes xs :: "'a::linorder list"
  assumes "sorted xs" and "k < length xs"
  shows "b \<le> xs ! k \<longleftrightarrow> length (filter (\<lambda>x. x < b) xs) \<le> k"
proof
  let ?I = "{i. i < length xs \<and> xs ! i < b}"
  have len: "length (filter (\<lambda>x. x < b) xs) = card ?I" by (simp add: length_filter_conv_card)
  {
    assume "b \<le> xs ! k"
    then have "?I \<subseteq> {..<k}"
      using assms by (auto simp: sorted_iff_nth_mono not_less) (meson leD leI order_trans)
    then have "card ?I \<le> card {..<k}" by (rule card_mono [OF finite_lessThan])
    then show "length (filter (\<lambda>x. x < b) xs) \<le> k" by (simp add: len)
  next
    assume le: "length (filter (\<lambda>x. x < b) xs) \<le> k"
    show "b \<le> xs ! k"
    proof (rule ccontr)
      assume "\<not> b \<le> xs ! k"
      then have "{..k} \<subseteq> ?I"
        using assms by (auto simp: sorted_iff_nth_mono not_le) (meson le_less_trans)
      then have "card {..k} \<le> card ?I" by (rule card_mono [rotated]) simp
      then show False using le by (simp add: len)
    qed
  }
qed

lemma third_arith:
  fixes n :: nat
  shows "0 < n \<Longrightarrow> l + g = n \<Longrightarrow> l \<le> (n - 1) div 3 \<longleftrightarrow> 2 * n < 3 * g"
  by (simp add: less_eq_div_iff_mult_less_eq) arith

text \<open>An element a third of the way up is the largest value that more than two thirds reach.\<close>

lemma nth_third_iff:
  fixes xs :: "'a::linorder list"
  assumes "xs \<noteq> []"
  shows "b \<le> sort xs ! ((length xs - 1) div 3) \<longleftrightarrow> 2 * length xs < 3 * length (filter (\<lambda>x. b \<le> x) xs)"
proof -
  let ?n = "length xs" and ?k = "(length xs - 1) div 3"
  have pos: "0 < ?n" using assms by simp
  then have k: "?k < length (sort xs)" by (simp only: length_sort)
  have "length (filter (\<lambda>x. x < b) (sort xs)) = length (filter (\<lambda>x. x < b) xs)"
    by (metis filter_sort length_sort)
  moreover have "length (filter (\<lambda>x. x < b) xs) + length (filter (\<lambda>x. b \<le> x) xs) = ?n"
    using sum_length_filter_compl [of "\<lambda>x. x < b" xs] by (simp add: not_less)
  moreover have "b \<le> sort xs ! ?k \<longleftrightarrow> length (filter (\<lambda>x. x < b) (sort xs)) \<le> ?k"
    using k by (intro sorted_nth_iff_count) simp_all
  ultimately show ?thesis using third_arith [OF pos] by simp
qed

text \<open>
  C2. The last irreversible block is the two-thirds consensus: \<open>calc_dpos_last_irreversible\<close>
  returns the largest block number that strictly more than two thirds of the producers have
  implied to be irreversible (the producer of the next block counts with the state's proposal).
\<close>

theorem calc_dpos_last_irreversible_two_thirds:
  assumes "producer_to_last_implied_irb s \<noteq> []"
  shows "b \<le> calc_dpos_last_irreversible prd s
    \<longleftrightarrow> 2 * length (implied_blocknums prd s) < 3 * length (filter (\<lambda>x. b \<le> x) (implied_blocknums prd s))"
proof -
  have "implied_blocknums prd s \<noteq> []" using assms by (simp add: implied_blocknums_def)
  then show ?thesis
    using nth_third_iff [of "implied_blocknums prd s" b] by (simp add: calc_dpos_last_irreversible_def Let_def)
qed

section \<open>Confirmations advance\<close>

definition max_producers :: nat where
  "max_producers = 102"

text \<open>
  What holds of the confirmation data of a state: every tracked count is positive, the tracked
  blocks all lie above the proposed irreversible block, and no producer has implied a block
  above it.
\<close>

definition dpos_ok :: "'a block_header_state_common_scheme \<Rightarrow> bool" where
  "dpos_ok s \<longleftrightarrow>
     0 \<notin> set (confirm_count s)
     \<and> length (confirm_count s) + unat (dpos_proposed_irreversible_blocknum s) \<le> unat (block_num s)
     \<and> (\<forall>b \<in> snd ` set (producer_to_last_implied_irb s). b \<le> dpos_proposed_irreversible_blocknum s)
     \<and> dpos_irreversible_blocknum s \<le> dpos_proposed_irreversible_blocknum s"

lemma confirm_loop_result:
  assumes "confirm_loop i btc cc nb pr = (cc', pr')" and "0 \<notin> set cc" and "i \<le> length cc"
  shows "0 \<notin> set cc' \<and> ((length cc' = length cc \<and> pr' = pr)
    \<or> (\<exists>j < i. length cc' = length cc - Suc j \<and> pr' = nb - of_nat (length cc - 1 - j)))"
  using assms
proof (induction i btc cc nb pr rule: confirm_loop.induct)
  case (1 btc cc nb pr)
  then show ?case by simp
next
  case (2 i btc cc nb pr)
  let ?cc = "cc[i := cc ! i - 1]"
  have sub: "set ?cc \<subseteq> insert (cc ! i - 1) (set cc)" by (rule set_update_subset_insert)
  consider "btc = 0" | "btc \<noteq> 0" "?cc ! i = 0" | "btc \<noteq> 0" "?cc ! i \<noteq> 0" by blast
  then show ?case
  proof cases
    case 1
    then show ?thesis using 2 by simp
  next
    case 2
    have "set (drop (Suc i) ?cc) \<subseteq> set cc" by (auto simp: drop_update_swap dest: in_set_dropD)
    then show ?thesis using 2 "2.prems" by (auto simp: Let_def)
  next
    case 3
    then have "0 \<notin> set ?cc" using sub "2.prems" by auto
    then show ?thesis
      using 2(1) [OF 3(1) refl 3(2)] 3 "2.prems" by (auto simp: Let_def intro: less_SucI)
  qed
qed

lemma calc_dpos_le:
  assumes "\<forall>b \<in> snd ` set (producer_to_last_implied_irb s). b \<le> dpos_proposed_irreversible_blocknum s"
  shows "calc_dpos_last_irreversible prd s \<le> dpos_proposed_irreversible_blocknum s"
proof (cases "implied_blocknums prd s = []")
  case False
  let ?xs = "implied_blocknums prd s"
  have "(length ?xs - 1) div 3 < length (sort ?xs)" using False by (cases ?xs) (simp_all add: less_Suc_eq_le)
  then have "sort ?xs ! ((length ?xs - 1) div 3) \<in> set ?xs" by (metis nth_mem set_sort)
  moreover have "\<forall>x \<in> set ?xs. x \<le> dpos_proposed_irreversible_blocknum s"
    using assms by (auto simp: implied_blocknums_def)
  ultimately show ?thesis using False by (simp add: calc_dpos_last_irreversible_def Let_def)
qed (simp add: calc_dpos_last_irreversible_def)

lemma fold_flat_map_values:
  "snd ` set (fold (\<lambda>x m. flat_map_set (k x) (g x) m) xs m0) \<subseteq> g ` set xs \<union> snd ` set m0"
proof (induction xs arbitrary: m0)
  case (Cons x xs)
  have "snd ` set (flat_map_set (k x) (g x) m0) \<subseteq> insert (g x) (snd ` set m0)"
    using flat_map_set_subset [of "k x" "g x" m0] by force
  then have step: "g ` set xs \<union> snd ` set (flat_map_set (k x) (g x) m0) \<subseteq> g ` set (x # xs) \<union> snd ` set m0"
    by auto
  show ?case
    using subset_trans [OF Cons.IH [of "flat_map_set (k x) (g x) m0"] step] by simp
qed simp

lemma promoted_map_values:
  "snd ` set (promoted_map prd mine irr old ps) \<subseteq> insert mine (insert irr (snd ` set old))"
proof -
  define g :: "producer_authority \<Rightarrow> u32" where "g pro = (if producer_name pro = prd then mine
         else case map_of old (producer_name pro) of Some b \<Rightarrow> b | None \<Rightarrow> irr)" for pro
  have "g pro \<in> insert mine (insert irr (snd ` set old))" for pro
    by (auto simp: g_def split: option.splits dest: map_of_SomeD intro: rev_image_eqI)
  then have "g ` set ps \<subseteq> insert mine (insert irr (snd ` set old))" by blast
  moreover have "promoted_map prd mine irr old ps = fold (\<lambda>pro m. flat_map_set (producer_name pro) (g pro) m) ps []"
    by (simp add: promoted_map_def g_def)
  ultimately show ?thesis
    using fold_flat_map_values [of producer_name g ps "[]"] by simp
qed

text \<open>The components of a template that \<open>next\<close> returns.\<close>

definition next_promotes :: "account_name \<Rightarrow> block_header_state \<Rightarrow> bool" where
  "next_promotes prd s \<longleftrightarrow> producers (schedule (pending_schedule s)) \<noteq> []
     \<and> schedule_lib_num (pending_schedule s) \<le> calc_dpos_last_irreversible prd s"

definition required_confirmations :: "block_header_state \<Rightarrow> u32" where
  "required_confirmations s = of_nat (length (producers (active_schedule s)) * 2 div 3 + 1)"

lemma bhs_next_Inr:
  assumes "bhs_next C when0 n s = Inr p"
  obtains prd auth merkle' where
    "get_scheduled_producer (pb_timestamp p) s = Inr \<lparr>producer_name = prd, pa_authority = auth\<rparr>"
    "timestamp (header s) < when0 \<and> pb_timestamp p = when0 \<or> when0 = 0 \<and> pb_timestamp p = timestamp (header s) + 1"
    "\<And>b. map_of (producer_to_last_produced s) prd = Some b \<Longrightarrow> b < (block_num s + 1) - ucast n"
    "block_num p = block_num s + 1"
    "(confirm_count p, dpos_proposed_irreversible_blocknum p) =
       (let cc = grow_confirm_count (ucast (required_confirmations s)) (confirm_count s)
        in confirm_loop (length cc) (ucast n + 1) cc (block_num s + 1) (dpos_proposed_irreversible_blocknum s))"
    "dpos_irreversible_blocknum p = calc_dpos_last_irreversible prd s"
    "active_schedule p = (if next_promotes prd s then schedule (pending_schedule s) else active_schedule s)"
    "producer_to_last_implied_irb p = (if next_promotes prd s
       then promoted_map prd (dpos_proposed_irreversible_blocknum s) (dpos_irreversible_blocknum p)
         (producer_to_last_implied_irb s) (producers (active_schedule p))
       else flat_map_set prd (dpos_proposed_irreversible_blocknum s) (producer_to_last_implied_irb s))"
    "valid_block_signing_authority p = auth"
    "merkle_append (hash_pair C) (bhs_id s) (blockroot_merkle s) = Some merkle'" "blockroot_merkle p = merkle'"
    "prev_activated_protocol_features p = activated_protocol_features s"
    "prev_pending_schedule p = pending_schedule s" "was_pending_promoted p = next_promotes prd s"
    "pb_previous p = bhs_id s" "pb_producer p = prd" "pb_confirmed p = n"
    "active_schedule_version p = version (active_schedule s)"
proof -
  from assms obtain w proauth where
      w: "(if when0 \<noteq> 0 then INE_ASSERT (timestamp (header s) < when0) block_validate_exception (Inr when0)
           else Inr (timestamp (header s) + 1)) = Inr w"
    and pa: "get_scheduled_producer w s = Inr proauth"
    by (auto simp only: bhs_next_def res_bind_eq_Inr)
  obtain prd auth where pa': "proauth = \<lparr>producer_name = prd, pa_authority = auth\<rparr>" by (cases proauth)
  obtain cc pr where loop: "(let cc = grow_confirm_count (ucast (required_confirmations s)) (confirm_count s)
        in confirm_loop (length cc) (ucast n + 1) cc (block_num s + 1) (dpos_proposed_irreversible_blocknum s)) = (cc, pr)"
    by fastforce
  show ?thesis
    by (rule that [of prd auth])
      (use assms w pa loop in \<open>auto simp: pa' bhs_next_def next_promotes_def required_confirmations_def Let_def
        split: if_splits option.splits prod.splits\<close>)
qed

lemma required_confirmations_nonzero:
  assumes "length (producers (active_schedule s)) \<le> max_producers"
  shows "(ucast (required_confirmations s) :: u8) \<noteq> 0"
proof -
  let ?k = "length (producers (active_schedule s)) * 2 div 3 + 1"
  have "?k \<le> 69" using assms by (simp add: max_producers_def)
  then have "unat (of_nat ?k :: u32) = ?k" by (intro unat_word_of_nat_eq) simp
  then have "unat (ucast (required_confirmations s) :: u8) = ?k mod 256"
    by (simp add: required_confirmations_def unsigned_ucast_eq take_bit_eq_mod del: of_nat_add)
  then have "unat (ucast (required_confirmations s) :: u8) \<noteq> 0" using \<open>?k \<le> 69\<close> by simp
  then show ?thesis by (metis unat_0)
qed

lemma grow_confirm_count_ok:
  "required \<noteq> 0 \<Longrightarrow> 0 \<notin> set cc \<Longrightarrow> 0 \<notin> set (grow_confirm_count required cc)"
  "0 < length (grow_confirm_count required cc)"
  "length (grow_confirm_count required cc) \<le> Suc (length cc)"
  by (auto simp: grow_confirm_count_def dest: in_set_dropD)

lemma implied_values_next:
  assumes "m = (if c then promoted_map prd v irr old ps else flat_map_set prd v old)"
    and "irr \<le> v" and "\<forall>b \<in> snd ` set old. b \<le> v"
  shows "\<forall>b \<in> snd ` set m. b \<le> v"
proof -
  have "snd ` set (flat_map_set prd v old) \<subseteq> insert v (snd ` set old)"
    using flat_map_set_subset [of prd v old] by force
  moreover have "snd ` set (promoted_map prd v irr old ps) \<subseteq> insert v (insert irr (snd ` set old))"
    by (rule promoted_map_values)
  ultimately have "snd ` set m \<subseteq> insert v (insert irr (snd ` set old))"
    unfolding assms(1) by (simp split: if_splits) blast
  then show ?thesis using assms(2,3) by blast
qed

lemma bhs_next_dpos_ok:
  assumes "bhs_next C when0 n s = Inr p" and "dpos_ok s"
    and "unat (block_num s) < 2 ^ 32 - 1" and "length (producers (active_schedule s)) \<le> max_producers"
  shows "dpos_ok p \<and> unat (block_num p) = unat (block_num s) + 1
    \<and> dpos_proposed_irreversible_blocknum s \<le> dpos_proposed_irreversible_blocknum p
    \<and> dpos_proposed_irreversible_blocknum p \<le> block_num p
    \<and> dpos_irreversible_blocknum p \<le> dpos_proposed_irreversible_blocknum s"
proof -
  let ?pr = "dpos_proposed_irreversible_blocknum s" and ?pr' = "dpos_proposed_irreversible_blocknum p"
  let ?cc = "grow_confirm_count (ucast (required_confirmations s)) (confirm_count s)"
  obtain prd where loop: "confirm_loop (length ?cc) (ucast n + 1) ?cc (block_num s + 1) ?pr = (confirm_count p, ?pr')"
    and p: "block_num p = block_num s + 1" "dpos_irreversible_blocknum p = calc_dpos_last_irreversible prd s"
    and implied: "producer_to_last_implied_irb p = (if next_promotes prd s
       then promoted_map prd ?pr (dpos_irreversible_blocknum p) (producer_to_last_implied_irb s) (producers (active_schedule p))
       else flat_map_set prd ?pr (producer_to_last_implied_irb s))"
    by (rule bhs_next_Inr [OF assms(1)]) (auto simp: Let_def)
  have old: "0 \<notin> set (confirm_count s)" "length (confirm_count s) + unat ?pr \<le> unat (block_num s)"
      "\<forall>b \<in> snd ` set (producer_to_last_implied_irb s). b \<le> ?pr"
    using assms(2) by (auto simp: dpos_ok_def)
  have nb: "unat (block_num s + 1) = unat (block_num s) + 1"
    using assms(3) by (simp add: unat_add_no_overflow)
  have irr: "dpos_irreversible_blocknum p \<le> ?pr"
    unfolding p(2) by (rule calc_dpos_le [OF old(3)])
  have cc: "0 \<notin> set ?cc"
    by (rule grow_confirm_count_ok(1) [OF required_confirmations_nonzero [OF assms(4)] old(1)])
  note res = confirm_loop_result [OF loop cc order_refl]
  have len: "length ?cc + unat ?pr \<le> unat (block_num s + 1)"
    using old(2) grow_confirm_count_ok(3) [of "ucast (required_confirmations s)" "confirm_count s"] nb by simp
  have adv: "unat ?pr \<le> unat ?pr' \<and> length (confirm_count p) + unat ?pr' \<le> unat (block_num s + 1)"
    using res
  proof (elim conjE disjE exE)
    fix j assume j: "j < length ?cc" "length (confirm_count p) = length ?cc - Suc j"
      "?pr' = block_num s + 1 - of_nat (length ?cc - 1 - j)"
    let ?d = "length ?cc - 1 - j"
    have d: "?d \<le> unat (block_num s + 1)" using len by simp
    then have ud: "unat (of_nat ?d :: u32) = ?d"
      using unat_lt2p [of "block_num s + 1"] by (intro unat_word_of_nat_eq) simp
    have "unat ?pr' = unat (block_num s + 1) - ?d"
      unfolding j(3) using d ud by (subst unat_sub_no_borrow) (simp_all add: word_le_nat_alt)
    then show ?thesis using j(1,2) len by simp
  qed (use len in auto)
  then have mono: "?pr \<le> ?pr'" by (simp add: word_le_nat_alt)
  have "\<forall>b \<in> snd ` set (producer_to_last_implied_irb p). b \<le> ?pr"
    by (rule implied_values_next [OF implied irr old(3)])
  then have "\<forall>b \<in> snd ` set (producer_to_last_implied_irb p). b \<le> ?pr'" using mono by (blast intro: order_trans)
  then have "dpos_ok p"
    using res adv irr mono by (auto simp: dpos_ok_def p(1) intro: order_trans)
  then show ?thesis
    using nb adv irr mono by (simp add: p(1) word_le_nat_alt)
qed

text \<open>
  C11. Confirmations only advance. From a state whose confirmation data is well formed, the next
  template has the next block number; the block it proposes as irreversible is never below the
  old proposal nor above the new block; the block it declares irreversible is at most the old
  proposal; and the confirmation data is well formed again. (The producer limit keeps the
  required confirmations in the 8 bits they are stored in.)
\<close>

theorem bhs_next_confirmations_advance:
  assumes "bhs_next C when0 n s = Inr p" and "dpos_ok s"
    and "unat (block_num s) < 2 ^ 32 - 1" and "length (producers (active_schedule s)) \<le> max_producers"
  shows "dpos_ok p \<and> unat (block_num p) = unat (block_num s) + 1
    \<and> dpos_proposed_irreversible_blocknum s \<le> dpos_proposed_irreversible_blocknum p
    \<and> dpos_proposed_irreversible_blocknum p \<le> block_num p
    \<and> dpos_irreversible_blocknum p \<le> dpos_proposed_irreversible_blocknum s"
  using assms by (rule bhs_next_dpos_ok)

section \<open>Block signatures\<close>

lemma add_signing_keys_iff:
  "add_signing_keys C d sigs ks = Inr ks' \<longleftrightarrow>
     (\<exists>l. list_all2 (\<lambda>sig k. recover_key C sig d = Inr k) sigs l \<and> distinct l \<and> set l \<inter> ks = {} \<and> ks' = ks \<union> set l)"
proof (induction sigs arbitrary: ks)
  case Nil
  then show ?case by auto
next
  case (Cons sig sigs)
  show ?case
  proof (cases "recover_key C sig d")
    case (Inl e)
    then show ?thesis by (auto simp: list_all2_Cons1)
  next
    case (Inr k)
    have "(\<exists>l. list_all2 (\<lambda>sig k. recover_key C sig d = Inr k) (sig # sigs) l \<and> distinct l \<and> set l \<inter> ks = {} \<and> ks' = ks \<union> set l)
      \<longleftrightarrow> (\<exists>l. list_all2 (\<lambda>sig k. recover_key C sig d = Inr k) sigs l \<and> distinct (k # l) \<and> set (k # l) \<inter> ks = {}
            \<and> ks' = ks \<union> set (k # l))"
      using Inr by (subst list_all2_Cons_ex) auto
    also have "\<dots> \<longleftrightarrow> k \<notin> ks \<and> add_signing_keys C d sigs (insert k ks) = Inr ks'"
      unfolding Cons.IH by auto
    finally show ?thesis using Inr by simp
  qed
qed

lemma signing_keys_iff:
  "(\<exists>k K. recover_key C sig d = Inr k \<and> add_signing_keys C d sigs {k} = Inr K \<and> Q K)
     \<longleftrightarrow> (\<exists>ks. list_all2 (\<lambda>sig k. recover_key C sig d = Inr k) (sig # sigs) ks \<and> distinct ks \<and> Q (set ks))"
  unfolding list_all2_Cons_ex add_signing_keys_iff by auto

lemma length_filter_keys:
  assumes "distinct (map f xs)"
  shows "length (filter (\<lambda>x. f x \<in> A) xs) = card (A \<inter> f ` set xs)"
proof -
  have "length (filter (\<lambda>x. f x \<in> A) xs) = card (set (map f (filter (\<lambda>x. f x \<in> A) xs)))"
    using assms by (simp add: distinct_card distinct_map_filter del: set_map set_filter)
  also have "set (map f (filter (\<lambda>x. f x \<in> A) xs)) = A \<inter> f ` set xs" by auto
  finally show ?thesis .
qed

text \<open>
  C4. A block passes \<open>verify_signee\<close> exactly when its signatures are those of enough distinct
  members of the signing authority: every signature over the state's digest recovers to a key,
  no two of them to the same key, every one of these keys belongs to the authority of the
  scheduled producer, and their weights reach its threshold (the keys of the authority being
  distinct, as every accepted schedule has them).
\<close>

theorem verify_signee_iff:
  assumes "distinct (map kw_key (bsa_keys (valid_block_signing_authority s)))"
  shows "verify_signee C s = Inr () \<longleftrightarrow>
    (\<exists>ks. list_all2 (\<lambda>sig k. recover_key C sig (sig_digest C s) = Inr k)
             (producer_signature (header s) # additional_signatures s) ks
       \<and> distinct ks \<and> set ks \<subseteq> kw_key ` set (bsa_keys (valid_block_signing_authority s))
       \<and> unat (bsa_threshold (valid_block_signing_authority s))
           \<le> weights kw_weight (filter (\<lambda>kw. kw_key kw \<in> set ks) (bsa_keys (valid_block_signing_authority s))))"
  (is "_ \<longleftrightarrow> (\<exists>ks. ?rec ks \<and> distinct ks \<and> set ks \<subseteq> ?auth \<and> ?sat (set ks))")
proof -
  let ?keys = "bsa_keys (valid_block_signing_authority s)" and ?d = "sig_digest C s"
  let ?cnt = "\<lambda>K. length (filter (\<lambda>kw. kw_key kw \<in> K) ?keys)"
  have fin: "finite ?auth" by simp
  have cnt: "?cnt (set ks) = card (set ks) \<longleftrightarrow> set ks \<subseteq> ?auth" for ks
    using length_filter_keys [OF assms, of "set ks"] card_subset_eq [of "set ks" "set ks \<inter> ?auth"]
    by (auto simp: Int_absorb2)
  have len: "1 + length (additional_signatures s) \<le> length ?keys" if "?rec ks" "distinct ks" "set ks \<subseteq> ?auth" for ks
  proof -
    have "length ks = 1 + length (additional_signatures s)" using that(1) by (auto dest: list_all2_lengthD)
    moreover have "card (set ks) \<le> card ?auth" using that(3) fin by (rule card_mono [rotated])
    moreover have "card ?auth \<le> length ?keys" by (metis card_length length_map set_map)
    ultimately show ?thesis using that(2) by (simp add: distinct_card)
  qed
  have sat: "keys_satisfy_and_relevant K (valid_block_signing_authority s) = (?sat K, ?cnt K)" for K
    using keys_satisfy_loop_exact [of K "valid_block_signing_authority s"] by simp
  have "verify_signee C s = Inr () \<longleftrightarrow> 1 + length (additional_signatures s) \<le> length ?keys
      \<and> (\<exists>k K. recover_key C (producer_signature (header s)) ?d = Inr k
           \<and> add_signing_keys C ?d (additional_signatures s) {k} = Inr K \<and> ?cnt K = card K \<and> ?sat K)"
    by (auto simp: verify_signee_def Let_def sat)
  also have "\<dots> \<longleftrightarrow> 1 + length (additional_signatures s) \<le> length ?keys
      \<and> (\<exists>ks. ?rec ks \<and> distinct ks \<and> ?cnt (set ks) = card (set ks) \<and> ?sat (set ks))"
    unfolding signing_keys_iff ..
  also have "\<dots> \<longleftrightarrow> (\<exists>ks. ?rec ks \<and> distinct ks \<and> set ks \<subseteq> ?auth \<and> ?sat (set ks))"
    unfolding cnt using len by blast
  finally show ?thesis .
qed

section \<open>Produced headers are accepted\<close>

lemma emplace_extension_simps [simp]:
  "emplace_extension i d [] = [(i, d)]"
  "emplace_extension i d [(j, e)] = (if i < j then [(i, d), (j, e)] else [(j, e), (i, d)])"
  by (simp_all add: emplace_extension_def)

lemmas extension_ids = protocol_feature_activation_id_def producer_schedule_change_id_def

interpretation raw_activation: raw_codec pack_activation unpack_activation "\<lambda>fs. fs \<noteq> [] \<and> distinct fs"
proof (rule raw_codecI)
  note sha = vector_codec [OF raw_sha256.raw_codec_axioms]
  fix x bs rest assume "x \<noteq> [] \<and> distinct x" "pack_activation x = Inr bs"
  then show "unpack_activation (bs @ rest) = Inr (x, rest)"
    using raw_codec.roundtrip [OF sha, of x bs rest]
    by (simp add: pack_activation_def unpack_activation_def activation_reflector_init_def list_all_iff del: res_bind_eq_Inr)
next
  note sha = vector_codec [OF raw_sha256.raw_codec_axioms]
  fix x bs k assume "x \<noteq> [] \<and> distinct x" "pack_activation x = Inr bs" "k < length bs"
  then show "unpack_activation (take k bs) = Inl out_of_range_exception"
    using raw_codec.truncated [OF sha, of x bs k] by (simp add: pack_activation_def unpack_activation_def list_all_iff)
qed

lemma extract_activation:
  "pack_activation features = Inr bs \<Longrightarrow> features \<noteq> [] \<Longrightarrow> distinct features \<Longrightarrow>
   extract_extension 0 bs = Inr (Some (protocol_feature_activation features))"
  by (simp add: extract_extension_def extension_ids raw_activation.unpack_all_pack)

lemma extract_schedule:
  "pack_schedule sched = Inr bs \<Longrightarrow> schedule_keys_ok sched \<Longrightarrow>
   extract_extension 1 bs = Inr (Some (producer_schedule_change_extension sched))"
  by (simp add: extract_extension_def extension_ids raw_schedule.unpack_all_pack)

text \<open>The extensions that \<open>make_block_header\<close> puts into a header, in decoded form.\<close>

definition produced_exts ::
  "producer_authority_schedule option \<Rightarrow> digest_type list \<Rightarrow> bool \<Rightarrow> (u16 \<times> block_header_extension) list" where
  "produced_exts new_prods features wtmsig =
     (if features = [] then [] else [(0, protocol_feature_activation features)])
     @ (case new_prods of Some sched \<Rightarrow> if wtmsig then [(1, producer_schedule_change_extension sched)] else []
        | None \<Rightarrow> [])"

lemma make_block_header_exts:
  assumes "make_block_header tm am new_prods features pfs sg p = Inr h" and "distinct features"
    and "\<And>sched. new_prods = Some sched \<Longrightarrow> schedule_keys_ok sched"
  shows "validate_and_extract_header_extensions h = Inr (produced_exts new_prods features
      (detail_is_builtin_activated (prev_activated_protocol_features p) pfs wtmsig_block_signatures))"
  using assms extract_activation extract_schedule
  by (cases new_prods)
    (auto simp: make_block_header_def validate_and_extract_header_extensions_def produced_exts_def extension_ids
      Let_def split: if_splits)

lemma make_block_header_fields:
  assumes "make_block_header tm am new_prods features pfs sg p = Inr h"
  shows "timestamp h = pb_timestamp p" "previous h = pb_previous p" "confirmed h = pb_confirmed p"
    "producer h = pb_producer p" "schedule_version h = active_schedule_version p"
    "transaction_mroot h = tm" "action_mroot h = am"
    "case new_prods of None \<Rightarrow> new_producers h = None
     | Some sched \<Rightarrow>
         if detail_is_builtin_activated (prev_activated_protocol_features p) pfs wtmsig_block_signatures
         then new_producers h = None
         else \<exists>np. downgraded_producers sched = Inr np \<and> new_producers h = Some np"
  using assms by (auto simp: make_block_header_def Let_def split: if_splits option.splits)

lemma produced_exts_activation:
  "distinct features \<Longrightarrow> exts = produced_exts new_prods features w \<Longrightarrow>
   (features \<noteq> [] \<Longrightarrow> validator (pb_timestamp p) (prev_activated_protocol_features p) features = Inr ()) \<Longrightarrow>
   finite (prev_activated_protocol_features p) \<Longrightarrow> set features \<inter> prev_activated_protocol_features p = {} \<Longrightarrow>
   new_activated_features exts validator p = Inr (prev_activated_protocol_features p \<union> set features)"
  by (auto simp: new_activated_features_def produced_exts_def extension_ids exts_count_def exts_lower_bound_def
      protocol_feature_activation_set_def card_Un_disjoint distinct_card Int_commute Let_def split: option.splits)

text \<open>
  The schedule that nodes take from a header that announces \<open>sched\<close>, with its hash: the schedule
  itself from the extension, or what the legacy field keeps of it.
\<close>

definition announced_schedule :: "crypto \<Rightarrow> bool \<Rightarrow> producer_authority_schedule \<Rightarrow> (producer_authority_schedule \<times> digest_type) res" where
  "announced_schedule C wtmsig sched =
     (if wtmsig then Inr (sched, hash_schedule C sched)
      else res_bind (downgraded_producers sched) (\<lambda>np. Inr (schedule_of_legacy np, hash_legacy_schedule C np)))"

lemma announced_schedule_version: "announced_schedule C w sched = Inr (s, d) \<Longrightarrow> version s = version sched"
  by (auto simp: announced_schedule_def downgraded_producers_def schedule_of_legacy_def split: if_splits)

text \<open>Only the threshold, which is the weight of the single key, is lost in the legacy field.\<close>

lemma downgraded_producers_exact:
  assumes "downgraded_producers sched = Inr np" and "\<forall>q \<in> set (producers sched). bsa_threshold (pa_authority q) = 1"
  shows "schedule_of_legacy np = sched"
proof -
  have one: "\<lparr>producer_name = producer_name q, pa_authority = \<lparr>bsa_threshold = 1,
      bsa_keys = [\<lparr>kw_key = kw_key (hd (bsa_keys (pa_authority q))), kw_weight = 1\<rparr>]\<rparr>\<rparr> = q"
    if single: "length (bsa_keys (pa_authority q)) = 1" "ucast (kw_weight (hd (bsa_keys (pa_authority q)))) = bsa_threshold (pa_authority q)"
      "bsa_threshold (pa_authority q) = 1" for q :: producer_authority
  proof -
    obtain kw where kw: "bsa_keys (pa_authority q) = [kw]" using single(1) by (cases "bsa_keys (pa_authority q)") auto
    have "unat (ucast (kw_weight kw) :: u32) = 1" using single(2,3) kw by simp
    then have "kw_weight kw = 1" by (simp add: word_unat_eq_iff unat_ucast_up_simp)
    then show ?thesis using kw single(3) by (cases q; cases "pa_authority q"; cases kw) simp
  qed
  have np: "np = \<lparr>lps_version = version sched, lps_producers = map (\<lambda>q. \<lparr>pk_producer_name = producer_name q,
        block_signing_key = kw_key (hd (bsa_keys (pa_authority q)))\<rparr>) (producers sched)\<rparr>"
    and ok: "\<forall>q \<in> set (producers sched). length (bsa_keys (pa_authority q)) = 1
        \<and> ucast (kw_weight (hd (bsa_keys (pa_authority q)))) = bsa_threshold (pa_authority q)"
    using assms(1) by (simp_all add: downgraded_producers_def split: if_splits)
  have "producers (schedule_of_legacy np) = producers sched"
    unfolding schedule_of_legacy_def np using ok assms(2) one by (simp add: comp_def map_idI)
  then show ?thesis by (cases sched) (simp add: np schedule_of_legacy_def)
qed

lemma produced_new_schedule:
  assumes "make_block_header tm am new_prods features pfs sg p = Inr h"
    and "w = detail_is_builtin_activated (prev_activated_protocol_features p) pfs wtmsig_block_signatures"
    and "exts = produced_exts new_prods features w"
    and "\<And>sched. new_prods = Some sched \<Longrightarrow> \<not> was_pending_promoted p
      \<and> version sched = version (active_schedule p) + 1 \<and> producers (schedule (prev_pending_schedule p)) = []"
  shows "case new_prods of None \<Rightarrow> new_schedule_of C h exts pfs p = Inr None
    | Some sched \<Rightarrow> \<exists>new. announced_schedule C w sched = Inr new \<and> new_schedule_of C h exts pfs p = Inr (Some new)"
proof (cases new_prods)
  case None
  then have "new_producers h = None" "exts_count 1 exts = 0"
    using make_block_header_fields(8) [OF assms(1)] assms(3) by (auto simp: produced_exts_def exts_count_def)
  then show ?thesis using None by (simp add: new_schedule_of_def extension_ids)
next
  case (Some sched)
  note new = assms(4) [OF Some] and np = make_block_header_fields(8) [OF assms(1)]
  show ?thesis
  proof (cases w)
    case True
    then have "new_producers h = None" using np Some assms(2) by simp
    moreover have "0 < exts_count 1 exts"
      "exts_lower_bound 1 exts = Some (producer_schedule_change_extension sched)"
      using True Some assms(3) by (auto simp: produced_exts_def exts_count_def exts_lower_bound_def)
    ultimately show ?thesis
      using True new Some assms(2)
      by (simp add: new_schedule_of_def extension_ids check_new_schedule_def announced_schedule_def)
  next
    case False
    then obtain np where np: "new_producers h = Some np" "downgraded_producers sched = Inr np"
      using np Some assms(2) by auto
    then have "lps_version np = version sched" by (auto simp: downgraded_producers_def split: if_splits)
    moreover have "exts_count 1 exts = 0"
      using False Some assms(3) by (auto simp: produced_exts_def exts_count_def)
    ultimately show ?thesis
      using False new Some np assms(2)
      by (simp add: new_schedule_of_def extension_ids check_new_schedule_def announced_schedule_def)
  qed
qed

text \<open>
  C12. A header that a producer builds is accepted by the validation that every node runs. If
  \<open>make_block_header\<close> succeeds on a template, its newly activated features are distinct, new and
  accepted by the validator, and an announced schedule is the next version with none pending,
  then \<open>_finish_next\<close> succeeds on the same template: it keeps the header, takes the header's id and
  activates exactly the announced features. The pending schedule, irreversible from this block on,
  is after the activation of weighted signatures exactly the announced one, with its hash, read
  back from the bytes of the extension; before, it is what the legacy field can hold, the same
  version, producers and keys with thresholds of 1, and thus the announced schedule itself when
  its thresholds are 1. (\<open>schedule_keys_ok\<close>: the keys have the size of their type.)
\<close>

theorem make_block_header_accepted:
  assumes "make_block_header tm am new_prods features pfs sg p = Inr h"
    and "\<forall>sched. new_prods = Some sched \<longrightarrow> schedule_keys_ok sched"
    and "distinct features" and "finite (prev_activated_protocol_features p)"
    and "set features \<inter> prev_activated_protocol_features p = {}"
    and "features \<noteq> [] \<longrightarrow> validator (pb_timestamp p) (prev_activated_protocol_features p) features = Inr ()"
    and "\<forall>sched. new_prods = Some sched \<longrightarrow> \<not> was_pending_promoted p
      \<and> version sched = version (active_schedule p) + 1 \<and> producers (schedule (prev_pending_schedule p)) = []"
    and "w = detail_is_builtin_activated (prev_activated_protocol_features p) pfs wtmsig_block_signatures"
  shows "\<exists>s. finish_next_base C h pfs validator p = Inr s
    \<and> header s = h \<and> bhs_id s = header_id C h
    \<and> block_header_state_common.truncate s = block_header_state_common.truncate p
    \<and> activated_protocol_features s = prev_activated_protocol_features p \<union> set features
    \<and> get_new_protocol_feature_activations s = Inr features
    \<and> (\<forall>sched. new_prods = Some sched \<longrightarrow>
         announced_schedule C w sched = Inr (schedule (pending_schedule s), schedule_hash (pending_schedule s))
         \<and> schedule_lib_num (pending_schedule s) = block_num p
         \<and> (w \<or> (\<forall>q \<in> set (producers sched). bsa_threshold (pa_authority q) = 1) \<longrightarrow> schedule (pending_schedule s) = sched))
    \<and> (new_prods = None \<and> \<not> was_pending_promoted p \<longrightarrow> pending_schedule s = prev_pending_schedule p)"
proof -
  let ?exts = "produced_exts new_prods features w"
  have exts: "validate_and_extract_header_extensions h = Inr ?exts"
    using make_block_header_exts [OF assms(1,3)] assms(2,8) by blast
  have act: "new_activated_features ?exts validator p = Inr (prev_activated_protocol_features p \<union> set features)"
    using produced_exts_activation [OF assms(3) refl] assms(4-6) by blast
  have new: "case new_prods of None \<Rightarrow> new_schedule_of C h ?exts pfs p = Inr None
    | Some sched \<Rightarrow> \<exists>new. announced_schedule C w sched = Inr new \<and> new_schedule_of C h ?exts pfs p = Inr (Some new)"
    using produced_new_schedule [OF assms(1,8) refl] assms(7) by blast
  then obtain maybe_new where mn: "new_schedule_of C h ?exts pfs p = Inr maybe_new"
    by (auto split: option.splits)
  let ?s = "block_header_state_common.extend (block_header_state_common.truncate p)
        (block_header_state.fields (header_id C h) h (finish_pending_schedule maybe_new p)
          (prev_activated_protocol_features p \<union> set features) [] ?exts)"
  have run: "finish_next_base C h pfs validator p = Inr ?s"
    using make_block_header_fields(1-5) [OF assms(1)] exts act mn by (simp add: finish_next_base_def)
  have proj: "header ?s = h" "bhs_id ?s = header_id C h"
    "block_header_state_common.truncate ?s = block_header_state_common.truncate p"
    "activated_protocol_features ?s = prev_activated_protocol_features p \<union> set features"
    "header_exts ?s = ?exts" "pending_schedule ?s = finish_pending_schedule maybe_new p"
    by (simp_all add: block_header_state.defs block_header_state_common.defs)
  have feats: "get_new_protocol_feature_activations ?s = Inr features"
    unfolding get_new_protocol_feature_activations_def proj(5)
    by (auto simp: produced_exts_def extension_ids exts_count_def exts_lower_bound_def split: option.splits)
  have sched: "announced_schedule C w sched = Inr (schedule (pending_schedule ?s), schedule_hash (pending_schedule ?s))
      \<and> schedule_lib_num (pending_schedule ?s) = block_num p" if "new_prods = Some sched" for sched
    using new mn that unfolding proj(6) by (auto simp: finish_pending_schedule_def)
  have exact: "s' = sched" if "announced_schedule C w sched = Inr (s', d)"
      "w \<or> (\<forall>q \<in> set (producers sched). bsa_threshold (pa_authority q) = 1)" for sched s' d
    using that downgraded_producers_exact by (auto simp: announced_schedule_def split: if_splits)
  have none: "pending_schedule ?s = prev_pending_schedule p" if "new_prods = None" "\<not> was_pending_promoted p"
    using new mn that unfolding proj(6) by (simp add: finish_pending_schedule_def)
  show ?thesis
    using run proj(1-4) feats sched exact none by (intro exI [of _ ?s]) blast
qed

section \<open>Irreversibility is stable\<close>

text \<open>Every producer of the active schedule, and nobody else, has an implied irreversible block.\<close>

definition producers_tracked :: "'a block_header_state_common_scheme \<Rightarrow> bool" where
  "producers_tracked s \<longleftrightarrow>
     fst ` set (producer_to_last_implied_irb s) = producer_name ` set (producers (active_schedule s))
     \<and> sorted_wrt (<) (map fst (producer_to_last_implied_irb s))"

lemma scheduled_producer_active:
  "get_scheduled_producer t s = Inr pa \<Longrightarrow> pa \<in> set (producers (active_schedule s))"
  by (auto simp: get_scheduled_producer_def producer_repetitions_def Let_def split: if_splits intro!: nth_mem)

lemma fold_flat_map_keys:
  "fst ` set (fold (\<lambda>x m. flat_map_set (k x) (g x) m) xs m0) = k ` set xs \<union> fst ` set m0"
  "sorted_wrt (<) (map fst m0) \<Longrightarrow> sorted_wrt (<) (map fst (fold (\<lambda>x m. flat_map_set (k x) (g x) m) xs m0))"
  by (induction xs arbitrary: m0) auto

lemma promoted_map_keys:
  "fst ` set (promoted_map prd mine irr old ps) = producer_name ` set ps"
  "sorted_wrt (<) (map fst (promoted_map prd mine irr old ps))"
  by (simp_all add: promoted_map_def fold_flat_map_keys)

lemma bhs_next_tracked:
  assumes "bhs_next C when0 n s = Inr p" and "producers_tracked s"
  shows "producers_tracked p"
proof -
  obtain prd auth where gp: "get_scheduled_producer (pb_timestamp p) s = Inr \<lparr>producer_name = prd, pa_authority = auth\<rparr>"
    and act: "active_schedule p = (if next_promotes prd s then schedule (pending_schedule s) else active_schedule s)"
    and imp: "producer_to_last_implied_irb p = (if next_promotes prd s
       then promoted_map prd (dpos_proposed_irreversible_blocknum s) (dpos_irreversible_blocknum p)
         (producer_to_last_implied_irb s) (producers (active_schedule p))
       else flat_map_set prd (dpos_proposed_irreversible_blocknum s) (producer_to_last_implied_irb s))"
    by (rule bhs_next_Inr [OF assms(1)]) blast
  have "prd \<in> producer_name ` set (producers (active_schedule s))"
    using scheduled_producer_active [OF gp] by force
  then show ?thesis
    using assms(2) promoted_map_keys unfolding producers_tracked_def imp act by (simp add: insert_absorb)
qed

text \<open>Raising the values of a list cannot lower the value that more than two thirds reach.\<close>

lemma count_ge_mono:
  "list_all2 (\<le>) xs ys \<Longrightarrow> length (filter (\<lambda>x. b \<le> x) xs) \<le> length (filter (\<lambda>x. b \<le> x) ys)"
  for b :: "'a::linorder"
  by (induction rule: list_all2_induct) (auto intro: order_trans)

lemma nth_third_mono:
  fixes xs ys :: "'a::linorder list"
  assumes "list_all2 (\<le>) xs ys" and "xs \<noteq> []"
  shows "sort xs ! ((length xs - 1) div 3) \<le> sort ys ! ((length ys - 1) div 3)"
proof -
  let ?b = "sort xs ! ((length xs - 1) div 3)"
  have len: "length xs = length ys" and ne: "ys \<noteq> []" using assms by (auto dest: list_all2_lengthD)
  have "length (filter (\<lambda>x. ?b \<le> x) xs) \<le> length (filter (\<lambda>x. ?b \<le> x) ys)"
    by (rule count_ge_mono [OF assms(1)])
  moreover have "2 * length xs < 3 * length (filter (\<lambda>x. ?b \<le> x) xs)"
    using nth_third_iff [OF assms(2), of ?b] by simp
  ultimately show ?thesis using nth_third_iff [OF ne, of ?b] len by simp
qed

text \<open>
  C3. A block, once irreversible, stays irreversible while the schedule does not change: over
  two consecutive templates, of which the first promotes no schedule, the last irreversible
  block number does not decrease. The second template may be built from any state that carries
  the first one's consensus data.
\<close>

theorem dpos_irreversible_stable:
  assumes "bhs_next C w n s = Inr p" and "dpos_ok s" and "producers_tracked s"
    and "unat (block_num s) < 2 ^ 32 - 1" and "length (producers (active_schedule s)) \<le> max_producers"
    and "\<not> was_pending_promoted p"
    and "block_header_state_common.truncate s' = block_header_state_common.truncate p"
    and "bhs_next C w' n' s' = Inr p'"
  shows "dpos_irreversible_blocknum p \<le> dpos_irreversible_blocknum p'"
proof -
  let ?m = "producer_to_last_implied_irb s" and ?v = "dpos_proposed_irreversible_blocknum s"
  let ?m' = "producer_to_last_implied_irb s'" and ?v' = "dpos_proposed_irreversible_blocknum s'"
  obtain prd auth where gp: "get_scheduled_producer (pb_timestamp p) s = Inr \<lparr>producer_name = prd, pa_authority = auth\<rparr>"
    and irr: "dpos_irreversible_blocknum p = calc_dpos_last_irreversible prd s"
    and imp: "producer_to_last_implied_irb p = flat_map_set prd ?v ?m"
    by (rule bhs_next_Inr [OF assms(1)]) (use assms(6) in auto)
  obtain prd' where irr': "dpos_irreversible_blocknum p' = calc_dpos_last_irreversible prd' s'"
    by (rule bhs_next_Inr [OF assms(8)])
  have s': "?m' = producer_to_last_implied_irb p" "?v' = dpos_proposed_irreversible_blocknum p"
    using assms(7) by (simp_all add: block_header_state_common.defs)
  have mem: "prd \<in> fst ` set ?m"
    using assms(3) scheduled_producer_active [OF gp] unfolding producers_tracked_def by force
  have m': "?m' = map (\<lambda>(k, b). (k, if k = prd then ?v else b)) ?m"
    unfolding s' imp using assms(3) mem by (intro flat_map_set_present) (simp_all add: producers_tracked_def)
  have le: "\<forall>b \<in> snd ` set ?m'. b \<le> ?v'"
    using bhs_next_dpos_ok [OF assms(1,2,4,5)] by (simp add: s' dpos_ok_def)
  have "implied_blocknums prd s = map snd ?m'"
    by (simp add: implied_blocknums_def m' comp_def case_prod_beta)
  moreover have "list_all2 (\<le>) (map snd ?m') (implied_blocknums prd' s')"
    using le by (auto simp: implied_blocknums_def list_all2_conv_all_nth case_prod_beta)
  ultimately have "list_all2 (\<le>) (implied_blocknums prd s) (implied_blocknums prd' s')" by simp
  moreover have "implied_blocknums prd s \<noteq> []" "implied_blocknums prd' s' \<noteq> []"
    using mem m' by (auto simp: implied_blocknums_def)
  ultimately show ?thesis
    using nth_third_mono [of "implied_blocknums prd s" "implied_blocknums prd' s'"]
    by (simp add: irr irr' calc_dpos_last_irreversible_def Let_def)
qed

section \<open>Witnesses\<close>

definition example_crypto :: crypto where
  "example_crypto =
     \<lparr>hash_header = (\<lambda>h. sha256 0 (ucast (timestamp h)) 0 0), hash_pair = (\<lambda>(a, b). sha256 (hash1 a) 0 1 0),
      hash_legacy_schedule = (\<lambda>s. zero_digest), hash_schedule = (\<lambda>s. zero_digest),
      recover_key = (\<lambda>sig d. case sig of SIG_K1 b \<Rightarrow> Inr (K1 b) | _ \<Rightarrow> Inl fc_assert_exception)\<rparr>"

definition example_producer :: "u64 \<Rightarrow> producer_authority" where
  "example_producer a = \<lparr>producer_name = a, pa_authority = \<lparr>bsa_threshold = 1, bsa_keys = [\<lparr>kw_key = K1 [2], kw_weight = 1\<rparr>]\<rparr>\<rparr>"

text \<open>The id of a block with the number 9.\<close>

definition example_prev :: block_id_type where
  "example_prev = sha256 0x09000000 0 0 0"

definition example_header :: signed_block_header where
  "example_header = \<lparr>timestamp = 10, producer = 1, confirmed = 0, previous = zero_digest,
     transaction_mroot = zero_digest, action_mroot = zero_digest, schedule_version = 0, new_producers = None,
     header_extensions = [], producer_signature = SIG_K1 [2]\<rparr>"

definition example_state :: block_header_state where
  "example_state =
     \<lparr>block_num = 9, dpos_proposed_irreversible_blocknum = 6, dpos_irreversible_blocknum = 4,
      active_schedule = \<lparr>version = 0, producers = [example_producer 1, example_producer 2]\<rparr>,
      blockroot_merkle = empty_incremental_merkle,
      producer_to_last_produced = [(1, 9), (2, 8)], producer_to_last_implied_irb = [(1, 5), (2, 4)],
      valid_block_signing_authority = pa_authority (example_producer 1), confirm_count = [1, 2],
      bhs_id = example_prev, header = example_header,
      pending_schedule = \<lparr>schedule_lib_num = 0, schedule_hash = zero_digest, schedule = empty_schedule\<rparr>,
      activated_protocol_features = {}, additional_signatures = [], header_exts = []\<rparr>"

lemmas example_defs = example_crypto_def example_producer_def example_header_def example_state_def
  empty_incremental_merkle_def empty_schedule_def

lemma example_state_ok: "dpos_ok example_state" "producers_tracked example_state"
    "unat (block_num example_state) < 2 ^ 32 - 1" "length (producers (active_schedule example_state)) \<le> max_producers"
  by (simp_all add: example_defs dpos_ok_def producers_tracked_def max_producers_def)

lemma example_merkle:
  "merkle_append H d empty_incremental_merkle = Some \<lparr>node_count = 1, active_nodes = [d]\<rparr>"
proof -
  have "calcluate_max_depth 1 = 1" by code_simp
  then show ?thesis by (simp add: merkle_append_def empty_incremental_merkle_def)
qed

lemma example_producer_2: "get_scheduled_producer 11 example_state = Inr (example_producer 2)"
  by (simp add: get_scheduled_producer_def example_state_def producer_repetitions_def Let_def
      flip: numeral_2_eq_2)

lemma example_calc: "calc_dpos_last_irreversible 2 example_state = 5"
  by (simp add: calc_dpos_last_irreversible_def implied_blocknums_def example_state_def Let_def)

lemma example_confirm:
  "confirm_loop (length (grow_confirm_count 2 (confirm_count example_state))) 1
     (grow_confirm_count 2 (confirm_count example_state)) 10 6 = ([1, 2, 1], 6)"
  by (simp add: grow_confirm_count_def maximum_tracked_dpos_confirmations_def example_state_def Let_def)

definition example_pending :: pending_block_header_state where
  "example_pending =
     \<lparr>block_num = 10, dpos_proposed_irreversible_blocknum = 6, dpos_irreversible_blocknum = 5,
      active_schedule = \<lparr>version = 0, producers = [example_producer 1, example_producer 2]\<rparr>,
      blockroot_merkle = \<lparr>node_count = 1, active_nodes = [example_prev]\<rparr>,
      producer_to_last_produced = [(1, 9), (2, 10)], producer_to_last_implied_irb = [(1, 5), (2, 6)],
      valid_block_signing_authority = pa_authority (example_producer 2), confirm_count = [1, 2, 1],
      prev_activated_protocol_features = {},
      prev_pending_schedule = \<lparr>schedule_lib_num = 0, schedule_hash = zero_digest, schedule = empty_schedule\<rparr>,
      was_pending_promoted = False, pb_previous = example_prev, pb_producer = 2, pb_timestamp = 11,
      active_schedule_version = 0, pb_confirmed = 0\<rparr>"

lemma example_next: "bhs_next example_crypto 11 0 example_state = Inr example_pending"
proof -
  have fields: "block_num example_state + 1 = 10" "timestamp (header example_state) = 10"
    "dpos_proposed_irreversible_blocknum example_state = 6" "bhs_id example_state = example_prev"
    "blockroot_merkle example_state = empty_incremental_merkle" "producer_name (example_producer 2) = 2"
    "producer_to_last_produced example_state = [(1, 9), (2, 8)]"
    "producer_to_last_implied_irb example_state = [(1, 5), (2, 4)]"
    "pending_schedule example_state = \<lparr>schedule_lib_num = 0, schedule_hash = zero_digest, schedule = \<lparr>version = 0, producers = []\<rparr>\<rparr>"
    "active_schedule example_state = \<lparr>version = 0, producers = [example_producer 1, example_producer 2]\<rparr>"
    "activated_protocol_features example_state = {}"
    by (simp_all add: example_state_def example_header_def empty_schedule_def example_producer_def)
  show ?thesis
    using example_confirm
    by (simp add: bhs_next_def example_producer_2 example_merkle fields example_calc Let_def example_pending_def
        empty_schedule_def)
qed

theorem calc_dpos_last_irreversible_two_thirds_witness:
  "2 * length (implied_blocknums 2 example_state) < 3 * length (filter (\<lambda>x. 5 \<le> x) (implied_blocknums 2 example_state))"
proof -
  have "producer_to_last_implied_irb example_state \<noteq> []" by (simp add: example_state_def)
  from calc_dpos_last_irreversible_two_thirds [OF this, of 5 2] show ?thesis by (simp add: example_calc)
qed

theorem bhs_next_confirmations_advance_witness:
  "\<exists>p. bhs_next example_crypto 11 0 example_state = Inr p \<and> dpos_ok p
     \<and> 6 \<le> dpos_proposed_irreversible_blocknum p \<and> dpos_irreversible_blocknum p \<le> 6"
proof -
  have "dpos_proposed_irreversible_blocknum example_state = 6" by (simp add: example_state_def)
  then show ?thesis
    using example_next bhs_next_confirmations_advance [OF example_next example_state_ok(1,3,4)] by auto
qed

theorem verify_signee_iff_witness:
  "distinct (map kw_key (bsa_keys (valid_block_signing_authority example_state)))
   \<and> verify_signee example_crypto example_state = Inr ()"
proof
  show d: "distinct (map kw_key (bsa_keys (valid_block_signing_authority example_state)))"
    by (simp add: example_defs)
  show "verify_signee example_crypto example_state = Inr ()"
    unfolding verify_signee_iff [OF d]
    by (rule exI [of _ "[K1 [2]]"]) (simp add: example_defs)
qed

text \<open>
  A schedule with an authority of two weighted keys and a protocol feature, announced when
  weighted signatures are active, and a schedule of single keys announced before that.
\<close>

definition example_weighted_schedule :: producer_authority_schedule where
  "example_weighted_schedule = \<lparr>version = 1, producers =
     [\<lparr>producer_name = 3, pa_authority = \<lparr>bsa_threshold = 3,
        bsa_keys = [\<lparr>kw_key = K1 (replicate 33 2), kw_weight = 2\<rparr>, \<lparr>kw_key = R1 (replicate 33 3), kw_weight = 1\<rparr>]\<rparr>\<rparr>]\<rparr>"

definition example_single_schedule :: producer_authority_schedule where
  "example_single_schedule = \<lparr>version = 1, producers =
     [\<lparr>producer_name = 3, pa_authority = \<lparr>bsa_threshold = 1, bsa_keys = [\<lparr>kw_key = K1 (replicate 33 2), kw_weight = 1\<rparr>]\<rparr>\<rparr>]\<rparr>"

definition example_feature_set :: protocol_feature_set where
  "example_feature_set = empty_protocol_feature_set
     \<lparr>recognized_builtin := replicate (feature_index wtmsig_block_signatures) None @ [Some (sha256 0 0 0 9)]\<rparr>"

lemma example_schedule_packs: "\<exists>bs. pack_schedule example_weighted_schedule = Inr bs" "\<exists>bs. pack_activation [sha256 0 0 0 5] = Inr bs"
  by (simp_all add: pack_schedule_def pack_activation_def pack_as_def pack_pair_def pack_vector_def pack_append_def pack_scalar_def
      pack_producer_authority_def pack_block_signing_authority_def pack_key_weight_def pack_public_key_def pack_static_variant_def
      pack_array_def pack_unsigned_int_def MAX_NUM_ARRAY_ELEMENTS_def example_weighted_schedule_def pack_sha256_def)

theorem make_block_header_accepted_witness:
  "(\<exists>h s. make_block_header zero_digest zero_digest (Some example_weighted_schedule) [sha256 0 0 0 5] example_feature_set (SIG_K1 [])
       (example_pending\<lparr>prev_activated_protocol_features := {sha256 0 0 0 9}\<rparr>) = Inr h
     \<and> finish_next_base example_crypto h example_feature_set (\<lambda>_ _ _. Inr ())
         (example_pending\<lparr>prev_activated_protocol_features := {sha256 0 0 0 9}\<rparr>) = Inr s
     \<and> activated_protocol_features s = {sha256 0 0 0 9, sha256 0 0 0 5} \<and> schedule (pending_schedule s) = example_weighted_schedule)
   \<and> (\<exists>h s. make_block_header zero_digest zero_digest (Some example_single_schedule) [] empty_protocol_feature_set (SIG_K1 []) example_pending = Inr h
     \<and> finish_next_base example_crypto h empty_protocol_feature_set (\<lambda>_ _ _. Inr ()) example_pending = Inr s
     \<and> schedule (pending_schedule s) = example_single_schedule)"
proof -
  let ?p = "example_pending\<lparr>prev_activated_protocol_features := {sha256 0 0 0 9}\<rparr>" and ?fs = "[sha256 0 0 0 5]"
  have w: "detail_is_builtin_activated {sha256 0 0 0 9} example_feature_set wtmsig_block_signatures"
    and nw: "\<not> detail_is_builtin_activated {} empty_protocol_feature_set wtmsig_block_signatures"
    by (simp_all add: detail_is_builtin_activated_def get_builtin_digest_def example_feature_set_def Let_def
        empty_protocol_feature_set_def nth_append)
  have p: "prev_activated_protocol_features example_pending = {}" "\<not> was_pending_promoted example_pending"
    "version (active_schedule example_pending) + 1 = 1" "producers (schedule (prev_pending_schedule example_pending)) = []"
    by (simp_all add: example_pending_def empty_schedule_def)
  have sched: "schedule_keys_ok example_weighted_schedule" "version example_weighted_schedule = 1"
    "schedule_keys_ok example_single_schedule" "version example_single_schedule = 1"
    "\<forall>q \<in> set (producers example_single_schedule). bsa_threshold (pa_authority q) = 1"
    by (simp_all add: example_weighted_schedule_def example_single_schedule_def schedule_keys_ok_def signing_authority_ok_def)
  obtain h where h: "make_block_header zero_digest zero_digest (Some example_weighted_schedule) ?fs example_feature_set (SIG_K1 []) ?p = Inr h"
    using example_schedule_packs w by (auto simp: make_block_header_def Let_def simp del: res_bind_eq_Inr)
  obtain h' where h': "make_block_header zero_digest zero_digest (Some example_single_schedule) [] empty_protocol_feature_set (SIG_K1 [])
      example_pending = Inr h'"
    using nw by (auto simp: make_block_header_def p downgraded_producers_def example_single_schedule_def Let_def)
  have "\<exists>s. finish_next_base example_crypto h example_feature_set (\<lambda>_ _ _. Inr ()) ?p = Inr s
      \<and> activated_protocol_features s = {sha256 0 0 0 9, sha256 0 0 0 5} \<and> schedule (pending_schedule s) = example_weighted_schedule"
    using make_block_header_accepted [OF h, of "\<lambda>_ _ _. Inr ()" _ example_crypto] w p sched by (auto simp: insert_commute)
  moreover have "\<exists>s. finish_next_base example_crypto h' empty_protocol_feature_set (\<lambda>_ _ _. Inr ()) example_pending = Inr s
      \<and> schedule (pending_schedule s) = example_single_schedule"
    using make_block_header_accepted [OF h', of "\<lambda>_ _ _. Inr ()" _ example_crypto] p sched by auto
  ultimately show ?thesis using h h' by blast
qed

definition example_state_after :: block_header_state where
  "example_state_after = block_header_state_common.extend (block_header_state_common.truncate example_pending)
     (block_header_state.fields zero_digest (example_header\<lparr>timestamp := 11\<rparr>) (prev_pending_schedule example_pending) {} [] [])"

lemma example_merkle_after:
  "\<exists>m. merkle_append H d \<lparr>node_count = 1, active_nodes = [e]\<rparr> = Some m"
proof -
  have "calcluate_max_depth 2 = 2" by code_simp
  then show ?thesis by (simp add: merkle_append_def eval_nat_numeral)
qed

lemma example_next_after: "\<exists>p'. bhs_next example_crypto 12 0 example_state_after = Inr p'"
proof -
  obtain m where m: "merkle_append (hash_pair example_crypto) zero_digest \<lparr>node_count = 1, active_nodes = [example_prev]\<rparr> = Some m"
    using example_merkle_after by blast
  show ?thesis
    by (simp add: bhs_next_def get_scheduled_producer_def example_state_after_def example_pending_def
        example_header_def example_producer_def producer_repetitions_def m Let_def
        block_header_state_common.defs block_header_state.defs empty_schedule_def split: prod.splits
        flip: numeral_2_eq_2)
qed

theorem dpos_irreversible_stable_witness:
  "\<exists>p'. bhs_next example_crypto 12 0 example_state_after = Inr p' \<and> 5 \<le> dpos_irreversible_blocknum p'"
proof -
  obtain p' where run: "bhs_next example_crypto 12 0 example_state_after = Inr p'"
    using example_next_after by blast
  have np: "\<not> was_pending_promoted example_pending" and five: "dpos_irreversible_blocknum example_pending = 5"
    by (simp_all add: example_pending_def)
  have same: "block_header_state_common.truncate example_state_after = block_header_state_common.truncate example_pending"
    by (simp add: example_state_after_def block_header_state_common.defs block_header_state.defs)
  show ?thesis
    using run dpos_irreversible_stable [OF example_next example_state_ok np same run] five by auto
qed

end
