(* ===== verification/Transaction.thy ===== *)
theory Transaction
  imports Key_Codec
begin

unbundle bit_operations_syntax

text \<open>
  Actions and transactions (\<open>action.hpp\<close>, \<open>transaction.hpp\<close>, \<open>transaction.cpp\<close>,
  \<open>transaction_metadata.hpp\<close>, \<open>.cpp\<close>): their binary form, the digests that identify and sign
  them, recovery of the signing keys, packed and compressed transactions and their extensions.

  SHA-256, key recovery, signing and zlib are third-party code: \<open>sha\<close> maps the bytes written to
  an encoder to the digest, and the other functions are the parameters \<open>recover\<close>, \<open>sign_with\<close>
  and the record \<open>zlib\<close>. Clock readings are a function from the number of the reading.
\<close>

section \<open>Actions\<close>

record action =
  act_account :: account_name
  act_name :: action_name
  authorization :: "permission_level list"
  act_data :: bytes

definition pack_permission_level :: "permission_level packer" where
  "pack_permission_level = pack_as (\<lambda>p. (actor p, permission p)) (pack_pair pack_scalar pack_scalar)"

definition unpack_permission_level :: "permission_level unpacker" where
  "unpack_permission_level =
     unpack_as (\<lambda>(a, p). \<lparr>actor = a, permission = p\<rparr>) (unpack_pair unpack_scalar unpack_scalar)"

definition pack_action :: "action packer" where
  "pack_action =
     pack_as (\<lambda>a. (act_account a, act_name a, authorization a, act_data a))
       (pack_pair pack_scalar (pack_pair pack_scalar (pack_pair (pack_vector pack_permission_level) pack_bytes)))"

definition unpack_action :: "action unpacker" where
  "unpack_action =
     unpack_as (\<lambda>(acc, n, auth, d). \<lparr>act_account = acc, act_name = n, authorization = auth, act_data = d\<rparr>)
       (unpack_pair unpack_scalar (unpack_pair unpack_scalar
         (unpack_pair (unpack_vector unpack_permission_level) unpack_bytes)))"

text \<open>\<open>data_as<T>\<close>, for an action type with this account, name and unpacker.\<close>

definition data_as :: "account_name \<Rightarrow> action_name \<Rightarrow> 'a unpacker \<Rightarrow> action \<Rightarrow> 'a res" where
  "data_as get_account get_name u a =
     INE_ASSERT (act_account a = get_account) action_type_exception
     (INE_ASSERT (act_name a = get_name) action_type_exception
     (unpack_all u (act_data a)))"

section \<open>Transactions\<close>

type_synonym transaction_id_type = sha256
type_synonym chain_id_type = sha256

record transaction_header =
  expiration :: u32
  ref_block_num :: u16
  ref_block_prefix :: u32
  max_net_usage_words :: u32
  max_cpu_usage_ms :: u8
  delay_sec :: u32

record transaction = transaction_header +
  context_free_actions :: "action list"
  actions :: "action list"
  transaction_extensions :: extensions_type

record signed_transaction = transaction +
  signatures :: "signature_type list"
  context_free_data :: "bytes list"

definition get_ref_blocknum :: "u32 \<Rightarrow> 'a transaction_header_scheme \<Rightarrow> u32" where
  "get_ref_blocknum head_blocknum t = (head_blocknum div 0xffff) * 0xffff + head_blocknum mod 0xffff"

definition set_reference_block ::
  "block_id_type \<Rightarrow> 'a transaction_header_scheme \<Rightarrow> 'a transaction_header_scheme" where
  "set_reference_block reference_block t =
     t\<lparr>ref_block_num := ucast (endian_reverse_u32 (ucast (hash0 reference_block))),
       ref_block_prefix := ucast (hash1 reference_block)\<rparr>"

definition verify_reference_block :: "block_id_type \<Rightarrow> 'a transaction_header_scheme \<Rightarrow> bool" where
  "verify_reference_block reference_block t \<longleftrightarrow>
     ref_block_num t = ucast (endian_reverse_u32 (ucast (hash0 reference_block)))
     \<and> ref_block_prefix t = ucast (hash1 reference_block)"

definition transaction_header_validate :: "'a transaction_header_scheme \<Rightarrow> unit res" where
  "transaction_header_validate t =
     INE_ASSERT (unat (max_net_usage_words t) < (2 ^ 32 - 1) div 8) transaction_exception (Inr ())"

definition total_actions :: "'a transaction_scheme \<Rightarrow> u32" where
  "total_actions t = word_of_nat (length (context_free_actions t) + length (actions t))"

fun first_authorizer_of :: "action list \<Rightarrow> account_name" where
  "first_authorizer_of [] = 0"
| "first_authorizer_of (a # as) =
     (case authorization a of [] \<Rightarrow> first_authorizer_of as | u # us \<Rightarrow> actor u)"

definition first_authorizer :: "'a transaction_scheme \<Rightarrow> account_name" where
  "first_authorizer t = first_authorizer_of (actions t)"

definition pack_extensions :: "extensions_type packer" where
  "pack_extensions = pack_vector (pack_pair pack_scalar pack_bytes)"

definition unpack_extensions :: "extensions_type unpacker" where
  "unpack_extensions = unpack_vector (unpack_pair unpack_scalar unpack_bytes)"

definition pack_transaction :: "transaction packer" where
  "pack_transaction =
     pack_as (\<lambda>t. (expiration t, ref_block_num t, ref_block_prefix t, max_net_usage_words t, max_cpu_usage_ms t,
         delay_sec t, context_free_actions t, actions t, transaction_extensions t))
       (pack_pair pack_scalar (pack_pair pack_scalar (pack_pair pack_scalar (pack_pair pack_unsigned_int
         (pack_pair pack_scalar (pack_pair pack_unsigned_int (pack_pair (pack_vector pack_action)
           (pack_pair (pack_vector pack_action) pack_extensions))))))))"

definition unpack_transaction :: "transaction unpacker" where
  "unpack_transaction =
     unpack_as (\<lambda>(e, n, p, w, c, d, cfa, a, x).
         \<lparr>expiration = e, ref_block_num = n, ref_block_prefix = p, max_net_usage_words = w, max_cpu_usage_ms = c,
          delay_sec = d, context_free_actions = cfa, actions = a, transaction_extensions = x\<rparr>)
       (unpack_pair unpack_scalar (unpack_pair unpack_scalar (unpack_pair unpack_scalar (unpack_pair unpack_unsigned_int
         (unpack_pair unpack_scalar (unpack_pair unpack_unsigned_int (unpack_pair (unpack_vector unpack_action)
           (unpack_pair (unpack_vector unpack_action) unpack_extensions))))))))"

text \<open>The base-class part of a signed transaction.\<close>

definition transaction_of :: "signed_transaction \<Rightarrow> transaction" where
  "transaction_of t = transaction.truncate t"

section \<open>Digests\<close>

type_synonym sha = "bytes \<Rightarrow> digest_type"

definition trx_digest_id :: "sha \<Rightarrow> transaction \<Rightarrow> transaction_id_type res" where
  "trx_digest_id H t = res_bind (pack_transaction t) (\<lambda>bs. Inr (H bs))"

text \<open>The digest of the context-free data, and the message that is hashed for signing.\<close>

definition cfd_digest :: "sha \<Rightarrow> bytes list \<Rightarrow> digest_type res" where
  "cfd_digest H cfd =
     (if cfd \<noteq> [] then res_bind (pack_vector pack_bytes cfd) (\<lambda>bs. Inr (H bs)) else Inr zero_digest)"

definition sig_message :: "sha \<Rightarrow> chain_id_type \<Rightarrow> bytes list \<Rightarrow> transaction \<Rightarrow> bytes res" where
  "sig_message H chain_id cfd t =
     pack_append (pack_sha256 chain_id)
       (pack_append (pack_transaction t) (res_bind (cfd_digest H cfd) pack_sha256))"

definition trx_sig_digest :: "sha \<Rightarrow> chain_id_type \<Rightarrow> bytes list \<Rightarrow> transaction \<Rightarrow> digest_type res" where
  "trx_sig_digest H chain_id cfd t = res_bind (sig_message H chain_id cfd t) (\<lambda>bs. Inr (H bs))"

section \<open>Recovery of the signing keys\<close>

type_synonym key_recovery = "signature_type \<Rightarrow> digest_type \<Rightarrow> public_key_type res"

text \<open>
  The loop of \<open>get_signature_keys\<close>; \<open>now i\<close> is the \<open>i\<close>-th reading of the clock (the first is
  \<open>start\<close>). The set of recovered keys is a set.
\<close>

fun signature_keys_loop ::
  "key_recovery \<Rightarrow> (nat \<Rightarrow> i64) \<Rightarrow> i64 \<Rightarrow> digest_type \<Rightarrow> bool \<Rightarrow> nat \<Rightarrow> signature_type list \<Rightarrow> public_key_type set
   \<Rightarrow> public_key_type set res" where
  "signature_keys_loop recover now deadline digest allow_duplicate_keys i [] ks = Inr ks"
| "signature_keys_loop recover now deadline digest allow_duplicate_keys i (sig # sigs) ks =
     INE_ASSERT (now i <s deadline) tx_cpu_usage_exceeded
     (res_bind (recover sig digest) (\<lambda>k.
      INE_ASSERT (allow_duplicate_keys \<or> k \<notin> ks) tx_duplicate_sig
      (signature_keys_loop recover now deadline digest allow_duplicate_keys (Suc i) sigs (insert k ks))))"

definition get_signature_keys ::
  "sha \<Rightarrow> key_recovery \<Rightarrow> (nat \<Rightarrow> i64) \<Rightarrow> signature_type list \<Rightarrow> chain_id_type \<Rightarrow> i64 \<Rightarrow> bytes list \<Rightarrow> bool
   \<Rightarrow> transaction \<Rightarrow> (i64 \<times> public_key_type set) res" where
  "get_signature_keys H recover now sigs chain_id deadline cfd allow_duplicate_keys t =
     res_bind (trx_sig_digest H chain_id cfd t) (\<lambda>digest.
     res_bind (signature_keys_loop recover now deadline digest allow_duplicate_keys 1 sigs {}) (\<lambda>ks.
     Inr (now (Suc (length sigs)) - now 0, ks)))"

definition signed_get_signature_keys ::
  "sha \<Rightarrow> key_recovery \<Rightarrow> (nat \<Rightarrow> i64) \<Rightarrow> chain_id_type \<Rightarrow> i64 \<Rightarrow> bool \<Rightarrow> signed_transaction
   \<Rightarrow> (i64 \<times> public_key_type set) res" where
  "signed_get_signature_keys H recover now chain_id deadline allow_duplicate_keys t =
     get_signature_keys H recover now (signatures t) chain_id deadline (context_free_data t)
       allow_duplicate_keys (transaction_of t)"

text \<open>\<open>sign\<close> with the const qualifier returns the signature, without it appends it.\<close>

definition sign_const :: "sha \<Rightarrow> (digest_type \<Rightarrow> signature_type) \<Rightarrow> chain_id_type \<Rightarrow> signed_transaction \<Rightarrow> signature_type res" where
  "sign_const H sign_with chain_id t =
     res_bind (trx_sig_digest H chain_id (context_free_data t) (transaction_of t)) (\<lambda>d. Inr (sign_with d))"

definition sign_append :: "sha \<Rightarrow> (digest_type \<Rightarrow> signature_type) \<Rightarrow> chain_id_type \<Rightarrow> signed_transaction
    \<Rightarrow> signed_transaction res" where
  "sign_append H sign_with chain_id t =
     res_bind (sign_const H sign_with chain_id t) (\<lambda>s. Inr (t\<lparr>signatures := signatures t @ [s]\<rparr>))"

section \<open>Extensions\<close>

datatype transaction_extension =
  deferred_transaction_generation_context (sender_trx_id: transaction_id_type) (sender_id: u128) (sender: account_name)

definition deferred_context_reflector_init :: "transaction_extension \<Rightarrow> unit res" where
  "deferred_context_reflector_init x =
     INE_ASSERT (sender x \<noteq> 0) ill_formed_deferred_transaction_generation_context (Inr ())"

definition pack_deferred_context :: "transaction_extension packer" where
  "pack_deferred_context =
     pack_as (\<lambda>x. (sender_trx_id x, sender_id x, sender x)) (pack_pair pack_sha256 (pack_pair pack_scalar pack_scalar))"

definition unpack_deferred_context :: "transaction_extension unpacker" where
  "unpack_deferred_context ds =
     res_bind (unpack_as (\<lambda>(t, i, s). deferred_transaction_generation_context t i s)
        (unpack_pair unpack_sha256 (unpack_pair unpack_scalar unpack_scalar)) ds) (\<lambda>(x, ds').
     res_bind (deferred_context_reflector_init x) (\<lambda>_. Inr (x, ds')))"

definition deferred_context_extension_id :: u16 where
  "deferred_context_extension_id = 0"

definition extract_transaction_extension :: "u16 \<Rightarrow> bytes \<Rightarrow> transaction_extension option res" where
  "extract_transaction_extension i data =
     (if i = deferred_context_extension_id
      then res_bind (unpack_all unpack_deferred_context data) (\<lambda>x. Inr (Some x))
      else Inr None)"

fun extract_transaction_extensions_loop ::
  "bool \<Rightarrow> u16 \<Rightarrow> extensions_type \<Rightarrow> (u16 \<times> transaction_extension) list res" where
  "extract_transaction_extensions_loop first bound [] = Inr []"
| "extract_transaction_extensions_loop first bound ((i, data) # exts) =
     INE_ASSERT (bound \<le> i) invalid_transaction_extension
     (res_bind (extract_transaction_extension i data) (\<lambda>match.
      case match of None \<Rightarrow> Inl invalid_transaction_extension
      | Some x \<Rightarrow>
          INE_ASSERT (first \<or> bound < i) invalid_transaction_extension
          (res_bind (extract_transaction_extensions_loop False i exts) (\<lambda>rest. Inr ((i, x) # rest)))))"

definition validate_and_extract_transaction_extensions ::
  "'a transaction_scheme \<Rightarrow> (u16 \<times> transaction_extension) list res" where
  "validate_and_extract_transaction_extensions t =
     extract_transaction_extensions_loop True 0 (transaction_extensions t)"

section \<open>Packed transactions\<close>

text \<open>
  A signature is written as a tagged union: the tag, then the 65 bytes of a compact signature
  and for WebAuthn also the authenticator data and the client's JSON.
\<close>

definition pack_signature :: "signature_type packer" where
  "pack_signature s = (case s of
       SIG_K1 d \<Rightarrow> pack_static_variant 0 (pack_array 65 d)
     | SIG_R1 d \<Rightarrow> pack_static_variant 1 (pack_array 65 d)
     | SIG_WA d a j \<Rightarrow> pack_static_variant 2
         (pack_pair (pack_array 65) (pack_pair (pack_vector pack_scalar) pack_string) (d, a, j)))"

definition unpack_signature :: "signature_type unpacker" where
  "unpack_signature = unpack_static_variant (\<lambda>w.
     if w = 0 then unpack_as SIG_K1 (unpack_array 65)
     else if w = 1 then unpack_as SIG_R1 (unpack_array 65)
     else if w = 2 then unpack_as (\<lambda>(d, a, j). SIG_WA d a j)
       (unpack_pair (unpack_array 65) (unpack_pair (unpack_vector unpack_scalar) unpack_string))
     else (\<lambda>ds. Inl fc_assert_exception))"

text \<open>
  zlib: \<open>deflate\<close> compresses, and \<open>inflate\<close> gives the bytes decompression produces and whether the
  stream was well formed.
\<close>

record zlib =
  deflate :: "bytes \<Rightarrow> bytes"
  inflate :: "bytes \<Rightarrow> bytes \<times> bool"

definition decompression_limit :: nat where
  "decompression_limit = 1 * 1024 * 1024"

text \<open>
  The output runs through a filter that throws as soon as more than a mebibyte has been
  written; any other failure of the decompressor becomes an unhandled exception.
\<close>

definition zlib_decompress :: "zlib \<Rightarrow> bytes \<Rightarrow> bytes res" where
  "zlib_decompress Z data =
     (let (out, ok) = inflate Z data in
      INE_ASSERT (length out \<le> decompression_limit) tx_decompression_error
      (INE_ASSERT ok fc_unhandled_exception (Inr out)))"

definition unpack_context_free_data :: "bytes \<Rightarrow> bytes list res" where
  "unpack_context_free_data data =
     (if length data = 0 then Inr [] else unpack_all (unpack_vector unpack_bytes) data)"

definition zlib_decompress_context_free_data :: "zlib \<Rightarrow> bytes \<Rightarrow> bytes list res" where
  "zlib_decompress_context_free_data Z data =
     (if length data = 0 then Inr []
      else res_bind (zlib_decompress Z data) unpack_context_free_data)"

definition zlib_decompress_transaction :: "zlib \<Rightarrow> bytes \<Rightarrow> transaction res" where
  "zlib_decompress_transaction Z data =
     res_bind (zlib_decompress Z data) (unpack_all unpack_transaction)"

definition pack_context_free_data :: "bytes list \<Rightarrow> bytes res" where
  "pack_context_free_data cfd = (if length cfd = 0 then Inr [] else pack_vector pack_bytes cfd)"

definition zlib_compress_context_free_data :: "zlib \<Rightarrow> bytes list \<Rightarrow> bytes res" where
  "zlib_compress_context_free_data Z cfd =
     (if length cfd = 0 then Inr []
      else res_bind (pack_context_free_data cfd) (\<lambda>bs. Inr (deflate Z bs)))"

definition zlib_compress_transaction :: "zlib \<Rightarrow> transaction \<Rightarrow> bytes res" where
  "zlib_compress_transaction Z t = res_bind (pack_transaction t) (\<lambda>bs. Inr (deflate Z bs))"

text \<open>\<open>compression\<close> is read from a byte without a check, so it may hold any value.\<close>

definition compression_none :: u8 where
  "compression_none = 0"

definition compression_zlib :: u8 where
  "compression_zlib = 1"

record packed_transaction =
  pt_signatures :: "signature_type list"
  compression :: u8
  packed_context_free_data :: bytes
  packed_trx :: bytes
  unpacked_trx :: signed_transaction
  trx_id :: transaction_id_type

definition default_signed_transaction :: signed_transaction where
  "default_signed_transaction =
     \<lparr>expiration = 0, ref_block_num = 0, ref_block_prefix = 0, max_net_usage_words = 0, max_cpu_usage_ms = 0,
      delay_sec = 0, context_free_actions = [], actions = [], transaction_extensions = [],
      signatures = [], context_free_data = []\<rparr>"

definition mk_signed_transaction :: "transaction \<Rightarrow> signature_type list \<Rightarrow> bytes list \<Rightarrow> signed_transaction" where
  "mk_signed_transaction t sigs cfd = transaction.extend t (signed_transaction.fields sigs cfd)"

definition local_unpack_transaction ::
  "sha \<Rightarrow> zlib \<Rightarrow> bytes list \<Rightarrow> packed_transaction \<Rightarrow> packed_transaction res" where
  "local_unpack_transaction H Z cfd p =
     res_bind
       (if compression p = compression_none then unpack_all unpack_transaction (packed_trx p)
        else if compression p = compression_zlib then zlib_decompress_transaction Z (packed_trx p)
        else Inl unknown_transaction_compression) (\<lambda>t.
     res_bind (trx_digest_id H t) (\<lambda>i.
     Inr (p\<lparr>unpacked_trx := mk_signed_transaction t (pt_signatures p) cfd, trx_id := i\<rparr>)))"

definition local_unpack_context_free_data :: "zlib \<Rightarrow> packed_transaction \<Rightarrow> packed_transaction res" where
  "local_unpack_context_free_data Z p =
     INE_ASSERT (context_free_data (unpacked_trx p) = []) tx_decompression_error
     (res_bind
       (if compression p = compression_none then unpack_context_free_data (packed_context_free_data p)
        else if compression p = compression_zlib then zlib_decompress_context_free_data Z (packed_context_free_data p)
        else Inl unknown_transaction_compression) (\<lambda>cfd.
     Inr (p\<lparr>unpacked_trx := (unpacked_trx p)\<lparr>context_free_data := cfd\<rparr>\<rparr>)))"

definition local_pack_transaction :: "zlib \<Rightarrow> packed_transaction \<Rightarrow> packed_transaction res" where
  "local_pack_transaction Z p =
     res_bind
       (if compression p = compression_none then pack_transaction (transaction_of (unpacked_trx p))
        else if compression p = compression_zlib then zlib_compress_transaction Z (transaction_of (unpacked_trx p))
        else Inl unknown_transaction_compression) (\<lambda>bs.
     Inr (p\<lparr>packed_trx := bs\<rparr>))"

definition local_pack_context_free_data :: "zlib \<Rightarrow> packed_transaction \<Rightarrow> packed_transaction res" where
  "local_pack_context_free_data Z p =
     res_bind
       (if compression p = compression_none then pack_context_free_data (context_free_data (unpacked_trx p))
        else if compression p = compression_zlib
        then zlib_compress_context_free_data Z (context_free_data (unpacked_trx p))
        else Inl unknown_transaction_compression) (\<lambda>bs.
     Inr (p\<lparr>packed_context_free_data := bs\<rparr>))"

text \<open>The constructors: from a signed transaction, and the three that the ABI serializer uses.\<close>

definition packed_transaction_of_signed :: "sha \<Rightarrow> zlib \<Rightarrow> u8 \<Rightarrow> signed_transaction \<Rightarrow> packed_transaction res" where
  "packed_transaction_of_signed H Z c t =
     res_bind (trx_digest_id H (transaction_of t)) (\<lambda>i.
     res_bind (local_pack_transaction Z
       \<lparr>pt_signatures = signatures t, compression = c, packed_context_free_data = [], packed_trx = [],
        unpacked_trx = t, trx_id = i\<rparr>)
     (local_pack_context_free_data Z))"

definition packed_transaction_of_bytes ::
  "sha \<Rightarrow> zlib \<Rightarrow> bytes \<Rightarrow> signature_type list \<Rightarrow> bytes \<Rightarrow> u8 \<Rightarrow> packed_transaction res" where
  "packed_transaction_of_bytes H Z packed_txn sigs packed_cfd c =
     res_bind (local_unpack_transaction H Z []
       \<lparr>pt_signatures = sigs, compression = c, packed_context_free_data = packed_cfd, packed_trx = packed_txn,
        unpacked_trx = default_signed_transaction, trx_id = zero_digest\<rparr>) (\<lambda>p.
     if packed_context_free_data p \<noteq> [] then local_unpack_context_free_data Z p else Inr p)"

definition packed_transaction_of_bytes_cfd ::
  "sha \<Rightarrow> zlib \<Rightarrow> bytes \<Rightarrow> signature_type list \<Rightarrow> bytes list \<Rightarrow> u8 \<Rightarrow> packed_transaction res" where
  "packed_transaction_of_bytes_cfd H Z packed_txn sigs cfd c =
     res_bind (local_unpack_transaction H Z cfd
       \<lparr>pt_signatures = sigs, compression = c, packed_context_free_data = [], packed_trx = packed_txn,
        unpacked_trx = default_signed_transaction, trx_id = zero_digest\<rparr>) (\<lambda>p.
     if context_free_data (unpacked_trx p) \<noteq> [] then local_pack_context_free_data Z p else Inr p)"

definition packed_transaction_of_transaction ::
  "sha \<Rightarrow> zlib \<Rightarrow> transaction \<Rightarrow> signature_type list \<Rightarrow> bytes \<Rightarrow> u8 \<Rightarrow> packed_transaction res" where
  "packed_transaction_of_transaction H Z t sigs packed_cfd c =
     res_bind (trx_digest_id H t) (\<lambda>i.
     res_bind (local_pack_transaction Z
       \<lparr>pt_signatures = sigs, compression = c, packed_context_free_data = packed_cfd, packed_trx = [],
        unpacked_trx = mk_signed_transaction t sigs [], trx_id = i\<rparr>) (\<lambda>p.
     if packed_context_free_data p \<noteq> [] then local_unpack_context_free_data Z p else Inr p))"

definition packed_transaction_reflector_init ::
  "sha \<Rightarrow> zlib \<Rightarrow> packed_transaction \<Rightarrow> packed_transaction res" where
  "packed_transaction_reflector_init H Z p =
     INE_ASSERT (expiration (unpacked_trx p) = 0) tx_decompression_error
     (res_bind (local_unpack_transaction H Z [] p) (local_unpack_context_free_data Z))"

text \<open>The reflected form of a packed transaction, with the initialisation that follows unpacking.\<close>

definition pack_packed_transaction :: "packed_transaction packer" where
  "pack_packed_transaction =
     pack_as (\<lambda>p. (pt_signatures p, compression p, packed_context_free_data p, packed_trx p))
       (pack_pair (pack_vector pack_signature) (pack_pair pack_enum_u8 (pack_pair pack_bytes pack_bytes)))"

definition unpack_packed_transaction :: "sha \<Rightarrow> zlib \<Rightarrow> packed_transaction unpacker" where
  "unpack_packed_transaction H Z ds =
     res_bind (unpack_pair (unpack_vector unpack_signature)
        (unpack_pair unpack_enum_u8 (unpack_pair unpack_bytes unpack_bytes)) ds) (\<lambda>((sigs, c, cfd, trx), ds').
     res_bind (packed_transaction_reflector_init H Z
        \<lparr>pt_signatures = sigs, compression = c, packed_context_free_data = cfd, packed_trx = trx,
         unpacked_trx = default_signed_transaction, trx_id = zero_digest\<rparr>) (\<lambda>p.
     Inr (p, ds')))"

definition get_raw_transaction :: "zlib \<Rightarrow> packed_transaction \<Rightarrow> bytes res" where
  "get_raw_transaction Z p =
     (if compression p = compression_none then Inr (packed_trx p)
      else if compression p = compression_zlib then zlib_decompress Z (packed_trx p)
      else Inl unknown_transaction_compression)"

definition fixed_net_overhead_of_packed_trx :: nat where
  "fixed_net_overhead_of_packed_trx = 16"

text \<open>Sizes are added in 64 bits; a length of a vector fits there.\<close>

definition get_unprunable_size :: "packed_transaction \<Rightarrow> u32 res" where
  "get_unprunable_size p =
     (let size = fixed_net_overhead_of_packed_trx + length (packed_trx p) in
      INE_ASSERT (size \<le> 2 ^ 32 - 1) tx_too_big (Inr (word_of_nat size)))"

definition get_prunable_size :: "packed_transaction \<Rightarrow> u32 res" where
  "get_prunable_size p =
     res_bind (pack_vector pack_signature (pt_signatures p)) (\<lambda>sigs.
     (let size = length sigs + length (packed_context_free_data p) in
      INE_ASSERT (size \<le> 2 ^ 32 - 1) tx_too_big (Inr (word_of_nat size))))"

definition packed_digest :: "sha \<Rightarrow> packed_transaction \<Rightarrow> digest_type res" where
  "packed_digest H p =
     res_bind (pack_append (pack_vector pack_signature (pt_signatures p)) (pack_bytes (packed_context_free_data p)))
       (\<lambda>prunable.
     res_bind (pack_append (pack_enum_u8 (compression p)) (pack_append (pack_bytes (packed_trx p)) (pack_sha256 (H prunable))))
       (\<lambda>bs. Inr (H bs)))"

section \<open>Transaction metadata\<close>

datatype trx_type = trx_input | trx_implicit | trx_scheduled

record transaction_metadata =
  tm_packed_trx :: packed_transaction
  sig_cpu_usage :: i64
  recovered_pub_keys :: "public_key_type set"
  implicit :: bool
  scheduled :: bool
  accepted :: bool
  billed_cpu_time_us :: u32

fun variable_size :: "signature_type \<Rightarrow> nat" where
  "variable_size (SIG_K1 d) = 0"
| "variable_size (SIG_R1 d) = 0"
| "variable_size (SIG_WA d a j) = length a + length j"

definition check_variable_sig_size :: "packed_transaction \<Rightarrow> u32 \<Rightarrow> unit res" where
  "check_variable_sig_size p limit =
     (if \<forall>s \<in> set (signatures (unpacked_trx p)). variable_size s \<le> unat limit then Inr ()
      else Inl sig_variable_size_limit_exception)"

definition create_no_recover_keys :: "packed_transaction \<Rightarrow> trx_type \<Rightarrow> transaction_metadata" where
  "create_no_recover_keys p t =
     \<lparr>tm_packed_trx = p, sig_cpu_usage = 0, recovered_pub_keys = {}, implicit = (t = trx_implicit),
      scheduled = (t = trx_scheduled), accepted = False, billed_cpu_time_us = 0\<rparr>"

text \<open>
  The task that \<open>start_recover_keys\<close> posts to the thread pool, run to its end. \<open>now 0\<close> is the
  reading for the deadline; the readings of \<open>get_signature_keys\<close> follow.
\<close>

definition recover_keys_task ::
  "sha \<Rightarrow> key_recovery \<Rightarrow> (nat \<Rightarrow> i64) \<Rightarrow> packed_transaction \<Rightarrow> chain_id_type \<Rightarrow> i64 \<Rightarrow> u32
   \<Rightarrow> transaction_metadata res" where
  "recover_keys_task H recover now p chain_id time_limit max_variable_sig_size =
     (let deadline = (if time_limit = 0x7fffffffffffffff then 0x7fffffffffffffff else now 0 + time_limit) in
      res_bind (check_variable_sig_size p max_variable_sig_size) (\<lambda>_.
      res_bind (signed_get_signature_keys H recover (\<lambda>i. now (Suc i)) chain_id deadline False (unpacked_trx p))
        (\<lambda>(cpu_usage, ks).
      Inr \<lparr>tm_packed_trx = p, sig_cpu_usage = cpu_usage, recovered_pub_keys = ks, implicit = False,
           scheduled = False, accepted = False, billed_cpu_time_us = 0\<rparr>)))"

section \<open>The codecs meet the contract\<close>

lemma permission_level_codec: "raw_codec pack_permission_level unpack_permission_level (\<lambda>_. True)"
  unfolding pack_permission_level_def unpack_permission_level_def
  by (rule reflected_codec, (rule raw_codecs)+) auto

lemma action_codec: "raw_codec pack_action unpack_action (\<lambda>_. True)"
  unfolding pack_action_def unpack_action_def
  by (rule reflected_codec, (rule raw_codecs permission_level_codec)+) (auto simp: list_all_iff)

lemma extensions_codec: "raw_codec pack_extensions unpack_extensions (\<lambda>_. True)"
  unfolding pack_extensions_def unpack_extensions_def
  by (rule raw_codec_weaken, (rule raw_codecs)+) (simp add: list_all_iff)

interpretation raw_transaction: raw_codec pack_transaction unpack_transaction "\<lambda>_. True"
  unfolding pack_transaction_def unpack_transaction_def
  by (rule reflected_codec, (rule raw_codecs action_codec extensions_codec)+) (auto simp: list_all_iff)

interpretation raw_cfd: raw_codec "pack_vector pack_bytes" "unpack_vector unpack_bytes" "\<lambda>_. True"
  by (rule raw_codec_weaken, (rule raw_codecs)+) (simp add: list_all_iff)

text \<open>A signature has the 65 bytes of its curve form.\<close>

fun signature_ok :: "signature_type \<Rightarrow> bool" where
  "signature_ok (SIG_K1 d) \<longleftrightarrow> length d = 65"
| "signature_ok (SIG_R1 d) \<longleftrightarrow> length d = 65"
| "signature_ok (SIG_WA d a j) \<longleftrightarrow> length d = 65"

interpretation raw_signature: raw_codec pack_signature unpack_signature signature_ok
proof (rule raw_codecI)
  note wa = pair_codec [OF array_codec [of 65] pair_codec [OF vector_codec [OF raw_u8.raw_codec_axioms]
      raw_string.raw_codec_axioms]]
  fix x bs rest assume "signature_ok x" "pack_signature x = Inr bs"
  then show "unpack_signature (bs @ rest) = Inr (x, rest)"
    unfolding unpack_signature_def
    by (cases x)
      (simp_all add: pack_signature_def list_all_iff static_variant_roundtrip [OF array_codec]
        static_variant_roundtrip [OF wa, of "(_, _, _)"])
next
  note wa = pair_codec [OF array_codec [of 65] pair_codec [OF vector_codec [OF raw_u8.raw_codec_axioms]
      raw_string.raw_codec_axioms]]
  fix x bs k assume "signature_ok x" "pack_signature x = Inr bs" "k < length bs"
  then show "unpack_signature (take k bs) = Inl out_of_range_exception"
    unfolding unpack_signature_def
    by (cases x)
      (simp_all add: pack_signature_def list_all_iff static_variant_truncated [OF array_codec]
        static_variant_truncated [OF wa, of "(_, _, _)"])
qed

section \<open>Packing and unpacking transactions\<close>

text \<open>
  What the code relies on of zlib: decompression undoes compression, and a compressed stream is
  never empty (it starts with a header of two bytes).
\<close>

definition zlib_laws :: "zlib \<Rightarrow> bool" where
  "zlib_laws Z \<longleftrightarrow> (\<forall>bs. inflate Z (deflate Z bs) = (bs, True) \<and> deflate Z bs \<noteq> [])"

text \<open>The packed transaction and context-free data stay within the limit for decompression.\<close>

definition within_limit :: "bytes res \<Rightarrow> bool" where
  "within_limit r \<longleftrightarrow> (case r of Inl e \<Rightarrow> True | Inr bs \<Rightarrow> length bs \<le> decompression_limit)"

definition decompressible :: "u8 \<Rightarrow> signed_transaction \<Rightarrow> bool" where
  "decompressible c t \<longleftrightarrow>
     c \<noteq> compression_zlib
     \<or> within_limit (pack_transaction (transaction_of t)) \<and> within_limit (pack_context_free_data (context_free_data t))"

lemma zlib_decompress_deflate:
  "zlib_laws Z \<Longrightarrow> length bs \<le> decompression_limit \<Longrightarrow> zlib_decompress Z (deflate Z bs) = Inr bs"
  by (simp add: zlib_laws_def zlib_decompress_def)

lemma unpack_packed_trx:
  assumes "zlib_laws Z" "c = compression_zlib \<longrightarrow> within_limit (pack_transaction t)"
    and "(if c = compression_none then pack_transaction t
      else if c = compression_zlib then zlib_compress_transaction Z t else Inl e) = Inr bs"
  shows "(if c = compression_none then unpack_all unpack_transaction bs
      else if c = compression_zlib then zlib_decompress_transaction Z bs else Inl e') = Inr t"
  using assms
  by (auto simp: zlib_compress_transaction_def zlib_decompress_transaction_def within_limit_def
      zlib_decompress_deflate raw_transaction.unpack_all_pack split: if_splits)

lemma unpack_packed_cfd:
  assumes "zlib_laws Z" "c = compression_zlib \<longrightarrow> within_limit (pack_context_free_data cfd)"
    and "(if c = compression_none then pack_context_free_data cfd
      else if c = compression_zlib then zlib_compress_context_free_data Z cfd else Inl e) = Inr bs"
  shows "(if c = compression_none then unpack_context_free_data bs
      else if c = compression_zlib then zlib_decompress_context_free_data Z bs else Inl e') = Inr cfd"
proof -
  have nonempty: "bs' \<noteq> []" if "pack_vector pack_bytes cfd = Inr bs'" for bs'
    using that length_pack_varint_pos by (auto simp: pack_vector_def pack_unsigned_int_def split: if_splits)
  have plain: "unpack_context_free_data bs' = Inr cfd" if "pack_context_free_data cfd = Inr bs'" for bs'
    using that nonempty
    by (auto simp: pack_context_free_data_def unpack_context_free_data_def raw_cfd.unpack_all_pack split: if_splits)
  show ?thesis
    using assms plain
    by (auto simp: zlib_compress_context_free_data_def zlib_decompress_context_free_data_def within_limit_def
        zlib_decompress_deflate zlib_laws_def unpack_context_free_data_def split: if_splits)
qed

lemma mk_signed_transaction_of [simp]:
  "(mk_signed_transaction (transaction_of t) (signatures t) [])\<lparr>context_free_data := context_free_data t\<rparr> = t"
  "context_free_data (mk_signed_transaction t' sigs cfd) = cfd"
  by (simp_all add: mk_signed_transaction_def transaction_of_def transaction.defs signed_transaction.defs)

lemma packed_of_signed_fields:
  assumes "packed_transaction_of_signed H Z c t = Inr p"
  shows "pt_signatures p = signatures t" "compression p = c" "unpacked_trx p = t"
    "trx_digest_id H (transaction_of t) = Inr (trx_id p)"
    "(if c = compression_none then pack_transaction (transaction_of t)
      else if c = compression_zlib then zlib_compress_transaction Z (transaction_of t)
      else Inl unknown_transaction_compression) = Inr (packed_trx p)"
    "(if c = compression_none then pack_context_free_data (context_free_data t)
      else if c = compression_zlib then zlib_compress_context_free_data Z (context_free_data t)
      else Inl unknown_transaction_compression) = Inr (packed_context_free_data p)"
proof -
  from assms obtain i q where i: "trx_digest_id H (transaction_of t) = Inr i"
    and q: "local_pack_transaction Z \<lparr>pt_signatures = signatures t, compression = c, packed_context_free_data = [],
        packed_trx = [], unpacked_trx = t, trx_id = i\<rparr> = Inr q"
    and p: "local_pack_context_free_data Z q = Inr p"
    by (auto simp only: packed_transaction_of_signed_def res_bind_eq_Inr)
  from q obtain bs where q': "q = \<lparr>pt_signatures = signatures t, compression = c, packed_context_free_data = [],
        packed_trx = bs, unpacked_trx = t, trx_id = i\<rparr>"
    and bs: "(if c = compression_none then pack_transaction (transaction_of t)
      else if c = compression_zlib then zlib_compress_transaction Z (transaction_of t)
      else Inl unknown_transaction_compression) = Inr bs"
    unfolding local_pack_transaction_def by (simp only: res_bind_eq_Inr packed_transaction.simps) auto
  from p obtain cs where p': "p = \<lparr>pt_signatures = signatures t, compression = c, packed_context_free_data = cs,
        packed_trx = bs, unpacked_trx = t, trx_id = i\<rparr>"
    and cs: "(if c = compression_none then pack_context_free_data (context_free_data t)
      else if c = compression_zlib then zlib_compress_context_free_data Z (context_free_data t)
      else Inl unknown_transaction_compression) = Inr cs"
    unfolding local_pack_context_free_data_def q' by (simp only: res_bind_eq_Inr packed_transaction.simps) auto
  show "pt_signatures p = signatures t" "compression p = c" "unpacked_trx p = t"
    "trx_digest_id H (transaction_of t) = Inr (trx_id p)"
    "(if c = compression_none then pack_transaction (transaction_of t)
      else if c = compression_zlib then zlib_compress_transaction Z (transaction_of t)
      else Inl unknown_transaction_compression) = Inr (packed_trx p)"
    "(if c = compression_none then pack_context_free_data (context_free_data t)
      else if c = compression_zlib then zlib_compress_context_free_data Z (context_free_data t)
      else Inl unknown_transaction_compression) = Inr (packed_context_free_data p)"
    using i bs cs unfolding p' by (simp_all only: packed_transaction.simps)
qed

text \<open>Initialising the packed fields of a transaction brings back the whole object.\<close>

lemma reflector_init_packed:
  assumes "packed_transaction_of_signed H Z c t = Inr p" "zlib_laws Z" "decompressible c t"
  shows "packed_transaction_reflector_init H Z
     \<lparr>pt_signatures = pt_signatures p, compression = compression p,
      packed_context_free_data = packed_context_free_data p, packed_trx = packed_trx p,
      unpacked_trx = default_signed_transaction, trx_id = zero_digest\<rparr> = Inr p"
proof -
  note f = packed_of_signed_fields [OF assms(1)]
  have trx: "(if c = compression_none then unpack_all unpack_transaction (packed_trx p)
      else if c = compression_zlib then zlib_decompress_transaction Z (packed_trx p)
      else Inl unknown_transaction_compression) = Inr (transaction_of t)"
    by (rule unpack_packed_trx [OF assms(2) _ f(5)]) (use assms(3) in \<open>auto simp: decompressible_def\<close>)
  have cfd: "(if c = compression_none then unpack_context_free_data (packed_context_free_data p)
      else if c = compression_zlib then zlib_decompress_context_free_data Z (packed_context_free_data p)
      else Inl unknown_transaction_compression) = Inr (context_free_data t)"
    by (rule unpack_packed_cfd [OF assms(2) _ f(6)]) (use assms(3) in \<open>auto simp: decompressible_def\<close>)
  show ?thesis
    using f(1-4)
    by (simp add: packed_transaction_reflector_init_def local_unpack_transaction_def local_unpack_context_free_data_def
        trx cfd default_signed_transaction_def cong: if_cong del: res_bind_eq_Inr split del: if_split)
qed

text \<open>
  C9. A packed transaction survives the wire: what the constructor builds from a signed
  transaction, with or without compression, is written by \<open>fc::raw::pack\<close> so that unpacking and
  the initialisation that follows it give back the very same object (signed transaction, id and
  packed bytes) and leave the rest of the stream. With zlib this needs the transaction and its
  context-free data to be within the limit on decompressed data.
\<close>

theorem packed_transaction_roundtrip:
  assumes "zlib_laws Z" and "packed_transaction_of_signed H Z c t = Inr p" and "decompressible c t"
    and "list_all signature_ok (signatures t)" and "pack_packed_transaction p = Inr bs"
  shows "unpack_packed_transaction H Z (bs @ rest) = Inr (p, rest)"
proof -
  note f = packed_of_signed_fields [OF assms(2)]
  have "unpack_pair (unpack_vector unpack_signature)
      (unpack_pair unpack_enum_u8 (unpack_pair unpack_bytes unpack_bytes)) (bs @ rest)
      = Inr ((pt_signatures p, compression p, packed_context_free_data p, packed_trx p), rest)"
    using assms(4,5) f(1) unfolding pack_packed_transaction_def pack_as_def
    by (intro raw_codec.roundtrip [OF pair_codec [OF vector_codec [OF raw_signature.raw_codec_axioms]
          pair_codec [OF raw_enum_u8.raw_codec_axioms pair_codec [OF raw_bytes.raw_codec_axioms
            raw_bytes.raw_codec_axioms]]]]) simp_all
  then show ?thesis
    using reflector_init_packed [OF assms(2,1,3)]
    by (simp add: unpack_packed_transaction_def del: res_bind_eq_Inr)
qed

text \<open>
  C29. Bytes that are not a packed transaction are refused with the exception that says why: an
  unknown compression code, a transaction that ends too early, or compressed data that would
  expand beyond the limit (a decompression bomb).
\<close>

theorem packed_transaction_of_bytes_errors:
  assumes "pack_transaction t = Inr bs" and "k < length bs"
    and "c \<noteq> compression_none" "c \<noteq> compression_zlib"
    and "decompression_limit < length (fst (inflate Z bomb))"
  shows "packed_transaction_of_bytes H Z (take k bs) sigs cfd compression_none = Inl out_of_range_exception
    \<and> packed_transaction_of_bytes H Z txn sigs cfd c = Inl unknown_transaction_compression
    \<and> packed_transaction_of_bytes H Z bomb sigs cfd compression_zlib = Inl tx_decompression_error"
proof (intro conjI)
  show "packed_transaction_of_bytes H Z (take k bs) sigs cfd compression_none = Inl out_of_range_exception"
    using raw_transaction.unpack_all_truncated [OF TrueI assms(1,2)]
    by (simp add: packed_transaction_of_bytes_def local_unpack_transaction_def)
  show "packed_transaction_of_bytes H Z txn sigs cfd c = Inl unknown_transaction_compression"
    using assms(3,4) by (simp add: packed_transaction_of_bytes_def local_unpack_transaction_def)
  have "zlib_decompress Z bomb = Inl tx_decompression_error"
    using assms(5) by (cases "inflate Z bomb") (simp add: zlib_decompress_def)
  moreover have "compression_zlib \<noteq> compression_none" by (simp add: compression_zlib_def compression_none_def)
  ultimately show "packed_transaction_of_bytes H Z bomb sigs cfd compression_zlib = Inl tx_decompression_error"
    by (simp add: packed_transaction_of_bytes_def local_unpack_transaction_def zlib_decompress_transaction_def)
qed

section \<open>What a signature covers\<close>

text \<open>
  C18. The message that is hashed and signed determines the chain, the transaction and the
  digest of its context-free data: no two different combinations give the same message, so a
  signature cannot be moved to another chain or another transaction without a collision of
  the hash. In particular different transactions are packed differently.
\<close>

theorem sig_message_binding:
  assumes "sig_message H chain1 cfd1 t1 = Inr m" and "sig_message H chain2 cfd2 t2 = Inr m"
  shows "chain1 = chain2 \<and> t1 = t2 \<and> cfd_digest H cfd1 = cfd_digest H cfd2"
proof -
  obtain a1 b1 e1 d1 where 1: "pack_sha256 chain1 = Inr a1" "pack_transaction t1 = Inr b1"
      "cfd_digest H cfd1 = Inr d1" "pack_sha256 d1 = Inr e1" "m = a1 @ b1 @ e1"
    using assms(1) by (auto simp: sig_message_def)
  obtain a2 b2 e2 d2 where 2: "pack_sha256 chain2 = Inr a2" "pack_transaction t2 = Inr b2"
      "cfd_digest H cfd2 = Inr d2" "pack_sha256 d2 = Inr e2" "m = a2 @ b2 @ e2"
    using assms(2) by (auto simp: sig_message_def)
  have eq: "a1 @ b1 @ e1 = a2 @ b2 @ e2" using 1 2 by simp
  have "unpack_sha256 (a1 @ b1 @ e1) = Inr (chain1, b1 @ e1)" "unpack_sha256 (a2 @ b2 @ e2) = Inr (chain2, b2 @ e2)"
    using 1(1) 2(1) by (simp_all only: raw_sha256.roundtrip)
  then have c: "chain1 = chain2" "b1 @ e1 = b2 @ e2" using eq by simp_all
  have "unpack_transaction (b1 @ e1) = Inr (t1, e1)" "unpack_transaction (b2 @ e2) = Inr (t2, e2)"
    using 1(2) 2(2) by (simp_all only: raw_transaction.roundtrip)
  then have t: "t1 = t2" "e1 = e2" using c(2) by simp_all
  then have "d1 = d2" using 1(4) 2(4) by (auto intro: raw_sha256.pack_inj)
  then show ?thesis using c t 1 2 by simp
qed

lemma signature_keys_loop_iff:
  "signature_keys_loop R now deadline d False i sigs ks = Inr ks' \<longleftrightarrow>
     (\<exists>kl. list_all2 (\<lambda>s k. R s d = Inr k) sigs kl \<and> distinct kl \<and> set kl \<inter> ks = {} \<and> ks' = ks \<union> set kl)
     \<and> (\<forall>j < length sigs. now (i + j) <s deadline)"
proof (induction sigs arbitrary: i ks)
  case (Cons s sigs)
  show ?case
  proof (cases "R s d")
    case (Inr k)
    have "(\<forall>j < length (s # sigs). now (i + j) <s deadline)
        \<longleftrightarrow> now i <s deadline \<and> (\<forall>j < length sigs. now (Suc i + j) <s deadline)"
      by (auto simp: less_Suc_eq_0_disj)
    moreover have "(\<exists>kl. list_all2 (\<lambda>s k. R s d = Inr k) (s # sigs) kl \<and> distinct kl \<and> set kl \<inter> ks = {}
        \<and> ks' = ks \<union> set kl)
      \<longleftrightarrow> k \<notin> ks \<and> (\<exists>kl. list_all2 (\<lambda>s k. R s d = Inr k) sigs kl \<and> distinct kl
        \<and> set kl \<inter> insert k ks = {} \<and> ks' = insert k ks \<union> set kl)"
      unfolding list_all2_Cons_ex using Inr by auto
    ultimately show ?thesis using Inr Cons.IH [of "Suc i" "insert k ks"] by auto
  qed (auto simp: list_all2_Cons1)
qed auto

text \<open>
  C10. \<open>get_signature_keys\<close> without duplicates succeeds exactly when no clock reading before a
  recovery reaches the deadline, every signature recovers a key from the digest of this chain
  and transaction, and no two signatures recover the same key; it returns just those keys.
\<close>

theorem get_signature_keys_iff:
  "get_signature_keys H R now sigs chain deadline cfd False t = Inr (elapsed, ks) \<longleftrightarrow>
     (\<exists>d kl. trx_sig_digest H chain cfd t = Inr d \<and> list_all2 (\<lambda>s k. R s d = Inr k) sigs kl
        \<and> distinct kl \<and> ks = set kl)
     \<and> (\<forall>j < length sigs. now (Suc j) <s deadline)
     \<and> elapsed = now (Suc (length sigs)) - now 0"
  by (auto simp: get_signature_keys_def signature_keys_loop_iff)

text \<open>A transaction that was given a reference block verifies against that block.\<close>

lemma verify_set_reference_block: "verify_reference_block b (set_reference_block b t)"
  by (simp add: verify_reference_block_def set_reference_block_def)

text \<open>
  \<open>get_ref_blocknum\<close> does not look at the transaction: it returns the head's number.
\<close>

lemma get_ref_blocknum_is_head: "get_ref_blocknum head_blocknum t = head_blocknum"
  unfolding get_ref_blocknum_def by (rule div_mult_mod_eq)

section \<open>Examples\<close>

text \<open>A stand-in for zlib that frames the data with one header byte.\<close>

definition example_zlib :: zlib where
  "example_zlib =
     \<lparr>deflate = (\<lambda>bs. 0x78 # bs), inflate = (\<lambda>bs. case bs of [] \<Rightarrow> ([], False) | b # ds \<Rightarrow> (ds, b = 0x78))\<rparr>"

definition example_sha :: sha where
  "example_sha bs = sha256 (of_nat (length bs)) (of_le_bytes bs) 0 0"

definition example_signed_trx :: signed_transaction where
  "example_signed_trx =
     \<lparr>expiration = 7, ref_block_num = 1, ref_block_prefix = 2, max_net_usage_words = 2, max_cpu_usage_ms = 4,
      delay_sec = 0, context_free_actions = [],
      actions = [\<lparr>act_account = 5, act_name = 6, authorization = [\<lparr>actor = 8, permission = 9\<rparr>], act_data = [10, 11]\<rparr>],
      transaction_extensions = [], signatures = [SIG_K1 (replicate 65 12)], context_free_data = [[13]]\<rparr>"

lemma example_zlib_laws: "zlib_laws example_zlib"
  by (simp add: zlib_laws_def example_zlib_def)

lemma pack_small_lengths: "pack_unsigned_int 0 = Inr [0]" "pack_unsigned_int 1 = Inr [1]" "pack_unsigned_int 2 = Inr [2]"
  by code_simp+

lemmas example_eval = pack_as_def pack_pair_def pack_vector_def pack_bytes_def pack_append_def pack_scalar_def
  pack_small_lengths MAX_NUM_ARRAY_ELEMENTS_def MAX_SIZE_OF_BYTE_ARRAYS_def

lemma example_pack:
  "\<exists>bs. pack_transaction (transaction_of example_signed_trx) = Inr bs \<and> length bs = 52"
  by (simp add: example_eval pack_transaction_def pack_action_def pack_permission_level_def pack_extensions_def
      example_signed_trx_def transaction_of_def transaction.defs)

lemma example_pack_cfd: "pack_context_free_data (context_free_data example_signed_trx) = Inr [1, 1, 13]"
  by (simp add: example_eval pack_context_free_data_def example_signed_trx_def)

lemma example_packed:
  "\<exists>p bs. packed_transaction_of_signed example_sha example_zlib 1 example_signed_trx = Inr p
     \<and> pack_packed_transaction p = Inr bs"
proof -
  obtain bs where bs: "pack_transaction (transaction_of example_signed_trx) = Inr bs" "length bs = 52"
    using example_pack by blast
  have "packed_transaction_of_signed example_sha example_zlib 1 example_signed_trx
      = Inr \<lparr>pt_signatures = signatures example_signed_trx, compression = 1,
          packed_context_free_data = 0x78 # [1, 1, 13], packed_trx = 0x78 # bs,
          unpacked_trx = example_signed_trx, trx_id = example_sha bs\<rparr>"
    using bs example_pack_cfd
    by (simp add: packed_transaction_of_signed_def trx_digest_id_def local_pack_transaction_def
        local_pack_context_free_data_def zlib_compress_transaction_def zlib_compress_context_free_data_def
        compression_none_def compression_zlib_def example_zlib_def del: res_bind_eq_Inr)
      (simp add: example_signed_trx_def)
  moreover have "\<exists>bs'. pack_packed_transaction \<lparr>pt_signatures = signatures example_signed_trx, compression = 1,
          packed_context_free_data = 0x78 # [1, 1, 13], packed_trx = 0x78 # bs,
          unpacked_trx = example_signed_trx, trx_id = example_sha bs\<rparr> = Inr bs'"
    using bs(2)
    by (simp add: example_eval pack_packed_transaction_def pack_enum_u8_def pack_unsigned_int_def
        example_signed_trx_def pack_signature_def pack_static_variant_def pack_array_def del: res_bind_eq_Inr)
  ultimately show ?thesis by blast
qed

theorem packed_transaction_roundtrip_witness:
  "\<exists>p bs. unpacked_trx p = example_signed_trx
     \<and> unpack_packed_transaction example_sha example_zlib (bs @ [1, 2]) = Inr (p, [1, 2])"
proof -
  obtain p bs where p: "packed_transaction_of_signed example_sha example_zlib 1 example_signed_trx = Inr p"
    and bs: "pack_packed_transaction p = Inr bs" using example_packed by blast
  have "decompressible 1 example_signed_trx"
    using example_pack example_pack_cfd
    by (auto simp: decompressible_def within_limit_def decompression_limit_def)
  moreover have "list_all signature_ok (signatures example_signed_trx)" by (simp add: example_signed_trx_def)
  ultimately show ?thesis
    using packed_transaction_roundtrip [OF example_zlib_laws p _ _ bs] packed_of_signed_fields(3) [OF p] by blast
qed

text \<open>A stream that would expand to two mebibytes.\<close>

definition example_bomb :: zlib where
  "example_bomb = \<lparr>deflate = (\<lambda>bs. bs), inflate = (\<lambda>bs. (replicate (2 * decompression_limit) 0, True))\<rparr>"

theorem packed_transaction_of_bytes_errors_witness:
  "packed_transaction_of_bytes example_sha example_bomb [] [] [] 2 = Inl unknown_transaction_compression
    \<and> packed_transaction_of_bytes example_sha example_bomb [0] [] [] 1 = Inl tx_decompression_error"
proof -
  obtain bs where "pack_transaction (transaction_of example_signed_trx) = Inr bs" "0 < length bs"
    using example_pack by fastforce
  moreover have "decompression_limit < length (fst (inflate example_bomb [0]))"
    by (simp add: example_bomb_def decompression_limit_def)
  ultimately show ?thesis
    using packed_transaction_of_bytes_errors [of "transaction_of example_signed_trx" bs 0 2 example_bomb "[0]"
        example_sha "[]" "[]" "[]"]
    by (simp add: compression_none_def compression_zlib_def)
qed

theorem sig_message_binding_witness:
  "\<exists>m. sig_message example_sha zero_digest [] (transaction_of example_signed_trx) = Inr m
     \<and> cfd_digest example_sha [] = cfd_digest example_sha []"
proof -
  obtain m where m: "sig_message example_sha zero_digest [] (transaction_of example_signed_trx) = Inr m"
    using example_pack by (auto simp: sig_message_def cfd_digest_def pack_sha256_def example_eval)
  then show ?thesis using sig_message_binding [OF m m] by blast
qed

theorem get_signature_keys_iff_witness:
  "\<exists>d. get_signature_keys example_sha (\<lambda>s d. Inr (K1 [1])) (\<lambda>i. of_nat i) [SIG_K1 []] zero_digest 100 [] False
     (transaction_of example_signed_trx) = Inr (d, {K1 [1]})"
proof -
  obtain d where d: "trx_sig_digest example_sha zero_digest [] (transaction_of example_signed_trx) = Inr d"
    using example_pack by (auto simp: trx_sig_digest_def sig_message_def cfd_digest_def pack_sha256_def example_eval)
  have "(1 :: i64) <s 100" by code_simp
  then show ?thesis
    by (intro exI [of _ 2], subst get_signature_keys_iff) (use d in \<open>auto intro!: exI [of _ "[K1 [1]]"]\<close>)
qed

end
