(* ===== verification/Block_State.thy ===== *)
theory Block_State
  imports Transaction Block_Header_State
begin

text \<open>
  Blocks and block states (\<open>block.hpp\<close>, \<open>block.cpp\<close>, \<open>block_state.hpp\<close>, \<open>block_state.cpp\<close>): a
  block is a signed header with transaction receipts and extensions; a block state is the
  header state of a block with the block and flags about its validation. The two constructors
  are those used for a received block and for a block being produced.

  A signed block is passed by pointer and its signature and extensions are filled in while the
  state is built: the model returns the block as part of the state.
\<close>

section \<open>Blocks\<close>

text \<open>
  \<open>status\<close> is an \<open>enum_type\<close> over a byte: 0 executed, 1 soft fail, 2 hard fail, 3 delayed,
  4 expired; nothing checks the byte when it is read.
\<close>

record transaction_receipt_header =
  status :: u8
  cpu_usage_us :: u32
  net_usage_words :: u32

definition status_executed :: u8 where "status_executed = 0"
definition status_soft_fail :: u8 where "status_soft_fail = 1"
definition status_hard_fail :: u8 where "status_hard_fail = 2"
definition status_delayed :: u8 where "status_delayed = 3"
definition status_expired :: u8 where "status_expired = 4"

datatype receipt_trx = receipt_trx_id transaction_id_type | receipt_packed_trx packed_transaction

record transaction_receipt = transaction_receipt_header +
  receipt_trx :: receipt_trx

definition receipt_of_trx :: "receipt_trx \<Rightarrow> transaction_receipt" where
  "receipt_of_trx t = \<lparr>status = status_executed, cpu_usage_us = 0, net_usage_words = 0, receipt_trx = t\<rparr>"

definition receipt_digest :: "sha \<Rightarrow> transaction_receipt \<Rightarrow> digest_type res" where
  "receipt_digest H r =
     res_bind (case receipt_trx r of receipt_trx_id i \<Rightarrow> Inr i | receipt_packed_trx p \<Rightarrow> packed_digest H p) (\<lambda>d.
     res_bind (pack_pair pack_enum_u8 (pack_pair pack_scalar (pack_pair pack_unsigned_int pack_sha256))
        (status r, cpu_usage_us r, net_usage_words r, d))
       (\<lambda>bs. Inr (H bs)))"

record signed_block = signed_block_header +
  transactions :: "transaction_receipt list"
  block_extensions :: extensions_type

definition additional_sigs_eid :: u16 where
  "additional_sigs_eid = 2"

text \<open>\<open>additional_block_signatures_extension::reflector_init\<close>.\<close>

definition additional_sigs_reflector_init :: "signature_type list \<Rightarrow> unit res" where
  "additional_sigs_reflector_init sigs =
     INE_ASSERT (0 < length sigs) ill_formed_additional_block_signatures_extension
     (INE_ASSERT (distinct sigs) ill_formed_additional_block_signatures_extension (Inr ()))"

definition extract_block_extension :: "u16 \<Rightarrow> bytes \<Rightarrow> signature_type list option res" where
  "extract_block_extension i data =
     (if i = additional_sigs_eid then
        res_bind (unpack_all (unpack_vector unpack_signature) data) (\<lambda>sigs.
        res_bind (additional_sigs_reflector_init sigs) (\<lambda>_. Inr (Some sigs)))
      else Inr None)"

text \<open>
  The loop of \<open>validate_and_extract_extensions\<close>. A repeated extension raises the exception of
  \<^emph>\<open>header\<close> extensions.
\<close>

fun extract_block_extensions_loop ::
  "bool \<Rightarrow> u16 \<Rightarrow> extensions_type \<Rightarrow> (u16 \<times> signature_type list) list res" where
  "extract_block_extensions_loop first bound [] = Inr []"
| "extract_block_extensions_loop first bound ((i, data) # exts) =
     INE_ASSERT (bound \<le> i) invalid_block_extension
     (res_bind (extract_block_extension i data) (\<lambda>match.
      case match of None \<Rightarrow> Inl invalid_block_extension
      | Some x \<Rightarrow>
          INE_ASSERT (first \<or> bound < i) invalid_block_header_extension
          (res_bind (extract_block_extensions_loop False i exts) (\<lambda>rest. Inr ((i, x) # rest)))))"

definition validate_and_extract_block_extensions ::
  "'a signed_block_scheme \<Rightarrow> (u16 \<times> signature_type list) list res" where
  "validate_and_extract_block_extensions b = extract_block_extensions_loop True 0 (block_extensions b)"

section \<open>Block states\<close>

record block_state = block_header_state +
  block :: "signed_block option"
  validated :: bool
  pub_keys_recovered :: bool
  cached_trxs :: "transaction_metadata list"

definition is_valid :: "block_state \<Rightarrow> bool" where
  "is_valid s = validated s"

definition extract_trxs_metas :: "block_state \<Rightarrow> transaction_metadata list \<times> block_state" where
  "extract_trxs_metas s = (cached_trxs s, s\<lparr>pub_keys_recovered := False, cached_trxs := []\<rparr>)"

definition set_trxs_metas :: "transaction_metadata list \<Rightarrow> bool \<Rightarrow> block_state \<Rightarrow> block_state" where
  "set_trxs_metas trxs_metas keys_recovered s =
     s\<lparr>pub_keys_recovered := keys_recovered, cached_trxs := trxs_metas\<rparr>"

text \<open>The header part of a block, and a block with its header part replaced.\<close>

definition block_header_part :: "signed_block \<Rightarrow> signed_block_header" where
  "block_header_part b = signed_block_header.truncate b"

definition extract_additional_signatures :: "signed_block \<Rightarrow> signature_type list res" where
  "extract_additional_signatures b =
     res_bind (validate_and_extract_block_extensions b) (\<lambda>exts.
     case map_of exts additional_sigs_eid of Some sigs \<Rightarrow> Inr sigs | None \<Rightarrow> Inr [])"

text \<open>
  \<open>inject_additional_signatures\<close>: finishes the header state, which signs the block, and stores
  further signatures in a block extension.
\<close>

definition inject_additional_signatures ::
  "crypto \<Rightarrow> signed_block \<Rightarrow> protocol_feature_set \<Rightarrow> feature_validator \<Rightarrow> (digest_type \<Rightarrow> signature_type list)
   \<Rightarrow> pending_block_header_state \<Rightarrow> (block_header_state \<times> signed_block) res" where
  "inject_additional_signatures C b pfs validator signer cur =
     res_bind (finish_next_sign C (block_header_part b) pfs validator signer cur) (\<lambda>(result, h).
     (let b' = b\<lparr>producer_signature := producer_signature h\<rparr> in
      if additional_signatures result \<noteq> [] then
        INE_ASSERT (detail_is_builtin_activated (prev_activated_protocol_features cur) pfs wtmsig_block_signatures)
          block_validate_exception
        (res_bind (pack_vector pack_signature (additional_signatures result)) (\<lambda>bs.
         Inr (result, b'\<lparr>block_extensions := emplace_extension additional_sigs_eid bs (block_extensions b')\<rparr>)))
      else Inr (result, b')))"

definition mk_block_state ::
  "block_header_state \<Rightarrow> signed_block option \<Rightarrow> bool \<Rightarrow> bool \<Rightarrow> transaction_metadata list \<Rightarrow> block_state" where
  "mk_block_state s b v r trxs = block_header_state.extend s (block_state.fields b v r trxs)"

text \<open>The constructor for a received block.\<close>

definition block_state_of_block ::
  "crypto \<Rightarrow> block_header_state \<Rightarrow> signed_block \<Rightarrow> protocol_feature_set \<Rightarrow> feature_validator \<Rightarrow> bool \<Rightarrow> block_state res" where
  "block_state_of_block C prev b pfs validator skip_validate_signee =
     res_bind (extract_additional_signatures b) (\<lambda>sigs.
     res_bind (bhs_next_header C (block_header_part b) sigs pfs validator skip_validate_signee prev) (\<lambda>s.
     Inr (mk_block_state s (Some b) False False [])))"

text \<open>The constructor for a block that is produced.\<close>

definition block_state_of_pending ::
  "crypto \<Rightarrow> pending_block_header_state \<Rightarrow> signed_block \<Rightarrow> transaction_metadata list \<Rightarrow> protocol_feature_set
   \<Rightarrow> feature_validator \<Rightarrow> (digest_type \<Rightarrow> signature_type list) \<Rightarrow> block_state res" where
  "block_state_of_pending C cur b trx_metas pfs validator signer =
     res_bind (inject_additional_signatures C b pfs validator signer cur) (\<lambda>(s, b').
     Inr (mk_block_state s (Some b') False True trx_metas))"

section \<open>A produced block is accepted\<close>

text \<open>The signature of a header has no part in the checks or in the id.\<close>

lemma header_id_signature [simp]: "header_id C (h\<lparr>producer_signature := sg\<rparr>) = header_id C h"
  by (simp add: header_id_def header_digest_def block_header.defs header_block_num_def)

lemma finish_next_base_signature:
  "finish_next_base C h pfs validator p = Inr r \<Longrightarrow>
     finish_next_base C (h\<lparr>producer_signature := sg\<rparr>) pfs validator p = Inr (r\<lparr>header := h\<lparr>producer_signature := sg\<rparr>\<rparr>)"
  by (auto simp: finish_next_base_def validate_and_extract_header_extensions_def new_schedule_of_def
      block_header_state_common.defs block_header_state.defs split: if_splits)

lemma finish_next_base_header: "finish_next_base C h pfs validator p = Inr r \<Longrightarrow> header r = h \<and> additional_signatures r = []"
  by (auto simp: finish_next_base_def block_header_state_common.defs block_header_state.defs split: if_splits)

text \<open>What signing produces is what a receiving node computes from the signed header.\<close>

lemma finish_next_of_signed:
  assumes "finish_next_sign C h pfs validator signer p = Inr (r, h')"
  shows "finish_next C h' (additional_signatures r) pfs validator False p = Inr r"
    and "h' = h\<lparr>producer_signature := producer_signature h'\<rparr>" and "verify_signee C r = Inr ()"
proof -
  obtain r0 where r0: "finish_next_base C h pfs validator p = Inr r0" and sg: "sign C signer r0 = Inr r"
    and h': "h' = h\<lparr>producer_signature := producer_signature (header r)\<rparr>"
    and wt: "additional_signatures r = []
      \<or> detail_is_builtin_activated (prev_activated_protocol_features p) pfs wtmsig_block_signatures"
    using assms by (auto simp: finish_next_sign_def Let_def split: if_splits)
  obtain sigs where r: "r = r0\<lparr>header := (header r0)\<lparr>producer_signature := last sigs\<rparr>,
        additional_signatures := butlast sigs\<rparr>" and v: "verify_signee C r = Inr ()"
    using sg by (auto simp: sign_def Let_def split: if_splits)
  note hd = finish_next_base_header [OF r0]
  have "finish_next_base C h' pfs validator p = Inr (r0\<lparr>header := h'\<rparr>)"
    unfolding h' by (rule finish_next_base_signature [OF r0])
  moreover have "r0\<lparr>header := h', additional_signatures := additional_signatures r\<rparr> = r"
    and "additional_signatures r = [] \<Longrightarrow> r0\<lparr>header := h'\<rparr> = r"
    using hd by (auto simp: r h')
  ultimately show "finish_next C h' (additional_signatures r) pfs validator False p = Inr r"
    using wt v by (auto simp: finish_next_def Let_def)
  show "h' = h\<lparr>producer_signature := producer_signature h'\<rparr>" by (simp add: h')
  show "verify_signee C r = Inr ()" by (fact v)
qed

lemma verify_signee_distinct:
  assumes "verify_signee C s = Inr ()"
  shows "distinct (additional_signatures s)"
proof -
  obtain k K where "add_signing_keys C (sig_digest C s) (additional_signatures s) {k} = Inr K"
    using assms unfolding verify_signee_def Let_def by (simp split: if_splits) blast
  then obtain l where l: "list_all2 (\<lambda>sig k. recover_key C sig (sig_digest C s) = Inr k) (additional_signatures s) l"
      "distinct l"
    by (auto simp: add_signing_keys_iff)
  then have "l = map (\<lambda>sig. projr (recover_key C sig (sig_digest C s))) (additional_signatures s)"
    by (induction rule: list_all2_induct) auto
  then show ?thesis using l(2) distinct_map by metis
qed

interpretation raw_signatures: raw_codec "pack_vector pack_signature" "unpack_vector unpack_signature" "list_all signature_ok"
  by (rule vector_codec) (rule raw_signature.raw_codec_axioms)

lemma extract_injected_signatures:
  assumes "pack_vector pack_signature sigs = Inr bs" "list_all signature_ok sigs" "distinct sigs" "sigs \<noteq> []"
  shows "extract_additional_signatures (b\<lparr>block_extensions := [(additional_sigs_eid, bs)]\<rparr>) = Inr sigs"
  using assms raw_signatures.unpack_all_pack [OF assms(2,1)]
  by (simp add: extract_additional_signatures_def validate_and_extract_block_extensions_def extract_block_extension_def
      additional_sigs_reflector_init_def del: res_bind_eq_Inr)

text \<open>
  C5. A block that a producer assembles and signs, with one or several signatures, is accepted by
  every node that has the same previous block: the state the receiving node computes, with the
  signee verified, has the same header state and the same block as the producer's.
\<close>

theorem produced_block_accepted:
  assumes "bhs_next C (timestamp b) (confirmed b) prev = Inr cur"
    and "block_state_of_pending C cur b trx_metas pfs validator signer = Inr s"
    and "block_extensions b = []" and "list_all signature_ok (additional_signatures s)"
  shows "\<exists>b'. block s = Some b' \<and> block_state_of_block C prev b' pfs validator False
     = Inr (s\<lparr>pub_keys_recovered := False, cached_trxs := []\<rparr>)"
proof -
  obtain r b' where inj: "inject_additional_signatures C b pfs validator signer cur = Inr (r, b')"
    and s: "s = mk_block_state r (Some b') False True trx_metas"
    using assms(2) by (auto simp: block_state_of_pending_def)
  then obtain h where sg: "finish_next_sign C (block_header_part b) pfs validator signer cur = Inr (r, h)"
    by (auto simp: inject_additional_signatures_def Let_def split: if_splits)
  note f = finish_next_of_signed [OF sg]
  have add: "additional_signatures s = additional_signatures r"
    by (simp add: s mk_block_state_def block_header_state.defs block_state.defs)
  have b': "b' = b\<lparr>producer_signature := producer_signature h\<rparr> \<and> additional_signatures r = []
    \<or> (\<exists>bs. pack_vector pack_signature (additional_signatures r) = Inr bs \<and> additional_signatures r \<noteq> []
        \<and> b' = b\<lparr>producer_signature := producer_signature h, block_extensions := [(additional_sigs_eid, bs)]\<rparr>)"
    using inj sg assms(3)
    by (auto simp: inject_additional_signatures_def Let_def emplace_extension_def split: if_splits)
  then have "block_header_part b' = (block_header_part b)\<lparr>producer_signature := producer_signature h\<rparr>"
    by (auto simp: block_header_part_def signed_block_header.defs)
  then have part: "block_header_part b' = h" using f(2) by simp
  have ex: "extract_additional_signatures b' = Inr (additional_signatures r)"
    using b'
  proof (elim disjE exE conjE)
    assume "b' = b\<lparr>producer_signature := producer_signature h\<rparr>" "additional_signatures r = []"
    then show ?thesis
      using assms(3) by (simp add: extract_additional_signatures_def validate_and_extract_block_extensions_def)
  next
    fix bs assume bs: "pack_vector pack_signature (additional_signatures r) = Inr bs" "additional_signatures r \<noteq> []"
      and "b' = b\<lparr>producer_signature := producer_signature h, block_extensions := [(additional_sigs_eid, bs)]\<rparr>"
    then show ?thesis
      using extract_injected_signatures [OF bs(1) _ verify_signee_distinct [OF f(3)] bs(2)] assms(4) add by simp
  qed
  have "timestamp h = timestamp b" "confirmed h = confirmed b"
    by (subst f(2), simp add: block_header_part_def signed_block_header.defs)+
  then have "next": "bhs_next_header C h (additional_signatures r) pfs validator False prev = Inr r"
    using assms(1) f(1) by (simp add: bhs_next_header_def del: res_bind_eq_Inr)
  show ?thesis
    using "next" part ex
    by (simp add: s block_state_of_block_def mk_block_state_def block_header_state.defs block_state.defs del: res_bind_eq_Inr)
qed

definition example_block :: signed_block where
  "example_block =
     \<lparr>timestamp = 11, producer = 2, confirmed = 0, previous = example_prev, transaction_mroot = zero_digest,
      action_mroot = zero_digest, schedule_version = 0, new_producers = None, header_extensions = [],
      producer_signature = SIG_K1 [], transactions = [], block_extensions = []\<rparr>"

lemma example_produced:
  "\<exists>s. block_state_of_pending example_crypto example_pending example_block [] empty_protocol_feature_set
     (\<lambda>_ _ _. Inr ()) (\<lambda>d. [SIG_K1 [2]]) = Inr s \<and> additional_signatures s = []
     \<and> dpos_irreversible_blocknum s = 5 \<and> \<not> validated s"
proof -
  let ?h = "block_header_part example_block"
  have h: "?h = \<lparr>timestamp = 11, producer = 2, confirmed = 0, previous = example_prev, transaction_mroot = zero_digest,
      action_mroot = zero_digest, schedule_version = 0, new_producers = None, header_extensions = [],
      producer_signature = SIG_K1 []\<rparr>"
    by (simp add: block_header_part_def example_block_def signed_block_header.defs)
  have p: "pb_timestamp example_pending = 11" "pb_previous example_pending = example_prev" "pb_confirmed example_pending = 0"
    "pb_producer example_pending = 2" "active_schedule_version example_pending = 0"
    by (simp_all add: example_pending_def)
  obtain r0 where r0: "finish_next_base example_crypto ?h empty_protocol_feature_set (\<lambda>_ _ _. Inr ()) example_pending = Inr r0"
    by (simp add: finish_next_base_def h p validate_and_extract_header_extensions_def new_schedule_of_def exts_count_def
        new_activated_features_def Let_def del: res_bind_eq_Inr)
  then have auth: "valid_block_signing_authority r0 = pa_authority (example_producer 2)" "dpos_irreversible_blocknum r0 = 5"
    by (auto simp: finish_next_base_def block_header_state_common.defs block_header_state.defs example_pending_def
        split: if_splits)
  have "\<exists>r. sign example_crypto (\<lambda>d. [SIG_K1 [2]]) r0 = Inr r \<and> additional_signatures r = [] \<and> dpos_irreversible_blocknum r = 5"
    using auth
    by (simp add: sign_def Let_def verify_signee_def example_crypto_def example_producer_def
        keys_satisfy_and_relevant_def del: res_bind_eq_Inr)
  then show ?thesis
    using r0
    by (auto simp: block_state_of_pending_def inject_additional_signatures_def finish_next_sign_def Let_def
        mk_block_state_def block_header_state.defs block_state.defs simp del: res_bind_eq_Inr)
qed

theorem produced_block_accepted_witness:
  "\<exists>b s. block_state_of_block example_crypto example_state b empty_protocol_feature_set (\<lambda>_ _ _. Inr ()) False = Inr s"
proof -
  obtain s where s: "block_state_of_pending example_crypto example_pending example_block [] empty_protocol_feature_set
     (\<lambda>_ _ _. Inr ()) (\<lambda>d. [SIG_K1 [2]]) = Inr s" "additional_signatures s = []"
    using example_produced by blast
  have b: "timestamp example_block = 11" "confirmed example_block = 0" "block_extensions example_block = []"
    by (simp_all add: example_block_def)
  from produced_block_accepted [OF _ s(1) b(3), of example_state] s(2) example_next b show ?thesis by auto
qed

end
