(* ===== verification/Fork_Database.thy ===== *)
theory Fork_Database
  imports Block_State
begin

text \<open>
  The fork database (\<open>fork_database.hpp\<close>, \<open>.cpp\<close>): the tree of blocks that build on the last
  irreversible one, the root. It decides which block is the head.

  The multi-index container is the list of its blocks in the order of insertion, with unique ids.
  The ordered view \<open>by_lib_block_num\<close> is the list sorted by its composite key, and \<open>by_prev\<close> the
  blocks with a given predecessor, in order of insertion. \<open>root\<close> and \<open>head\<close> are pointers; a head
  that lies in the index is the index's own object, so marking a block as valid reaches it too.

  Loops that follow the \<open>previous\<close> pointers have no bound of their own. The model gives them a
  number of rounds larger than the number of positions they can be in, and \<open>None\<close> says that the
  loop does not end: after that many rounds it has come back to a position it was in before.

  An operation of type \<open>fork_database res\<close> makes all its checks before its first change, so that
  the database is as it was when it throws. \<open>advance_root\<close> does not: its result is what it
  throws, if anything, together with the database it leaves behind.
\<close>

section \<open>State\<close>

record fork_database =
  index :: "block_state list"
  fdb_root :: "block_state option"
  fdb_head :: "block_state option"

definition first_preferred :: "'a block_header_state_common_scheme \<Rightarrow> 'b block_header_state_common_scheme \<Rightarrow> bool" where
  "first_preferred lhs rhs \<longleftrightarrow>
     (dpos_irreversible_blocknum rhs, block_num rhs) < (dpos_irreversible_blocknum lhs, block_num lhs)"

text \<open>
  The key of \<open>by_lib_block_num\<close>: valid blocks first, then descending last irreversible number,
  descending block number and ascending id.
\<close>

definition by_lib_key :: "block_state \<Rightarrow> bool \<times> int \<times> int \<times> block_id_type" where
  "by_lib_key b = (\<not> is_valid b, - uint (dpos_irreversible_blocknum b), - uint (block_num b), bhs_id b)"

definition by_lib_block_num :: "block_state list \<Rightarrow> block_state list" where
  "by_lib_block_num bs = sort_key by_lib_key bs"

definition block_prev :: "'a block_header_state_scheme \<Rightarrow> block_id_type" where
  "block_prev b = previous (header b)"

definition by_prev :: "block_state list \<Rightarrow> block_id_type \<Rightarrow> block_state list" where
  "by_prev bs i = filter (\<lambda>b. block_prev b = i) bs"

section \<open>Lookup\<close>

definition get_block :: "fork_database \<Rightarrow> block_id_type \<Rightarrow> block_state option" where
  "get_block db i = find (\<lambda>b. bhs_id b = i) (index db)"

text \<open>The root is dereferenced without a check.\<close>

definition get_block_header :: "fork_database \<Rightarrow> block_id_type \<Rightarrow> block_state option res" where
  "get_block_header db i =
     (case fdb_root db of None \<Rightarrow> Inl undefined_behaviour
      | Some r \<Rightarrow> Inr (if bhs_id r = i then Some r else get_block db i))"

text \<open>\<open>(id == my->root->id) ? my->root : get_block(id)\<close>.\<close>

definition root_or_block :: "fork_database \<Rightarrow> block_state \<Rightarrow> block_id_type \<Rightarrow> block_state option" where
  "root_or_block db r i = (if i = bhs_id r then Some r else get_block db i)"

section \<open>Operations\<close>

definition fdb_reset :: "block_header_state \<Rightarrow> fork_database" where
  "fdb_reset root_bhs =
     (let r = mk_block_state root_bhs None True False []
      in \<lparr>index = [], fdb_root = Some r, fdb_head = Some r\<rparr>)"

definition rollback_head_to_root :: "fork_database \<Rightarrow> fork_database" where
  "rollback_head_to_root db =
     db\<lparr>index := map (\<lambda>b. b\<lparr>validated := False\<rparr>) (index db), fdb_head := fdb_root db\<rparr>"

text \<open>The check of the features a block activates, made when the database is read from its file.\<close>

definition validate_new_features :: "feature_validator \<Rightarrow> block_state \<Rightarrow> block_state \<Rightarrow> unit res" where
  "validate_new_features validator prev_bh n =
     rethrow_as fork_database_exception
       (if 0 < exts_count protocol_feature_activation_id (header_exts n) then
          (case exts_lower_bound protocol_feature_activation_id (header_exts n) of
             Some (protocol_feature_activation new_protocol_features) \<Rightarrow>
               validator (timestamp (header n)) (activated_protocol_features prev_bh) new_protocol_features
           | _ \<Rightarrow> Inl fc_assert_exception)
        else Inr ())"

definition fdb_impl_add ::
  "feature_validator \<Rightarrow> bool \<Rightarrow> bool \<Rightarrow> block_state \<Rightarrow> fork_database \<Rightarrow> fork_database res" where
  "fdb_impl_add validator ignore_duplicate validate n db =
     INE_ASSERT (fdb_root db \<noteq> None) fork_database_exception
     (res_bind (get_block_header db (previous (header n))) (\<lambda>prev.
      case prev of None \<Rightarrow> Inl unlinkable_block_exception
      | Some prev_bh \<Rightarrow>
     res_bind (if validate then validate_new_features validator prev_bh n else Inr ()) (\<lambda>_.
     if get_block db (bhs_id n) \<noteq> None then
       (if ignore_duplicate then Inr db else Inl fork_database_exception)
     else
       (let idx = index db @ [n]; candidate = hd (by_lib_block_num idx)
        in Inr (db\<lparr>index := idx, fdb_head := (if is_valid candidate then Some candidate else fdb_head db)\<rparr>)))))"

definition fdb_add :: "block_state \<Rightarrow> bool \<Rightarrow> fork_database \<Rightarrow> fork_database res" where
  "fdb_add n ignore_duplicate db = fdb_impl_add (\<lambda>_ _ _. Inr ()) ignore_duplicate False n db"

text \<open>\<open>lower_bound(false)\<close> is the first block of the order that is not valid.\<close>

definition pending_head :: "fork_database \<Rightarrow> block_state option res" where
  "pending_head db =
     (case find (\<lambda>b. \<not> is_valid b) (by_lib_block_num (index db)) of
        Some b \<Rightarrow> (case fdb_head db of None \<Rightarrow> Inl undefined_behaviour
                  | Some h \<Rightarrow> Inr (Some (if first_preferred b h then b else h)))
      | None \<Rightarrow> Inr (fdb_head db))"

text \<open>A bound on the number of positions of a loop over one or two pointers into the tree.\<close>

definition loop_bound :: "fork_database \<Rightarrow> nat" where
  "loop_bound db = (length (index db) + 2) * (length (index db) + 2)"

fun fetch_branch_loop :: "fork_database \<Rightarrow> u32 \<Rightarrow> nat \<Rightarrow> block_state option \<Rightarrow> block_state list option" where
  "fetch_branch_loop db trim_after_block_num n None = Some []"
| "fetch_branch_loop db trim_after_block_num 0 (Some s) = None"
| "fetch_branch_loop db trim_after_block_num (Suc n) (Some s) =
     map_option (\<lambda>rest. if block_num s \<le> trim_after_block_num then s # rest else rest)
       (fetch_branch_loop db trim_after_block_num n (get_block db (previous (header s))))"

definition fetch_branch :: "fork_database \<Rightarrow> block_id_type \<Rightarrow> u32 \<Rightarrow> block_state list option" where
  "fetch_branch db h trim_after_block_num =
     fetch_branch_loop db trim_after_block_num (loop_bound db) (get_block db h)"

fun search_on_branch_loop :: "fork_database \<Rightarrow> u32 \<Rightarrow> nat \<Rightarrow> block_state option \<Rightarrow> block_state option option" where
  "search_on_branch_loop db num n None = Some None"
| "search_on_branch_loop db num 0 (Some s) = None"
| "search_on_branch_loop db num (Suc n) (Some s) =
     (if block_num s = num then Some (Some s)
      else search_on_branch_loop db num n (get_block db (previous (header s))))"

definition search_on_branch :: "fork_database \<Rightarrow> block_id_type \<Rightarrow> u32 \<Rightarrow> block_state option option" where
  "search_on_branch db h num = search_on_branch_loop db num (loop_bound db) (get_block db h)"

text \<open>
  The first two loops of \<open>fetch_branch_from\<close>: walk down one branch until it is at the height of
  the other. The result is the part walked and the block reached.
\<close>

fun walk_down :: "fork_database \<Rightarrow> block_state \<Rightarrow> u32 \<Rightarrow> nat \<Rightarrow> block_state \<Rightarrow> (block_state list \<times> block_state) res option" where
  "walk_down db r num n b =
     (if \<not> num < block_num b then Some (Inr ([], b))
      else case n of 0 \<Rightarrow> None
      | Suc n' \<Rightarrow>
          (case root_or_block db r (previous (header b)) of
             None \<Rightarrow> Some (Inl fork_db_block_not_found)
           | Some p \<Rightarrow> map_option (\<lambda>res. res_bind res (\<lambda>(bs, c). Inr (b # bs, c))) (walk_down db r num n' p)))"

text \<open>The third loop: walk down both branches until their blocks have the same predecessor.\<close>

fun walk_both :: "fork_database \<Rightarrow> nat \<Rightarrow> block_state \<Rightarrow> block_state \<Rightarrow> (block_state list \<times> block_state list) res option" where
  "walk_both db n a b =
     (if previous (header a) = previous (header b) then Some (Inr ([a], [b]))
      else case n of 0 \<Rightarrow> None
      | Suc n' \<Rightarrow>
          (case get_block db (previous (header a)) of
             None \<Rightarrow> Some (Inl fork_db_block_not_found)
           | Some a' \<Rightarrow>
               (case get_block db (previous (header b)) of
                  None \<Rightarrow> Some (Inl fork_db_block_not_found)
                | Some b' \<Rightarrow>
                    map_option (\<lambda>res. res_bind res (\<lambda>(as, bs). Inr (a # as, b # bs))) (walk_both db n' a' b'))))"

definition res_opt_bind :: "'a res option \<Rightarrow> ('a \<Rightarrow> 'b res option) \<Rightarrow> 'b res option" where
  "res_opt_bind r f = (case r of None \<Rightarrow> None | Some (Inl e) \<Rightarrow> Some (Inl e) | Some (Inr x) \<Rightarrow> f x)"

definition fetch_branch_from ::
  "fork_database \<Rightarrow> block_id_type \<Rightarrow> block_id_type \<Rightarrow> (block_state list \<times> block_state list) res option" where
  "fetch_branch_from db first second =
     (case fdb_root db of None \<Rightarrow> Some (Inl undefined_behaviour)
      | Some r \<Rightarrow>
     (case root_or_block db r first of None \<Rightarrow> Some (Inl fork_db_block_not_found)
      | Some first_branch \<Rightarrow>
     (case root_or_block db r second of None \<Rightarrow> Some (Inl fork_db_block_not_found)
      | Some second_branch \<Rightarrow>
     res_opt_bind (walk_down db r (block_num second_branch) (loop_bound db) first_branch) (\<lambda>(firsts, a).
     res_opt_bind (walk_down db r (block_num a) (loop_bound db) second_branch) (\<lambda>(seconds, b).
     if bhs_id a = bhs_id b then Some (Inr (firsts, seconds))
     else res_opt_bind (walk_both db (loop_bound db) a b) (\<lambda>(as, bs).
       Some (Inr (firsts @ as, seconds @ bs))))))))"

text \<open>
  The first loop of \<open>remove\<close>: \<open>queue\<close> is the part of \<open>remove_queue\<close> from position \<open>i\<close> on, the
  result the whole queue.
\<close>

fun remove_queue_loop ::
  "block_state list \<Rightarrow> block_id_type \<Rightarrow> nat \<Rightarrow> block_id_type list \<Rightarrow> block_id_type list res option" where
  "remove_queue_loop idx head_id n [] = Some (Inr [])"
| "remove_queue_loop idx head_id 0 (q # queue) = None"
| "remove_queue_loop idx head_id (Suc n) (q # queue) =
     (if q = head_id then Some (Inl fork_database_exception)
      else map_option (\<lambda>res. res_bind res (\<lambda>rest. Inr (q # rest)))
             (remove_queue_loop idx head_id n (queue @ map bhs_id (by_prev idx q))))"

definition fdb_remove :: "block_id_type \<Rightarrow> fork_database \<Rightarrow> fork_database res option" where
  "fdb_remove i db =
     (case fdb_head db of None \<Rightarrow> Some (Inl undefined_behaviour)
      | Some h \<Rightarrow>
     res_opt_bind (remove_queue_loop (index db) (bhs_id h) (loop_bound db) [i]) (\<lambda>remove_queue.
     Some (Inr (db\<lparr>index := filter (\<lambda>b. bhs_id b \<notin> set remove_queue) (index db)\<rparr>))))"

definition mark_valid :: "block_state \<Rightarrow> fork_database \<Rightarrow> fork_database res" where
  "mark_valid h db =
     (if validated h then Inr db
      else if get_block db (bhs_id h) = None then Inl fork_database_exception
      else
        (let upd = (\<lambda>b. if bhs_id b = bhs_id h then b\<lparr>validated := True\<rparr> else b);
             idx = map upd (index db); candidate = hd (by_lib_block_num idx)
         in (case map_option upd (fdb_head db) of None \<Rightarrow> Inl undefined_behaviour
             | Some hd' \<Rightarrow>
                 Inr (db\<lparr>index := idx, fdb_head := Some (if first_preferred candidate hd' then candidate else hd')\<rparr>))))"

text \<open>The first loop of \<open>advance_root\<close>: the predecessors of the new root down to the old one.\<close>

fun blocks_to_remove_loop ::
  "fork_database \<Rightarrow> block_id_type \<Rightarrow> nat \<Rightarrow> block_state option \<Rightarrow> block_id_type list res option" where
  "blocks_to_remove_loop db root_id n None = Some (Inr [])"
| "blocks_to_remove_loop db root_id 0 (Some b) = None"
| "blocks_to_remove_loop db root_id (Suc n) (Some b) =
     (let p = previous (header b); b' = get_block db p in
      if b' = None \<and> p \<noteq> root_id then Some (Inl fork_database_exception)
      else map_option (\<lambda>res. res_bind res (\<lambda>rest. Inr (p # rest))) (blocks_to_remove_loop db root_id n b'))"

text \<open>The second loop: every call of \<open>remove\<close> keeps what the calls before it have done.\<close>

fun fdb_remove_all :: "block_id_type list \<Rightarrow> fork_database \<Rightarrow> (unit res \<times> fork_database) option" where
  "fdb_remove_all [] db = Some (Inr (), db)"
| "fdb_remove_all (i # is) db =
     (case fdb_remove i db of None \<Rightarrow> None
      | Some (Inl e) \<Rightarrow> Some (Inl e, db)
      | Some (Inr db') \<Rightarrow> fdb_remove_all is db')"

definition advance_root :: "block_id_type \<Rightarrow> fork_database \<Rightarrow> (unit res \<times> fork_database) option" where
  "advance_root i db =
     (case fdb_root db of None \<Rightarrow> Some (Inl fork_database_exception, db)
      | Some r \<Rightarrow>
     (case get_block db i of None \<Rightarrow> Some (Inl fork_database_exception, db)
      | Some new_root \<Rightarrow>
     if \<not> is_valid new_root then Some (Inl fork_database_exception, db)
     else
       (case blocks_to_remove_loop db (bhs_id r) (loop_bound db) (Some new_root) of None \<Rightarrow> None
        | Some (Inl e) \<Rightarrow> Some (Inl e, db)
        | Some (Inr blocks_to_remove) \<Rightarrow>
       (case fdb_remove_all blocks_to_remove (db\<lparr>index := filter (\<lambda>b. bhs_id b \<noteq> i) (index db)\<rparr>) of None \<Rightarrow> None
        | Some (Inl e, db') \<Rightarrow> Some (Inl e, db')
        | Some (Inr _, db') \<Rightarrow> Some (Inr (), db'\<lparr>fdb_root := Some new_root\<rparr>)))))"

section \<open>The file\<close>

text \<open>
  \<open>close\<close> writes the database to a file and \<open>open\<close> reads it back. The model of the file is what
  is written, after the byte codec: the magic number and version, the header state of the root,
  the blocks in the order of writing and the id of the head (nothing if there is no head, in
  which case the file is reported as corrupted). Header extensions and cached transactions are
  not written.
\<close>

record fork_db_file =
  ff_totem :: u32
  ff_version :: u32
  ff_root :: block_header_state
  ff_blocks :: "block_state list"
  ff_head_id :: "block_id_type option"

definition magic_number :: u32 where
  "magic_number = 0x30510FDB"

definition min_supported_version :: u32 where
  "min_supported_version = 1"

definition max_supported_version :: u32 where
  "max_supported_version = 1"

definition stored_header_state :: "block_state \<Rightarrow> block_header_state" where
  "stored_header_state b = (block_header_state.truncate b)\<lparr>header_exts := []\<rparr>"

definition stored_block :: "block_state \<Rightarrow> block_state" where
  "stored_block b = b\<lparr>header_exts := [], pub_keys_recovered := False, cached_trxs := []\<rparr>"

text \<open>
  The loop of \<open>close\<close>: from the least preferred block up, taken from the unvalidated and the
  validated blocks in turn.
\<close>

fun close_merge :: "block_state list \<Rightarrow> block_state list \<Rightarrow> block_state list" where
  "close_merge (u # us) (v # vs) =
     (if first_preferred v u then u # close_merge us (v # vs) else v # close_merge (u # us) vs)"
| "close_merge us [] = us"
| "close_merge [] vs = vs"

definition close_order :: "block_state list \<Rightarrow> block_state list" where
  "close_order idx =
     (let indx = by_lib_block_num idx
      in close_merge (rev (dropWhile is_valid indx)) (rev (takeWhile is_valid indx)))"

definition fdb_close :: "fork_database \<Rightarrow> fork_db_file option \<times> fork_database" where
  "fdb_close db =
     (case fdb_root db of None \<Rightarrow> (None, db)
      | Some r \<Rightarrow>
          (Some \<lparr>ff_totem = magic_number, ff_version = max_supported_version, ff_root = stored_header_state r,
                 ff_blocks = map stored_block (close_order (index db)), ff_head_id = map_option bhs_id (fdb_head db)\<rparr>,
           db\<lparr>index := []\<rparr>))"

text \<open>One round of the loop of \<open>open\<close>, and the choice of the head with its checks.\<close>

definition open_block :: "feature_validator \<Rightarrow> block_state \<Rightarrow> fork_database \<Rightarrow> fork_database res" where
  "open_block validator s db =
     (case block s of None \<Rightarrow> Inl undefined_behaviour
      | Some b \<Rightarrow>
          res_bind (validate_and_extract_header_extensions (block_header_part b)) (\<lambda>exts.
          fdb_impl_add validator False True (s\<lparr>header_exts := exts\<rparr>) db))"

definition open_head :: "block_id_type option \<Rightarrow> fork_database \<Rightarrow> fork_database res" where
  "open_head head_id db =
     (case head_id of None \<Rightarrow> Inl out_of_range_exception
      | Some i \<Rightarrow>
     (case fdb_root db of None \<Rightarrow> Inl undefined_behaviour
      | Some r \<Rightarrow>
     (case (if bhs_id r = i then Some r else get_block db i) of None \<Rightarrow> Inl fork_database_exception
      | Some h \<Rightarrow>
          let db' = db\<lparr>fdb_head := Some h\<rparr> in
          if index db = [] \<or> \<not> is_valid (hd (by_lib_block_num (index db)))
          then INE_ASSERT (bhs_id h = bhs_id r) fork_database_exception (Inr db')
          else INE_ASSERT (\<not> first_preferred (hd (by_lib_block_num (index db))) h) fork_database_exception (Inr db'))))"

definition fdb_open :: "feature_validator \<Rightarrow> fork_db_file \<Rightarrow> fork_database res" where
  "fdb_open validator f =
     INE_ASSERT (ff_totem f = magic_number) fork_database_exception
     (INE_ASSERT (min_supported_version \<le> ff_version f \<and> ff_version f \<le> max_supported_version) fork_database_exception
     (res_bind (res_fold (open_block validator) (ff_blocks f) (fdb_reset (ff_root f)))
       (open_head (ff_head_id f))))"

section \<open>The tree\<close>

text \<open>
  The invariant: ids are unique and carry the block number, every block but the root has its
  predecessor in the database at the number below, the head is the root or a validated block, and no validated block is
  preferred to the head.
\<close>

definition tree_ok :: "block_state \<Rightarrow> block_state list \<Rightarrow> bool" where
  "tree_ok r idx \<longleftrightarrow> distinct (map bhs_id (r # idx))
     \<and> (\<forall>b \<in> set idx. \<exists>p \<in> set (r # idx). bhs_id p = block_prev b \<and> unat (block_num b) = Suc (unat (block_num p)))
     \<and> (\<forall>b \<in> set (r # idx). num_from_id (bhs_id b) = block_num b)"

definition head_ok :: "block_state \<Rightarrow> block_state \<Rightarrow> block_state list \<Rightarrow> bool" where
  "head_ok r h idx \<longleftrightarrow> (h = r \<or> h \<in> set idx \<and> is_valid h) \<and> (\<forall>b \<in> set idx. is_valid b \<longrightarrow> \<not> first_preferred b h)"

definition fdb_ok :: "fork_database \<Rightarrow> bool" where
  "fdb_ok db \<longleftrightarrow> (\<exists>r h. fdb_root db = Some r \<and> fdb_head db = Some h \<and> tree_ok r (index db) \<and> head_ok r h (index db))"

text \<open>\<open>descends idx a b\<close>: the block \<open>b\<close> is \<open>a\<close> or builds on it through blocks of the index.\<close>

inductive descends :: "block_state list \<Rightarrow> block_id_type \<Rightarrow> block_id_type \<Rightarrow> bool" for idx a where
  descends_refl: "descends idx a a"
| descends_step: "b \<in> set idx \<Longrightarrow> descends idx a (block_prev b) \<Longrightarrow> descends idx a (bhs_id b)"

inductive_cases descendsE: "descends idx a i"
inductive_simps descends_iff: "descends idx a i"

lemma tree_ok_parent:
  assumes "tree_ok r idx" "b \<in> set idx"
  obtains p where "p \<in> set (r # idx)" "bhs_id p = block_prev b" "unat (block_num b) = Suc (unat (block_num p))"
  using assms unfolding tree_ok_def by blast

lemma tree_ok_unique:
  "tree_ok r idx \<Longrightarrow> a \<in> set (r # idx) \<Longrightarrow> b \<in> set (r # idx) \<Longrightarrow> bhs_id a = bhs_id b \<Longrightarrow> a = b"
  unfolding tree_ok_def distinct_map using inj_onD [of bhs_id "set (r # idx)" a b] by blast

lemma get_block_Some: "get_block db i = Some b \<Longrightarrow> b \<in> set (index db) \<and> bhs_id b = i"
  by (auto simp: get_block_def find_Some_iff)

lemma get_block_None: "get_block db i = None \<longleftrightarrow> i \<notin> bhs_id ` set (index db)"
  by (auto simp: get_block_def find_None_iff)

lemma get_block_eq:
  assumes "tree_ok r (index db)" "b \<in> set (index db)"
  shows "get_block db (bhs_id b) = Some b"
proof (cases "get_block db (bhs_id b)")
  case None
  then show ?thesis using assms(2) by (auto simp: get_block_None)
next
  case (Some a)
  then show ?thesis using get_block_Some [OF Some] tree_ok_unique [OF assms(1), of a b] assms(2) by simp
qed

lemma root_or_block_Some:
  "tree_ok r (index db) \<Longrightarrow> b \<in> set (r # index db) \<Longrightarrow> root_or_block db r (bhs_id b) = Some b"
  using tree_ok_unique [of r "index db" r b] by (auto simp: root_or_block_def get_block_eq)

lemma root_or_block_mem: "root_or_block db r i = Some b \<Longrightarrow> b \<in> set (r # index db) \<and> bhs_id b = i"
  by (auto simp: root_or_block_def dest: get_block_Some split: if_splits)

text \<open>Block numbers grow along a branch, so the predecessor relation has no cycle.\<close>

lemma descends_height:
  assumes "tree_ok r idx" "descends idx a i" "a \<noteq> i" "x \<in> set (r # idx)" "bhs_id x = a" "y \<in> set (r # idx)" "bhs_id y = i"
  shows "unat (block_num x) < unat (block_num y)"
  using assms(2-7)
proof (induction arbitrary: y)
  case (descends_step b)
  have y: "y = b" using descends_step tree_ok_unique [OF assms(1)] by auto
  obtain p where p: "p \<in> set (r # idx)" "bhs_id p = block_prev b" "unat (block_num b) = Suc (unat (block_num p))"
    using tree_ok_parent [OF assms(1) descends_step(1)] .
  show ?case
  proof (cases "a = block_prev b")
    case True
    then have "x = p" using p descends_step.prems tree_ok_unique [OF assms(1)] by auto
    then show ?thesis using p y by simp
  next
    case False
    then show ?thesis using descends_step.IH [OF False, of p] descends_step.prems p y by simp
  qed
qed simp

lemma descends_trans: "descends idx b c \<Longrightarrow> descends idx a b \<Longrightarrow> descends idx a c"
  by (induction rule: descends.induct) (auto intro: descends_step)

lemma not_descends_parent:
  assumes "tree_ok r idx" "b \<in> set idx"
  shows "\<not> descends idx (bhs_id b) (block_prev b)"
proof
  assume d: "descends idx (bhs_id b) (block_prev b)"
  obtain p where p: "p \<in> set (r # idx)" "bhs_id p = block_prev b" "unat (block_num b) = Suc (unat (block_num p))"
    using tree_ok_parent [OF assms] .
  show False
  proof (cases "bhs_id b = block_prev b")
    case True
    then have "b = p" using p assms tree_ok_unique [OF assms(1)] by auto
    then show False using p by simp
  next
    case False
    then show False using descends_height [OF assms(1) d False, of b p] p assms by simp
  qed
qed

section \<open>Removal\<close>

text \<open>
  Removal only needs unique ids and no cycles; it is also used on an index whose new root has
  just been taken out.
\<close>

definition forest :: "block_state list \<Rightarrow> bool" where
  "forest idx \<longleftrightarrow> distinct (map bhs_id idx) \<and> (\<forall>b \<in> set idx. \<not> descends idx (bhs_id b) (block_prev b))"

lemma tree_ok_forest: "tree_ok r idx \<Longrightarrow> forest idx"
  using not_descends_parent by (auto simp: forest_def tree_ok_def)

lemma descends_mono: "descends idx a j \<Longrightarrow> set idx \<subseteq> set idx' \<Longrightarrow> descends idx' a j"
  by (induction rule: descends.induct) (auto intro: descends_refl descends_step)

lemma forest_filter: "forest idx \<Longrightarrow> forest (filter P idx)"
  using descends_mono [of "filter P idx" _ _ idx] by (auto simp: forest_def distinct_map_filter)

lemma forest_unique: "forest idx \<Longrightarrow> a \<in> set idx \<Longrightarrow> b \<in> set idx \<Longrightarrow> bhs_id a = bhs_id b \<Longrightarrow> a = b"
  unfolding forest_def distinct_map using inj_onD [of bhs_id "set idx" a b] by blast

text \<open>
  What the queue of \<open>remove\<close> satisfies: \<open>done\<close> are the ids already processed, \<open>queue\<close> those
  waiting. All descend from \<open>i\<close>, none occurs twice, and the children of processed blocks are in it.
\<close>

definition queue_inv :: "block_state list \<Rightarrow> block_id_type \<Rightarrow> block_id_type list \<Rightarrow> block_id_type list \<Rightarrow> bool" where
  "queue_inv idx i processed queue \<longleftrightarrow>
     distinct (processed @ queue) \<and> i \<in> set (processed @ queue)
     \<and> (\<forall>j \<in> set (processed @ queue). descends idx i j
          \<and> (j = i \<or> (\<exists>b \<in> set idx. bhs_id b = j \<and> block_prev b \<in> set processed)))
     \<and> (\<forall>b \<in> set idx. block_prev b \<in> set processed \<longrightarrow> bhs_id b \<in> set (processed @ queue))"

lemma queue_inv_step:
  assumes "forest idx" "queue_inv idx i processed (q # queue)"
  shows "queue_inv idx i (processed @ [q]) (queue @ map bhs_id (by_prev idx q))"
proof -
  note inv = assms(2) [unfolded queue_inv_def]
  have uniq: "a = b" if "a \<in> set idx" "b \<in> set idx" "bhs_id a = bhs_id b" for a b
    using that forest_unique [OF assms(1)] by simp
  have dist: "distinct (map bhs_id (by_prev idx q))"
    using assms(1) by (auto simp: forest_def by_prev_def distinct_map_filter)
  have new: "bhs_id b \<notin> set (processed @ q # queue)" if "b \<in> set (by_prev idx q)" for b
  proof
    assume m: "bhs_id b \<in> set (processed @ q # queue)"
    from that have b: "b \<in> set idx" "block_prev b = q" by (auto simp: by_prev_def)
    then have "q \<notin> set processed" using inv by auto
    then have "bhs_id b = i" using inv m b uniq by metis
    then show False using assms(1) inv b by (auto simp: forest_def)
  qed
  show ?thesis
    unfolding queue_inv_def
  proof (intro conjI ballI impI)
    have "distinct (processed @ q # queue)" using inv by blast
    moreover have "set (processed @ q # queue) \<inter> set (map bhs_id (by_prev idx q)) = {}" using new by auto
    ultimately have "distinct ((processed @ q # queue) @ map bhs_id (by_prev idx q))"
      using dist by (simp only: distinct_append)
    then show "distinct ((processed @ [q]) @ queue @ map bhs_id (by_prev idx q))" by simp
    show "i \<in> set ((processed @ [q]) @ queue @ map bhs_id (by_prev idx q))" using inv by auto
  next
    fix j assume "j \<in> set ((processed @ [q]) @ queue @ map bhs_id (by_prev idx q))"
    then show "descends idx i j" and "j = i \<or> (\<exists>b \<in> set idx. bhs_id b = j \<and> block_prev b \<in> set (processed @ [q]))"
      using inv by (auto simp: by_prev_def intro: descends_step)
  next
    fix b assume "b \<in> set idx" "block_prev b \<in> set (processed @ [q])"
    then show "bhs_id b \<in> set ((processed @ [q]) @ queue @ map bhs_id (by_prev idx q))"
      using inv by (auto simp: by_prev_def)
  qed
qed

lemma queue_inv_length:
  assumes "queue_inv idx i processed queue"
  shows "length (processed @ queue) \<le> Suc (length idx)"
proof -
  have "length (processed @ queue) = card (set (processed @ queue))"
    using assms distinct_card [of "processed @ queue"] by (simp only: queue_inv_def)
  also have "\<dots> \<le> card (insert i (bhs_id ` set idx))"
    using assms by (intro card_mono) (auto simp: queue_inv_def)
  also have "\<dots> \<le> Suc (length idx)"
    using card_image_le [of "set idx" bhs_id] card_length [of idx] by (simp add: card_insert_if)
  finally show ?thesis .
qed

lemma queue_inv_done:
  assumes "queue_inv idx i processed []"
  shows "set processed = {j. descends idx i j}"
proof
  show "set processed \<subseteq> {j. descends idx i j}" using assms by (auto simp: queue_inv_def)
  show "{j. descends idx i j} \<subseteq> set processed"
  proof clarify
    fix j assume "descends idx i j"
    then show "j \<in> set processed"
      by (induction rule: descends.induct) (use assms in \<open>auto simp: queue_inv_def\<close>)
  qed
qed

lemma remove_queue_loop_result:
  assumes "forest idx" "queue_inv idx i processed queue" "Suc (length idx) \<le> length processed + n"
    "head_id \<notin> set processed"
  shows "if descends idx i head_id then remove_queue_loop idx head_id n queue = Some (Inl fork_database_exception)
    else (\<exists>rest. remove_queue_loop idx head_id n queue = Some (Inr rest) \<and> set (processed @ rest) = {j. descends idx i j})"
  using assms(2-4)
proof (induction n arbitrary: processed queue)
  case 0
  then have "length queue = 0" using queue_inv_length [of idx i processed queue] by (simp del: length_0_conv)
  then have "queue = []" by simp
  then show ?case using queue_inv_done [of idx i processed] 0 by auto
next
  case (Suc n)
  show ?case
  proof (cases queue)
    case Nil
    then show ?thesis using queue_inv_done [of idx i processed] Suc.prems by auto
  next
    case (Cons q queue')
    have "descends idx i q" using Suc.prems(1) Cons by (simp add: queue_inv_def)
    show ?thesis
    proof (cases "q = head_id")
      case True
      then show ?thesis using Cons \<open>descends idx i q\<close> by simp
    next
      case False
      have inv: "queue_inv idx i (processed @ [q]) (queue' @ map bhs_id (by_prev idx q))"
        using queue_inv_step [OF assms(1)] Suc.prems(1) Cons by simp
      show ?thesis
        using Suc.IH [OF inv] Suc.prems(2,3) False Cons by (auto split: if_splits)
    qed
  qed
qed

text \<open>\<open>remove\<close> throws when the head would go, and otherwise removes the block with its descendants.\<close>

lemma loop_bound_ge: "Suc (Suc (length (index db))) \<le> loop_bound db"
  by (simp add: loop_bound_def)

lemma fdb_remove_result:
  assumes "forest (index db)" "fdb_head db = Some h"
  shows "fdb_remove i db =
    (if descends (index db) i (bhs_id h) then Some (Inl fork_database_exception)
     else Some (Inr (db\<lparr>index := filter (\<lambda>b. \<not> descends (index db) i (bhs_id b)) (index db)\<rparr>)))"
proof -
  have "queue_inv (index db) i [] [i]" by (auto simp: queue_inv_def intro: descends_refl)
  from remove_queue_loop_result [OF assms(1) this, of "loop_bound db" "bhs_id h"] loop_bound_ge [of db]
  show ?thesis
    using assms(2) by (auto simp: fdb_remove_def res_opt_bind_def split: if_splits)
qed

text \<open>What is left is still a tree.\<close>

lemma tree_ok_closed:
  assumes "tree_ok r idx" "\<And>b. b \<in> set idx \<Longrightarrow> P b \<Longrightarrow> block_prev b \<noteq> bhs_id r \<Longrightarrow> (\<exists>p \<in> set idx. P p \<and> bhs_id p = block_prev b)"
  shows "tree_ok r (filter P idx)"
proof -
  have "\<exists>p \<in> set (r # filter P idx). bhs_id p = block_prev b \<and> unat (block_num b) = Suc (unat (block_num p))"
    if b: "b \<in> set (filter P idx)" for b
  proof -
    obtain p where p: "p \<in> set (r # idx)" "bhs_id p = block_prev b" "unat (block_num b) = Suc (unat (block_num p))"
      using tree_ok_parent [OF assms(1), of b] b by auto
    have "p \<in> set (r # filter P idx)"
      using assms(2) [of b] b p(1,2) tree_ok_unique [OF assms(1), of p] by fastforce
    then show ?thesis using p by blast
  qed
  then show ?thesis using assms(1) by (auto simp: tree_ok_def distinct_map_filter)
qed

lemma tree_ok_remove:
  assumes "tree_ok r idx"
  shows "tree_ok r (filter (\<lambda>b. \<not> descends idx i (bhs_id b)) idx)"
proof (rule tree_ok_closed [OF assms])
  fix b assume b: "b \<in> set idx" "\<not> descends idx i (bhs_id b)" "block_prev b \<noteq> bhs_id r"
  obtain p where "p \<in> set (r # idx)" "bhs_id p = block_prev b" using tree_ok_parent [OF assms b(1)] by blast
  then have "p \<in> set idx" "bhs_id p = block_prev b" using b(3) by auto
  then show "\<exists>p \<in> set idx. \<not> descends idx i (bhs_id p) \<and> bhs_id p = block_prev b"
    using b descends_step [OF b(1)] by metis
qed

section \<open>Branches\<close>

text \<open>\<open>is_path a bs c\<close>: the blocks \<open>bs\<close> lead from \<open>a\<close> down to \<open>c\<close>, which is not among them.\<close>

fun is_path :: "block_id_type \<Rightarrow> block_state list \<Rightarrow> block_id_type \<Rightarrow> bool" where
  "is_path a [] c \<longleftrightarrow> a = c"
| "is_path a (b # bs) c \<longleftrightarrow> bhs_id b = a \<and> is_path (block_prev b) bs c"

lemma is_path_append: "is_path a (xs @ ys) c \<longleftrightarrow> (\<exists>b. is_path a xs b \<and> is_path b ys c)"
  by (induction xs arbitrary: a) auto

lemma num_less_iff: "(m :: u32) < n \<longleftrightarrow> unat m < unat n"
  by (simp add: word_less_nat_alt)

text \<open>Walking down one branch reaches the height asked for, if the root is not above it.\<close>

lemma walk_down_result:
  assumes "tree_ok r (index db)" "b \<in> set (r # index db)" "unat (block_num r) \<le> unat num"
    "unat (block_num b) \<le> n + unat num"
  shows "\<exists>bs c. walk_down db r num n b = Some (Inr (bs, c)) \<and> c \<in> set (r # index db) \<and> set bs \<subseteq> set (index db)
    \<and> is_path (bhs_id b) bs (bhs_id c) \<and> unat (block_num c) = min (unat (block_num b)) (unat num)
    \<and> (\<forall>x \<in> set bs. unat num < unat (block_num x))"
  using assms(2,4)
proof (induction n arbitrary: b)
  case 0
  then show ?case by (auto simp: num_less_iff)
next
  case (Suc n)
  show ?case
  proof (cases "num < block_num b")
    case False
    then show ?thesis using Suc.prems by (auto simp: num_less_iff)
  next
    case True
    then have b: "b \<in> set (index db)" using Suc.prems assms(3) by (auto simp: num_less_iff)
    obtain p where p: "p \<in> set (r # index db)" "bhs_id p = block_prev b" "unat (block_num b) = Suc (unat (block_num p))"
      using tree_ok_parent [OF assms(1) b] .
    have "root_or_block db r (previous (header b)) = Some p"
      using root_or_block_Some [OF assms(1) p(1)] p(2) by (simp add: block_prev_def)
    moreover obtain bs c where "walk_down db r num n p = Some (Inr (bs, c))" "c \<in> set (r # index db)"
        "set bs \<subseteq> set (index db)" "is_path (bhs_id p) bs (bhs_id c)"
        "unat (block_num c) = min (unat (block_num p)) (unat num)" "\<forall>x \<in> set bs. unat num < unat (block_num x)"
      using Suc.IH [OF p(1)] Suc.prems(2) p(3) by auto
    ultimately show ?thesis using True b p by (auto simp: num_less_iff intro!: exI [of _ "b # bs"] exI [of _ c])
  qed
qed

text \<open>The root is below every block of the index, and all blocks descend from it.\<close>

lemma tree_ok_above_root:
  assumes "tree_ok r idx" "b \<in> set idx"
  shows "descends idx (bhs_id r) (bhs_id b) \<and> unat (block_num r) < unat (block_num b)"
  using assms(2)
proof (induction "unat (block_num b)" arbitrary: b rule: less_induct)
  case less
  obtain p where p: "p \<in> set (r # idx)" "bhs_id p = block_prev b" "unat (block_num b) = Suc (unat (block_num p))"
    using tree_ok_parent [OF assms(1) less.prems] .
  show ?case
  proof (cases "p = r")
    case True
    then show ?thesis using p less.prems descends_step [OF less.prems] descends_refl by auto
  next
    case False
    then show ?thesis using less.hyps [of p] p descends_step [OF less.prems] less.prems by auto
  qed
qed

text \<open>
  Walking down two branches at the same height, from different blocks, reaches a common
  predecessor; the blocks on the way are all different.
\<close>

lemma walk_both_result:
  assumes "tree_ok r (index db)" "a \<in> set (index db)" "b \<in> set (index db)" "bhs_id a \<noteq> bhs_id b"
    "unat (block_num a) = unat (block_num b)" "unat (block_num a) \<le> n + unat (block_num r)"
  shows "\<exists>as bs c. walk_both db n a b = Some (Inr (as, bs)) \<and> set as \<union> set bs \<subseteq> set (index db)
    \<and> is_path (bhs_id a) as c \<and> is_path (bhs_id b) bs c
    \<and> (\<forall>x \<in> set as. \<forall>y \<in> set bs. bhs_id x \<noteq> bhs_id y)
    \<and> (\<forall>x \<in> set as \<union> set bs. unat (block_num x) \<le> unat (block_num a))"
  using assms(2-6)
proof (induction n arbitrary: a b)
  case 0
  then show ?case using tree_ok_above_root [OF assms(1), of a] by simp
next
  case (Suc n)
  note a = Suc.prems(1) and b = Suc.prems(2)
  have ab: "previous (header x) = block_prev x" for x :: block_state by (simp add: block_prev_def)
  show ?case
  proof (cases "block_prev a = block_prev b")
    case True
    then show ?thesis
      using Suc.prems by (intro exI [of _ "[a]"] exI [of _ "[b]"] exI [of _ "block_prev a"]) (simp add: ab)
  next
    case False
    obtain p where p: "p \<in> set (r # index db)" "bhs_id p = block_prev a" "unat (block_num a) = Suc (unat (block_num p))"
      using tree_ok_parent [OF assms(1) a] .
    obtain q where q: "q \<in> set (r # index db)" "bhs_id q = block_prev b" "unat (block_num b) = Suc (unat (block_num q))"
      using tree_ok_parent [OF assms(1) b] .
    have same: "unat (block_num p) = unat (block_num q)" "bhs_id p \<noteq> bhs_id q" using p q Suc.prems False by simp_all
    then have idx: "p \<in> set (index db)" "q \<in> set (index db)"
      using p(1) q(1) tree_ok_above_root [OF assms(1), of p] tree_ok_above_root [OF assms(1), of q] by auto
    then have gb: "get_block db (block_prev a) = Some p" "get_block db (block_prev b) = Some q"
      using get_block_eq [OF assms(1)] p(2) q(2) by metis+
    obtain as bs c where w: "walk_both db n p q = Some (Inr (as, bs))" "set as \<union> set bs \<subseteq> set (index db)"
        "is_path (bhs_id p) as c" "is_path (bhs_id q) bs c" "\<forall>x \<in> set as. \<forall>y \<in> set bs. bhs_id x \<noteq> bhs_id y"
        "\<forall>x \<in> set as \<union> set bs. unat (block_num x) \<le> unat (block_num p)"
      using Suc.IH [OF idx same(2,1)] Suc.prems(5) p(3) by auto
    have above: "bhs_id x \<noteq> bhs_id y" if "x \<in> set (index db)" "unat (block_num x) = unat (block_num a)" "y \<in> set as \<union> set bs" for x y
    proof
      assume "bhs_id x = bhs_id y"
      moreover have "y \<in> set (index db)" using that(3) w(2) by blast
      ultimately have "x = y" using tree_ok_unique [OF assms(1), of x y] that(1) by simp
      moreover have "unat (block_num y) \<le> unat (block_num p)" using that(3) w(6) by blast
      ultimately show False using that(2) p(3) by simp
    qed
    show ?thesis
    proof (intro exI conjI)
      show "walk_both db (Suc n) a b = Some (Inr (a # as, b # bs))"
        using False gb w(1) by (simp add: ab)
      show "is_path (bhs_id a) (a # as) c" "is_path (bhs_id b) (b # bs) c" using w(3,4) p(2) q(2) by simp_all
      show "set (a # as) \<union> set (b # bs) \<subseteq> set (index db)" using a b w(2) by simp
      show "\<forall>x \<in> set (a # as). \<forall>y \<in> set (b # bs). bhs_id x \<noteq> bhs_id y"
        using w(5) above [OF a] above [OF b] Suc.prems(3,4) by (metis Un_iff set_ConsD)
      show "\<forall>x \<in> set (a # as) \<union> set (b # bs). unat (block_num x) \<le> unat (block_num a)"
        using w(6) p(3) Suc.prems(4) by (auto simp: le_Suc_eq)
    qed
  qed
qed

text \<open>A branch has a block for every number above the root, so it is no longer than the index.\<close>

lemma tree_ok_heights:
  assumes "tree_ok r idx" "b \<in> set idx" "unat (block_num r) < k" "k \<le> unat (block_num b)"
  shows "k \<in> (\<lambda>b. unat (block_num b)) ` set idx"
  using assms(2,4)
proof (induction "unat (block_num b)" arbitrary: b rule: less_induct)
  case less
  show ?case
  proof (cases "k = unat (block_num b)")
    case True
    then show ?thesis using less.prems by blast
  next
    case False
    obtain p where p: "p \<in> set (r # idx)" "unat (block_num b) = Suc (unat (block_num p))"
      using tree_ok_parent [OF assms(1) less.prems(1)] by metis
    then have "p \<in> set idx" using False less.prems(2) assms(3) by auto
    then show ?thesis using less.hyps [of p] p(2) False less.prems(2) by simp
  qed
qed

lemma tree_ok_height_bound:
  assumes "tree_ok r (index db)" "b \<in> set (r # index db)"
  shows "unat (block_num b) \<le> loop_bound db + unat (block_num r)"
proof (cases "b = r")
  case False
  then have b: "b \<in> set (index db)" using assms(2) by simp
  have "{unat (block_num r) <.. unat (block_num b)} \<subseteq> (\<lambda>b. unat (block_num b)) ` set (index db)"
    using tree_ok_heights [OF assms(1) b] by auto
  then have "card {unat (block_num r) <.. unat (block_num b)} \<le> card ((\<lambda>b. unat (block_num b)) ` set (index db))"
    by (intro card_mono) auto
  also have "\<dots> \<le> length (index db)" using card_image_le [of "set (index db)"] card_length order_trans by blast
  finally show ?thesis using loop_bound_ge [of db] by simp
qed simp

text \<open>The first two loops bring both branches to the same height; at most one of them walks.\<close>

lemma walk_down_pair:
  assumes t: "tree_ok r (index db)" and x: "x \<in> set (r # index db)" and y: "y \<in> set (r # index db)"
  obtains as a bs b where
    "walk_down db r (block_num y) (loop_bound db) x = Some (Inr (as, a))"
    "walk_down db r (block_num a) (loop_bound db) y = Some (Inr (bs, b))"
    "a \<in> set (r # index db)" "b \<in> set (r # index db)" "set as \<union> set bs \<subseteq> set (index db)"
    "is_path (bhs_id x) as (bhs_id a)" "is_path (bhs_id y) bs (bhs_id b)"
    "unat (block_num a) = unat (block_num b)" "as = [] \<or> bs = []"
    "\<forall>u \<in> set as \<union> set bs. unat (block_num a) < unat (block_num u)"
proof -
  have low: "unat (block_num r) \<le> unat (block_num b)" if "b \<in> set (r # index db)" for b
    using tree_ok_above_root [OF t, of b] that by auto
  obtain as a where w1: "walk_down db r (block_num y) (loop_bound db) x = Some (Inr (as, a))" "a \<in> set (r # index db)"
      "set as \<subseteq> set (index db)" "is_path (bhs_id x) as (bhs_id a)"
      "unat (block_num a) = min (unat (block_num x)) (unat (block_num y))"
      "\<forall>b \<in> set as. unat (block_num y) < unat (block_num b)"
    using walk_down_result [OF t x low [OF y], of "loop_bound db"] tree_ok_height_bound [OF t x] low [OF y] by fastforce
  obtain bs b where w2: "walk_down db r (block_num a) (loop_bound db) y = Some (Inr (bs, b))" "b \<in> set (r # index db)"
      "set bs \<subseteq> set (index db)" "is_path (bhs_id y) bs (bhs_id b)"
      "unat (block_num b) = min (unat (block_num y)) (unat (block_num a))"
      "\<forall>b \<in> set bs. unat (block_num a) < unat (block_num b)"
    using walk_down_result [OF t y low [OF w1(2)], of "loop_bound db"] tree_ok_height_bound [OF t y] low [OF w1(2)]
    by fastforce
  have "as = []" if "unat (block_num x) \<le> unat (block_num y)" using w1(1) that by (simp add: num_less_iff)
  moreover have "bs = []" if "unat (block_num y) \<le> unat (block_num a)" using w2(1) that by (simp add: num_less_iff)
  ultimately have one: "as = [] \<or> bs = []" using w1(5) by linarith
  have "unat (block_num a) \<le> unat (block_num y)" using w1(5) by simp
  then have above: "\<forall>u \<in> set as \<union> set bs. unat (block_num a) < unat (block_num u)"
    using w1(6) w2(6) by (meson Un_iff order_le_less_trans)
  have "set as \<union> set bs \<subseteq> set (index db)" "unat (block_num a) = unat (block_num b)"
    using w1(3,5) w2(3,5) by simp_all
  from that [OF w1(1) w2(1) w1(2) w2(2) this(1) w1(4) w2(4) this(2) one above] show thesis .
qed

lemma fetch_branch_from_result:
  assumes r: "fdb_root db = Some r" and t: "tree_ok r (index db)"
    and x: "root_or_block db r i = Some x" and y: "root_or_block db r j = Some y"
  shows "\<exists>as bs c. fetch_branch_from db i j = Some (Inr (as, bs)) \<and> set as \<union> set bs \<subseteq> set (index db)
    \<and> is_path i as c \<and> is_path j bs c \<and> (\<forall>a \<in> set as. \<forall>b \<in> set bs. bhs_id a \<noteq> bhs_id b)"
proof -
  have xm: "x \<in> set (r # index db)" "bhs_id x = i" and ym: "y \<in> set (r # index db)" "bhs_id y = j"
    using root_or_block_mem [OF x] root_or_block_mem [OF y] by blast+
  obtain as1 a bs1 b where w1: "walk_down db r (block_num y) (loop_bound db) x = Some (Inr (as1, a))"
      "walk_down db r (block_num a) (loop_bound db) y = Some (Inr (bs1, b))" and
    ab: "a \<in> set (r # index db)" "b \<in> set (r # index db)" and sub: "set as1 \<union> set bs1 \<subseteq> set (index db)" and
    paths: "is_path i as1 (bhs_id a)" "is_path j bs1 (bhs_id b)" and num: "unat (block_num a) = unat (block_num b)" and
    one: "as1 = [] \<or> bs1 = []" and above: "\<forall>u \<in> set as1 \<union> set bs1. unat (block_num a) < unat (block_num u)"
    by (rule walk_down_pair [OF t xm(1) ym(1), unfolded xm(2) ym(2)])
  show ?thesis
  proof (cases "bhs_id a = bhs_id b")
    case True
    then show ?thesis
      using r x y w1 paths sub one
      by (intro exI [of _ as1] exI [of _ bs1] exI [of _ "bhs_id a"]) (auto simp: fetch_branch_from_def res_opt_bind_def)
  next
    case False
    then have idx: "a \<in> set (index db)" "b \<in> set (index db)"
      using num ab tree_ok_above_root [OF t, of a] tree_ok_above_root [OF t, of b] by auto
    obtain as bs c where w: "walk_both db (loop_bound db) a b = Some (Inr (as, bs))" "set as \<union> set bs \<subseteq> set (index db)"
        "is_path (bhs_id a) as c" "is_path (bhs_id b) bs c" "\<forall>x \<in> set as. \<forall>y \<in> set bs. bhs_id x \<noteq> bhs_id y"
        "\<forall>x \<in> set as \<union> set bs. unat (block_num x) \<le> unat (block_num a)"
      using walk_both_result [OF t idx False num tree_ok_height_bound [OF t ab(1)]] by blast
    have sep: "bhs_id u \<noteq> bhs_id v" if uv: "u \<in> set as1 \<union> set bs1" "v \<in> set as \<union> set bs" for u v
    proof
      assume "bhs_id u = bhs_id v"
      moreover have "u \<in> set (index db)" "v \<in> set (index db)" using uv sub w(2) by blast+
      ultimately have "u = v" using tree_ok_unique [OF t, of u v] by simp
      then show False using uv above w(6) by (meson leD)
    qed
    have disj: "\<forall>u \<in> set (as1 @ as). \<forall>v \<in> set (bs1 @ bs). bhs_id u \<noteq> bhs_id v"
      using one w(5) sep by (auto; metis Un_iff)
    show ?thesis
      using r x y w1 False w(1-4) paths sub disj
      by (intro exI [of _ "as1 @ as"] exI [of _ "bs1 @ bs"] exI [of _ c])
        (auto simp: fetch_branch_from_def res_opt_bind_def is_path_append)
  qed
qed

section \<open>The head\<close>

lemma by_lib_block_num_hd:
  assumes "idx \<noteq> []"
  shows "hd (by_lib_block_num idx) \<in> set idx" "b \<in> set idx \<Longrightarrow> by_lib_key (hd (by_lib_block_num idx)) \<le> by_lib_key b"
proof -
  obtain c cs where c: "by_lib_block_num idx = c # cs"
    using assms by (cases "by_lib_block_num idx") (auto simp: by_lib_block_num_def dest: arg_cong [of _ _ length])
  have set: "set (c # cs) = set idx" unfolding c [symmetric] by (simp add: by_lib_block_num_def)
  have "sorted (map by_lib_key (c # cs))" unfolding c [symmetric] by (simp add: by_lib_block_num_def)
  then show "hd (by_lib_block_num idx) \<in> set idx" "b \<in> set idx \<Longrightarrow> by_lib_key (hd (by_lib_block_num idx)) \<le> by_lib_key b"
    using set c by auto
qed

lemma first_preferred_iff:
  "first_preferred a b \<longleftrightarrow> dpos_irreversible_blocknum b < dpos_irreversible_blocknum a
     \<or> dpos_irreversible_blocknum b = dpos_irreversible_blocknum a \<and> block_num b < block_num a"
  by (auto simp: first_preferred_def)

lemma by_lib_key_le:
  assumes "by_lib_key a \<le> by_lib_key b"
  shows "is_valid b \<Longrightarrow> is_valid a" "is_valid a = is_valid b \<Longrightarrow> \<not> first_preferred b a"
  using assms by (auto simp: by_lib_key_def first_preferred_iff word_less_def)

lemma not_first_preferred_trans: "\<not> first_preferred a b \<Longrightarrow> \<not> first_preferred b c \<Longrightarrow> \<not> first_preferred a c"
  by (auto simp: first_preferred_iff not_less intro: order_trans dest: order.antisym)

text \<open>The first block of the order is valid exactly when some block is, and then it is the best one.\<close>

lemma candidate_best:
  assumes "b \<in> set idx" "is_valid b"
  shows "is_valid (hd (by_lib_block_num idx))" "hd (by_lib_block_num idx) \<in> set idx"
    "\<not> first_preferred b (hd (by_lib_block_num idx))"
proof -
  have ne: "idx \<noteq> []" using assms by auto
  note le = by_lib_block_num_hd(2) [OF ne assms(1)]
  show v: "is_valid (hd (by_lib_block_num idx))" using by_lib_key_le(1) [OF le assms(2)] .
  show "hd (by_lib_block_num idx) \<in> set idx" by (rule by_lib_block_num_hd(1) [OF ne])
  show "\<not> first_preferred b (hd (by_lib_block_num idx))" using by_lib_key_le(2) [OF le] v assms(2) by simp
qed

section \<open>Every operation keeps the invariant\<close>

text \<open>
  What a block state built on \<open>prev\<close> satisfies: it names \<open>prev\<close> as its predecessor, has the next
  number and carries it in its id. Both constructors of block states guarantee it.
\<close>

definition extends_block :: "block_state \<Rightarrow> block_state \<Rightarrow> bool" where
  "extends_block prev n \<longleftrightarrow> block_prev n = bhs_id prev \<and> block_num n = block_num prev + 1
     \<and> num_from_id (bhs_id n) = num_from_id (block_prev n) + 1"

lemma fdb_reset_ok: "num_from_id (bhs_id s) = block_num s \<Longrightarrow> fdb_ok (fdb_reset s)"
  by (auto simp: fdb_ok_def fdb_reset_def tree_ok_def head_ok_def Let_def mk_block_state_def
      block_header_state.defs block_state.defs)

lemma tree_ok_map:
  assumes "tree_ok r idx" "\<And>b. bhs_id (f b) = bhs_id b \<and> block_prev (f b) = block_prev b \<and> block_num (f b) = block_num b"
  shows "tree_ok r (map f idx)"
  using assms by (auto simp: tree_ok_def comp_def image_image)

lemma rollback_ok: "fdb_ok db \<Longrightarrow> fdb_ok (rollback_head_to_root db)"
  by (auto simp: fdb_ok_def rollback_head_to_root_def head_ok_def is_valid_def block_prev_def intro!: tree_ok_map)

lemma tree_ok_snoc:
  assumes "tree_ok r idx" "p \<in> set (r # idx)" "extends_block p n" "unat (block_num p) < 2 ^ 32 - 1"
    "bhs_id n \<notin> bhs_id ` set idx"
  shows "tree_ok r (idx @ [n])"
proof -
  have "unat (block_num p + 1) = unat (block_num p) + 1"
    using assms(4) unat_add_no_overflow [of "block_num p" 1] by simp
  then have num: "unat (block_num n) = Suc (unat (block_num p))" using assms(3) by (simp add: extends_block_def)
  have id: "num_from_id (bhs_id n) = block_num n"
    using assms(1-3) by (auto simp: extends_block_def tree_ok_def)
  have "bhs_id n \<noteq> bhs_id r"
  proof
    assume "bhs_id n = bhs_id r"
    then have "block_num n = block_num r" using id assms(1) by (auto simp: tree_ok_def)
    then show False using num tree_ok_above_root [OF assms(1), of p] assms(2) by auto
  qed
  then show ?thesis using assms num id by (auto simp: tree_ok_def extends_block_def)
qed

lemma fdb_add_ok:
  assumes "fdb_ok db" "fdb_add n ignore_duplicate db = Inr db'" "get_block_header db (block_prev n) = Inr (Some p)"
    "extends_block p n" "unat (block_num p) < 2 ^ 32 - 1"
  shows "fdb_ok db'"
proof -
  obtain r h where r: "fdb_root db = Some r" "fdb_head db = Some h" "tree_ok r (index db)" "head_ok r h (index db)"
    using assms(1) by (auto simp: fdb_ok_def)
  have p: "p \<in> set (r # index db)"
    using assms(3) r(1) by (auto simp: get_block_header_def dest: get_block_Some split: if_splits)
  have db': "db' = db \<or> bhs_id n \<notin> bhs_id ` set (index db)
      \<and> db' = db\<lparr>index := index db @ [n], fdb_head := (if is_valid (hd (by_lib_block_num (index db @ [n])))
            then Some (hd (by_lib_block_num (index db @ [n]))) else fdb_head db)\<rparr>"
    using assms(2,3) r(1)
    by (auto simp: fdb_add_def fdb_impl_add_def block_prev_def get_block_None Let_def split: if_splits)
  then show ?thesis
  proof
    assume new: "bhs_id n \<notin> bhs_id ` set (index db)
      \<and> db' = db\<lparr>index := index db @ [n], fdb_head := (if is_valid (hd (by_lib_block_num (index db @ [n])))
            then Some (hd (by_lib_block_num (index db @ [n]))) else fdb_head db)\<rparr>"
    let ?idx = "index db @ [n]" and ?c = "hd (by_lib_block_num (index db @ [n]))"
    have "head_ok r (if is_valid ?c then ?c else h) ?idx"
    proof (cases "is_valid ?c")
      case True
      then show ?thesis
        using by_lib_block_num_hd(1) [of ?idx] candidate_best(3) [of _ ?idx] by (auto simp: head_ok_def)
    next
      case False
      then have "\<not> is_valid b" if "b \<in> set ?idx" for b using candidate_best(1) [OF that] by blast
      then show ?thesis using r(4) False by (auto simp: head_ok_def)
    qed
    moreover have "tree_ok r ?idx" using tree_ok_snoc [OF r(3) p assms(4,5)] new by blast
    ultimately show ?thesis using r(1,2) new by (auto simp: fdb_ok_def)
  qed (use assms(1) in simp)
qed

lemma mark_valid_ok:
  assumes "fdb_ok db" "mark_valid b db = Inr db'"
  shows "fdb_ok db'"
proof (cases "validated b")
  case False
  obtain r h where r: "fdb_root db = Some r" "fdb_head db = Some h" "tree_ok r (index db)" "head_ok r h (index db)"
    using assms(1) by (auto simp: fdb_ok_def)
  let ?u = "\<lambda>x. if bhs_id x = bhs_id b then x\<lparr>validated := True\<rparr> else x"
  let ?idx = "map ?u (index db)"
  let ?c = "hd (by_lib_block_num ?idx)"
  have db': "db' = db\<lparr>index := ?idx, fdb_head := Some (if first_preferred ?c (?u h) then ?c else ?u h)\<rparr>"
    and mem: "bhs_id b \<in> bhs_id ` set (index db)"
    using assms(2) False r(2) by (auto simp: mark_valid_def Let_def get_block_None split: if_splits)
  have tree: "tree_ok r ?idx" by (rule tree_ok_map [OF r(3)]) (simp add: block_prev_def)
  obtain y where y: "y \<in> set (index db)" "bhs_id y = bhs_id b" using mem by auto
  have "?u y \<in> set ?idx" unfolding set_map using y(1) by (rule imageI)
  then have x: "y\<lparr>validated := True\<rparr> \<in> set ?idx" "is_valid (y\<lparr>validated := True\<rparr>)"
    using y(2) by (simp_all add: is_valid_def)
  note c = candidate_best [OF x]
  have "bhs_id r \<noteq> bhs_id b" using mem r(3) by (auto simp: tree_ok_def)
  then have uh: "?u h = r \<or> ?u h \<in> set ?idx \<and> is_valid (?u h)"
    using r(4) by (auto simp: head_ok_def is_valid_def)
  have "head_ok r (if first_preferred ?c (?u h) then ?c else ?u h) ?idx"
    unfolding head_ok_def
  proof (intro conjI ballI impI)
    show "(if first_preferred ?c (?u h) then ?c else ?u h) = r
      \<or> (if first_preferred ?c (?u h) then ?c else ?u h) \<in> set ?idx \<and> is_valid (if first_preferred ?c (?u h) then ?c else ?u h)"
      using uh c by presburger
    fix y assume y: "y \<in> set ?idx" "is_valid y"
    show "\<not> first_preferred y (if first_preferred ?c (?u h) then ?c else ?u h)"
      using candidate_best(3) [OF y] not_first_preferred_trans by (simp split: if_splits) blast
  qed
  then show ?thesis using r(1) tree db' by (auto simp: fdb_ok_def)
qed (use assms in \<open>simp add: mark_valid_def\<close>)

lemma fdb_remove_ok:
  assumes "fdb_ok db" "fdb_remove i db = Some (Inr db')"
  shows "fdb_ok db'"
proof -
  obtain r h where r: "fdb_root db = Some r" "fdb_head db = Some h" "tree_ok r (index db)" "head_ok r h (index db)"
    using assms(1) by (auto simp: fdb_ok_def)
  have "db' = db\<lparr>index := filter (\<lambda>b. \<not> descends (index db) i (bhs_id b)) (index db)\<rparr>"
    and "\<not> descends (index db) i (bhs_id h)"
    using assms(2) fdb_remove_result [OF tree_ok_forest [OF r(3)] r(2)] by (auto split: if_splits)
  then show ?thesis using r tree_ok_remove [OF r(3), of i] by (auto simp: fdb_ok_def head_ok_def)
qed

section \<open>Advancing the root\<close>

lemma root_not_descendant:
  assumes "tree_ok r idx" "x \<in> set idx"
  shows "\<not> descends idx (bhs_id x) (bhs_id r)"
proof
  assume d: "descends idx (bhs_id x) (bhs_id r)"
  have "bhs_id x \<noteq> bhs_id r" using tree_ok_unique [OF assms(1), of x r] tree_ok_above_root [OF assms] assms(2) by auto
  then show False using descends_height [OF assms(1) d, of x r] tree_ok_above_root [OF assms] assms(2) by auto
qed

text \<open>The ids collected for removal are those of the proper ancestors of the new root.\<close>

lemma blocks_to_remove_result:
  assumes "tree_ok r (index db)" "b \<in> set (index db)" "unat (block_num b) \<le> n + unat (block_num r)"
  shows "\<exists>l. blocks_to_remove_loop db (bhs_id r) n (Some b) = Some (Inr l) \<and> bhs_id r \<in> set l
    \<and> (\<forall>a \<in> set l. a \<in> bhs_id ` set (r # index db) \<and> descends (index db) a (bhs_id b) \<and> a \<noteq> bhs_id b)"
  using assms(2,3)
proof (induction n arbitrary: b)
  case 0
  then show ?case using tree_ok_above_root [OF assms(1)] by force
next
  case (Suc n)
  have ab: "previous (header b) = block_prev b" by (simp add: block_prev_def)
  obtain p where p: "p \<in> set (r # index db)" "bhs_id p = block_prev b" "unat (block_num b) = Suc (unat (block_num p))"
    using tree_ok_parent [OF assms(1) Suc.prems(1)] .
  have d: "descends (index db) (bhs_id p) (bhs_id b)" "bhs_id p \<noteq> bhs_id b"
    using descends_step [OF Suc.prems(1)] descends_refl p not_descends_parent [OF assms(1) Suc.prems(1)] by auto
  show ?case
  proof (cases "p = r")
    case True
    then have "get_block db (block_prev b) = None" using p(2) assms(1) by (auto simp: get_block_None tree_ok_def)
    then show ?thesis using True p d by (simp add: ab)
  next
    case False
    then have pi: "p \<in> set (index db)" using p(1) by simp
    obtain l where l: "blocks_to_remove_loop db (bhs_id r) n (Some p) = Some (Inr l)" "bhs_id r \<in> set l"
        "\<forall>a \<in> set l. a \<in> bhs_id ` set (r # index db) \<and> descends (index db) a (bhs_id p) \<and> a \<noteq> bhs_id p"
      using Suc.IH [OF pi] Suc.prems(2) p(3) by auto
    have g: "get_block db (block_prev b) = Some p" using get_block_eq [OF assms(1) pi] p(2) by simp
    have "a \<noteq> bhs_id b" if "a \<in> set l" for a
      using not_descends_parent [OF assms(1) Suc.prems(1)] l(3) that p(2) by auto
    then show ?thesis
      using l g p pi d descends_trans [OF d(1)] imageI [OF pi, of bhs_id]
      by (intro exI [of _ "bhs_id p # l"]) (auto simp: ab)
  qed
qed

text \<open>Removing several subtrees one after the other is removing their union.\<close>

lemma descends_filter:
  assumes "descends idx c j" "Q j" "\<And>b. b \<in> set idx \<Longrightarrow> Q (bhs_id b) \<Longrightarrow> P b \<and> Q (block_prev b)"
  shows "descends (filter P idx) c j"
  using assms(1,2)
proof (induction rule: descends.induct)
  case (descends_step b)
  then show ?case using assms(3) [of b] descends.descends_step [of b "filter P idx" c] by simp
qed (rule descends_refl)

lemma descends_filter_iff:
  assumes "\<not> descends idx a j"
  shows "descends (filter (\<lambda>b. \<not> descends idx a (bhs_id b)) idx) c j \<longleftrightarrow> descends idx c j"
proof
  assume "descends idx c j"
  then show "descends (filter (\<lambda>b. \<not> descends idx a (bhs_id b)) idx) c j"
    by (rule descends_filter [of _ _ _ "\<lambda>j. \<not> descends idx a j"]) (use assms descends_step [of _ idx a] in auto)
qed (auto elim: descends_mono)

lemma fdb_remove_all_result:
  assumes "forest (index db)" "fdb_head db = Some h" "\<forall>a \<in> set l. \<not> descends (index db) a (bhs_id h)"
  shows "fdb_remove_all l db =
    Some (Inr (), db\<lparr>index := filter (\<lambda>b. \<forall>a \<in> set l. \<not> descends (index db) a (bhs_id b)) (index db)\<rparr>)"
  using assms
proof (induction l arbitrary: db)
  case (Cons a l)
  let ?idx = "filter (\<lambda>b. \<not> descends (index db) a (bhs_id b)) (index db)"
  have "fdb_remove a db = Some (Inr (db\<lparr>index := ?idx\<rparr>))"
    using fdb_remove_result [OF Cons.prems(1,2)] Cons.prems(3) by simp
  moreover have "filter (\<lambda>b. \<forall>c \<in> set l. \<not> descends ?idx c (bhs_id b)) ?idx
      = filter (\<lambda>b. \<forall>c \<in> set (a # l). \<not> descends (index db) c (bhs_id b)) (index db)"
    by (auto simp: descends_filter_iff intro: filter_cong)
  ultimately show ?case
    using Cons.IH [of "db\<lparr>index := ?idx\<rparr>"] Cons.prems forest_filter by (auto simp: descends_filter_iff)
qed simp

text \<open>
  When the head is among the blocks to be removed, the removals before it stay done; what no
  removal reaches is still there.
\<close>

lemma fdb_remove_all_throws:
  assumes "forest (index db)" "fdb_head db = Some h" "\<exists>a \<in> set l. descends (index db) a (bhs_id h)"
  shows "\<exists>idx. fdb_remove_all l db = Some (Inl fork_database_exception, db\<lparr>index := idx\<rparr>) \<and> set idx \<subseteq> set (index db)
    \<and> (\<forall>b \<in> set (index db). (\<forall>a \<in> set l. \<not> descends (index db) a (bhs_id b)) \<longrightarrow> b \<in> set idx)"
  using assms
proof (induction l arbitrary: db)
  case (Cons a l)
  show ?case
  proof (cases "descends (index db) a (bhs_id h)")
    case True
    then show ?thesis
      using fdb_remove_result [OF Cons.prems(1,2)] by (intro exI [of _ "index db"]) simp
  next
    case False
    let ?idx = "filter (\<lambda>b. \<not> descends (index db) a (bhs_id b)) (index db)"
    have rm: "fdb_remove a db = Some (Inr (db\<lparr>index := ?idx\<rparr>))"
      using fdb_remove_result [OF Cons.prems(1,2)] False by simp
    have "\<exists>c \<in> set l. descends ?idx c (bhs_id h)" using Cons.prems(3) False by (auto simp: descends_filter_iff)
    then obtain idx where idx: "fdb_remove_all l (db\<lparr>index := ?idx\<rparr>) = Some (Inl fork_database_exception, db\<lparr>index := idx\<rparr>)"
        "set idx \<subseteq> set ?idx" "\<forall>b \<in> set ?idx. (\<forall>c \<in> set l. \<not> descends ?idx c (bhs_id b)) \<longrightarrow> b \<in> set idx"
      using Cons.IH [of "db\<lparr>index := ?idx\<rparr>"] Cons.prems forest_filter by auto
    have "b \<in> set idx" if "b \<in> set (index db)" "\<forall>c \<in> set (a # l). \<not> descends (index db) c (bhs_id b)" for b
      using idx(3) that by (auto simp: descends_filter_iff)
    then show ?thesis using rm idx(1,2) by (intro exI [of _ idx]) auto
  qed
qed simp

text \<open>Once the new root is taken out, what its ancestors reach is what does not descend from it.\<close>

lemma reached_from_ancestors:
  assumes "tree_ok r idx" "x \<in> set idx" "j \<in> bhs_id ` set (r # idx)" "j \<noteq> bhs_id x"
    and l: "bhs_id r \<in> set l"
      "\<forall>a \<in> set l. a \<in> bhs_id ` set (r # idx) \<and> descends idx a (bhs_id x) \<and> a \<noteq> bhs_id x"
  shows "(\<exists>a \<in> set l. descends (filter (\<lambda>b. bhs_id b \<noteq> bhs_id x) idx) a j) \<longleftrightarrow> \<not> descends idx (bhs_id x) j"
proof
  let ?idx = "filter (\<lambda>b. bhs_id b \<noteq> bhs_id x) idx"
  assume "\<exists>a \<in> set l. descends ?idx a j"
  then obtain a where a: "a \<in> set l" "descends ?idx a j" by blast
  from a(2) show "\<not> descends idx (bhs_id x) j"
  proof (induction rule: descends.induct)
    case descends_refl
    show ?case
    proof
      assume "descends idx (bhs_id x) a"
      then show False
        using l(2) a(1) descends_height [OF assms(1), of a "bhs_id x"] descends_height [OF assms(1), of "bhs_id x" a]
          assms(2) by fastforce
    qed
  next
    case (descends_step b)
    then have b: "b \<in> set idx" "bhs_id b \<noteq> bhs_id x" by simp_all
    show ?case
    proof
      assume "descends idx (bhs_id x) (bhs_id b)"
      then show False
        using b descends_step.IH tree_ok_unique [OF assms(1), of b] by (auto elim: descendsE)
    qed
  qed
next
  let ?idx = "filter (\<lambda>b. bhs_id b \<noteq> bhs_id x) idx"
  assume nd: "\<not> descends idx (bhs_id x) j"
  have "descends idx (bhs_id r) j" using assms(3) tree_ok_above_root [OF assms(1)] by (auto intro: descends_refl)
  then have "descends ?idx (bhs_id r) j"
    by (rule descends_filter [of _ _ _ "\<lambda>j. \<not> descends idx (bhs_id x) j"])
      (use nd descends_step [of _ idx "bhs_id x"] descends_refl [of idx "bhs_id x"] in auto)
  then show "\<exists>a \<in> set l. descends ?idx a j" using l(1) by blast
qed

lemma advance_root_removals:
  assumes "fdb_ok db" "get_block db i = Some x" "fdb_head db = Some h" "fdb_root db = Some r"
  shows "\<exists>l. blocks_to_remove_loop db (bhs_id r) (loop_bound db) (Some x) = Some (Inr l)
    \<and> (\<forall>b \<in> set (index db). bhs_id b \<noteq> i \<longrightarrow>
      (\<exists>a \<in> set l. descends (filter (\<lambda>b. bhs_id b \<noteq> i) (index db)) a (bhs_id b)) \<longleftrightarrow> \<not> descends (index db) i (bhs_id b))
    \<and> ((\<exists>a \<in> set l. descends (filter (\<lambda>b. bhs_id b \<noteq> i) (index db)) a (bhs_id h)) \<longleftrightarrow> \<not> descends (index db) i (bhs_id h))"
proof -
  have r: "tree_ok r (index db)" "head_ok r h (index db)"
    using assms(1,3,4) by (auto simp: fdb_ok_def)
  have x: "x \<in> set (index db)" "bhs_id x = i" using get_block_Some [OF assms(2)] by simp_all
  obtain l where l: "blocks_to_remove_loop db (bhs_id r) (loop_bound db) (Some x) = Some (Inr l)" "bhs_id r \<in> set l"
      "\<forall>a \<in> set l. a \<in> bhs_id ` set (r # index db) \<and> descends (index db) a (bhs_id x) \<and> a \<noteq> bhs_id x"
    using blocks_to_remove_result [OF r(1) x(1)] tree_ok_height_bound [OF r(1), of x] x(1) by (metis list.set_intros(2))
  let ?idx = "filter (\<lambda>b. bhs_id b \<noteq> i) (index db)"
  have reach: "(\<exists>a \<in> set l. descends ?idx a j) \<longleftrightarrow> \<not> descends (index db) i j" if "j \<in> bhs_id ` set (r # index db)" "j \<noteq> i" for j
    using reached_from_ancestors [OF r(1) x(1) _ _ l(2,3), of j] that x(2) by simp
  have hd: "(\<exists>a \<in> set l. descends ?idx a (bhs_id h)) \<longleftrightarrow> \<not> descends (index db) i (bhs_id h)"
  proof (cases "bhs_id h = i")
    case True
    have "\<not> descends ?idx a i" if "a \<in> set l" for a
      using l(3) that x(2) by (auto elim: descendsE)
    then show ?thesis using True by (simp add: descends_refl)
  next
    case False
    then show ?thesis using reach [of "bhs_id h"] r(2) by (auto simp: head_ok_def)
  qed
  show ?thesis using l(1) hd reach by (intro exI [of _ l]) simp
qed

lemma advance_root_result:
  assumes "fdb_ok db" "get_block db i = Some x" "is_valid x" "fdb_head db = Some h" "descends (index db) i (bhs_id h)"
  shows "advance_root i db =
    Some (Inr (), db\<lparr>index := filter (\<lambda>b. bhs_id b \<noteq> i \<and> descends (index db) i (bhs_id b)) (index db), fdb_root := Some x\<rparr>)"
proof -
  obtain r where r: "fdb_root db = Some r" "tree_ok r (index db)" using assms(1) by (auto simp: fdb_ok_def)
  obtain l where l: "blocks_to_remove_loop db (bhs_id r) (loop_bound db) (Some x) = Some (Inr l)"
    and reach: "\<forall>b \<in> set (index db). bhs_id b \<noteq> i \<longrightarrow>
      (\<exists>a \<in> set l. descends (filter (\<lambda>b. bhs_id b \<noteq> i) (index db)) a (bhs_id b)) \<longleftrightarrow> \<not> descends (index db) i (bhs_id b)"
    and "(\<exists>a \<in> set l. descends (filter (\<lambda>b. bhs_id b \<noteq> i) (index db)) a (bhs_id h)) \<longleftrightarrow> \<not> descends (index db) i (bhs_id h)"
    using advance_root_removals [OF assms(1,2,4) r(1)] by (elim exE conjE)
  then have hd: "\<forall>a \<in> set l. \<not> descends (filter (\<lambda>b. bhs_id b \<noteq> i) (index db)) a (bhs_id h)" using assms(5) by simp
  let ?idx = "filter (\<lambda>b. bhs_id b \<noteq> i) (index db)"
  have "filter (\<lambda>b. \<forall>a \<in> set l. \<not> descends ?idx a (bhs_id b)) ?idx
      = filter (\<lambda>b. bhs_id b \<noteq> i \<and> descends (index db) i (bhs_id b)) (index db)"
    using reach by (auto intro!: filter_cong)
  then show ?thesis
    using fdb_remove_all_result [of "db\<lparr>index := ?idx\<rparr>" h l] forest_filter [OF tree_ok_forest [OF r(2)]] assms(2-4) r(1) l hd
    by (simp add: advance_root_def)
qed

lemma advance_root_throws:
  assumes "fdb_ok db" "get_block db i = Some x" "is_valid x" "fdb_head db = Some h" "\<not> descends (index db) i (bhs_id h)"
  shows "\<exists>idx. advance_root i db = Some (Inl fork_database_exception, db\<lparr>index := idx\<rparr>) \<and> set idx \<subseteq> set (index db)
    \<and> i \<notin> bhs_id ` set idx
    \<and> (\<forall>b \<in> set (index db). bhs_id b \<noteq> i \<and> descends (index db) i (bhs_id b) \<longrightarrow> b \<in> set idx)"
proof -
  obtain r where r: "fdb_root db = Some r" "tree_ok r (index db)" using assms(1) by (auto simp: fdb_ok_def)
  obtain l where l: "blocks_to_remove_loop db (bhs_id r) (loop_bound db) (Some x) = Some (Inr l)"
    and reach: "\<forall>b \<in> set (index db). bhs_id b \<noteq> i \<longrightarrow>
      (\<exists>a \<in> set l. descends (filter (\<lambda>b. bhs_id b \<noteq> i) (index db)) a (bhs_id b)) \<longleftrightarrow> \<not> descends (index db) i (bhs_id b)"
    and "(\<exists>a \<in> set l. descends (filter (\<lambda>b. bhs_id b \<noteq> i) (index db)) a (bhs_id h)) \<longleftrightarrow> \<not> descends (index db) i (bhs_id h)"
    using advance_root_removals [OF assms(1,2,4) r(1)] by (elim exE conjE)
  then have hd: "\<exists>a \<in> set l. descends (filter (\<lambda>b. bhs_id b \<noteq> i) (index db)) a (bhs_id h)" using assms(5) by simp
  let ?idx = "filter (\<lambda>b. bhs_id b \<noteq> i) (index db)"
  obtain idx where idx: "fdb_remove_all l (db\<lparr>index := ?idx\<rparr>) = Some (Inl fork_database_exception, db\<lparr>index := idx\<rparr>)"
      "set idx \<subseteq> set ?idx" "\<forall>b \<in> set ?idx. (\<forall>a \<in> set l. \<not> descends ?idx a (bhs_id b)) \<longrightarrow> b \<in> set idx"
    using fdb_remove_all_throws [of "db\<lparr>index := ?idx\<rparr>" h l] forest_filter [OF tree_ok_forest [OF r(2)]] assms(4) hd by auto
  have "b \<in> set idx" if "b \<in> set (index db)" "bhs_id b \<noteq> i" "descends (index db) i (bhs_id b)" for b
    using idx(3) that reach by auto
  then show ?thesis
    using idx(1,2) assms(2,3) r(1) l by (intro exI [of _ idx]) (auto simp: advance_root_def)
qed

lemma advance_root_ok:
  assumes "fdb_ok db" "get_block db i = Some x" "is_valid x" "fdb_head db = Some h" "descends (index db) i (bhs_id h)"
    "advance_root i db = Some (out, db')"
  shows "fdb_ok db'"
proof -
  obtain r where r: "fdb_root db = Some r" "fdb_head db = Some h" "tree_ok r (index db)" "head_ok r h (index db)"
    using assms(1,4) by (auto simp: fdb_ok_def)
  note x = assms(2,3)
  have xi: "x \<in> set (index db)" "bhs_id x = i" using get_block_Some [OF x(1)] by simp_all
  let ?P = "\<lambda>b. bhs_id b \<noteq> i \<and> descends (index db) i (bhs_id b)"
  have db': "db' = db\<lparr>index := filter ?P (index db), fdb_root := Some x\<rparr>" and dh: "descends (index db) i (bhs_id h)"
    using advance_root_result [OF assms(1-5)] assms(5,6) by simp_all
  have "\<exists>p \<in> set (x # filter ?P (index db)). bhs_id p = block_prev b \<and> unat (block_num b) = Suc (unat (block_num p))"
    if b: "b \<in> set (filter ?P (index db))" for b
  proof -
    obtain p where p: "p \<in> set (r # index db)" "bhs_id p = block_prev b" "unat (block_num b) = Suc (unat (block_num p))"
      using tree_ok_parent [OF r(3), of b] b by auto
    have bm: "b \<in> set (index db)" "bhs_id b \<noteq> i" "descends (index db) i (bhs_id b)" using b by simp_all
    have d: "descends (index db) i (bhs_id p)"
      using bm tree_ok_unique [OF r(3), of b] p(2) by (auto elim: descendsE)
    then have "p \<noteq> r" using root_not_descendant [OF r(3) xi(1)] xi(2) by auto
    then have "p \<in> set (x # filter ?P (index db))"
      using p(1) d tree_ok_unique [OF r(3), of p x] xi by auto
    then show ?thesis using p by blast
  qed
  then have "tree_ok x (filter ?P (index db))" using r(3) xi by (auto simp: tree_ok_def distinct_map_filter)
  moreover have "head_ok x h (filter ?P (index db))"
  proof -
    have "h \<noteq> r" using root_not_descendant [OF r(3) xi(1)] xi(2) dh by auto
    then have "h = x \<or> h \<in> set (filter ?P (index db))"
      using r(4) dh tree_ok_unique [OF r(3), of h x] xi by (auto simp: head_ok_def)
    then show ?thesis using r(4) \<open>h \<noteq> r\<close> by (auto simp: head_ok_def)
  qed
  ultimately show ?thesis using r(2) db' by (auto simp: fdb_ok_def)
qed

section \<open>Reachable databases\<close>

text \<open>Both constructors of block states build on the block they are given.\<close>

lemma finish_next_base_extends:
  assumes "bhs_next C t c s = Inr p" "finish_next_base C h pfs validator p = Inr n"
  shows "previous (header n) = bhs_id s \<and> block_num n = block_num s + 1 \<and> bhs_id n = header_id C (header n)"
proof -
  have "pb_previous p = bhs_id s" "block_num p = block_num s + 1" using assms(1) by (auto elim: bhs_next_Inr)
  then show ?thesis
    using assms(2)
    by (auto simp: finish_next_base_def block_header_state_common.defs block_header_state.defs split: if_splits)
qed

lemma finish_next_extends:
  assumes "bhs_next C t c s = Inr p" "finish_next C h sigs pfs validator skip p = Inr n"
  shows "previous (header n) = bhs_id s \<and> block_num n = block_num s + 1 \<and> bhs_id n = header_id C (header n)"
proof -
  obtain n0 sg where "finish_next_base C h pfs validator p = Inr n0" and "n = n0 \<or> n = n0\<lparr>additional_signatures := sg\<rparr>"
    using assms(2) by (auto simp: finish_next_def Let_def split: if_splits)
  then show ?thesis using finish_next_base_extends [OF assms(1)] by auto
qed

lemma mk_block_state_extends:
  assumes "previous (header s) = bhs_id prev \<and> block_num s = block_num prev + 1 \<and> bhs_id s = header_id C (header s)"
  shows "extends_block prev (mk_block_state s b v k m)"
  using assms
  by (simp add: extends_block_def mk_block_state_def block_prev_def header_block_num_def
      block_header_state.defs block_state.defs)

lemma truncate_fields [simp]:
  "bhs_id (block_header_state.truncate b) = bhs_id b" "block_num (block_header_state.truncate b) = block_num b"
  by (simp_all add: block_header_state.defs)

lemma received_extends:
  assumes "block_state_of_block C (block_header_state.truncate prev) b pfs validator skip = Inr n"
  shows "extends_block prev n"
proof -
  obtain sigs s p where n: "n = mk_block_state s (Some b) False False []"
    and p: "bhs_next C (timestamp (block_header_part b)) (confirmed (block_header_part b)) (block_header_state.truncate prev) = Inr p"
    and f: "finish_next C (block_header_part b) sigs pfs validator skip p = Inr s"
    using assms by (auto simp: block_state_of_block_def bhs_next_header_def)
  show ?thesis unfolding n using finish_next_extends [OF p f] by (intro mk_block_state_extends) simp
qed

lemma produced_extends:
  assumes "bhs_next C t c (block_header_state.truncate prev) = Inr cur"
    "block_state_of_pending C cur b trx_metas pfs validator signer = Inr n"
  shows "extends_block prev n"
proof -
  obtain s b' h where sg: "finish_next_sign C (block_header_part b) pfs validator signer cur = Inr (s, h)"
    and n: "n = mk_block_state s (Some b') False True trx_metas"
    using assms(2) by (auto simp: block_state_of_pending_def inject_additional_signatures_def Let_def split: if_splits)
  show ?thesis
    unfolding n using finish_next_extends [OF assms(1) finish_next_of_signed(1) [OF sg]]
    by (intro mk_block_state_extends) simp
qed

text \<open>
  The databases that the operations can reach from a reset, when every block added is a block
  state that one of the constructors built on a block of the database, and \<open>advance_root\<close> is
  called as \<open>controller_impl::log_irreversible\<close> calls it, for a block on the branch of the head (in
  the irreversible mode the blocks of the branch are marked valid one by one before, and the head
  follows them); the call may return or throw. What a call off the branch of the head does is
  \<open>advance_root_leaves_orphans\<close> below. All other operations leave the database as it was when they
  throw.
\<close>

inductive fdb_reachable :: "crypto \<Rightarrow> protocol_feature_set \<Rightarrow> fork_database \<Rightarrow> bool" for C pfs where
  reach_reset: "num_from_id (bhs_id s) = block_num s \<Longrightarrow> fdb_reachable C pfs (fdb_reset s)"
| reach_received: "fdb_reachable C pfs db \<Longrightarrow> get_block_header db (previous (header n)) = Inr (Some prev) \<Longrightarrow>
    unat (block_num prev) < 2 ^ 32 - 1 \<Longrightarrow>
    block_state_of_block C (block_header_state.truncate prev) b pfs validator skip = Inr n \<Longrightarrow>
    fdb_add n ignore_duplicate db = Inr db' \<Longrightarrow> fdb_reachable C pfs db'"
| reach_produced: "fdb_reachable C pfs db \<Longrightarrow> get_block_header db (previous (header n)) = Inr (Some prev) \<Longrightarrow>
    unat (block_num prev) < 2 ^ 32 - 1 \<Longrightarrow> bhs_next C t c (block_header_state.truncate prev) = Inr cur \<Longrightarrow>
    block_state_of_pending C cur b trx_metas pfs validator signer = Inr n \<Longrightarrow>
    fdb_add n ignore_duplicate db = Inr db' \<Longrightarrow> fdb_reachable C pfs db'"
| reach_mark_valid: "fdb_reachable C pfs db \<Longrightarrow> mark_valid n db = Inr db' \<Longrightarrow> fdb_reachable C pfs db'"
| reach_remove: "fdb_reachable C pfs db \<Longrightarrow> fdb_remove i db = Some (Inr db') \<Longrightarrow> fdb_reachable C pfs db'"
| reach_advance: "fdb_reachable C pfs db \<Longrightarrow> fdb_head db = Some h \<Longrightarrow> descends (index db) i (bhs_id h) \<Longrightarrow>
    advance_root i db = Some (out, db') \<Longrightarrow> fdb_reachable C pfs db'"
| reach_rollback: "fdb_reachable C pfs db \<Longrightarrow> fdb_reachable C pfs (rollback_head_to_root db)"

lemma reachable_ok: "fdb_reachable C pfs db \<Longrightarrow> fdb_ok db"
proof (induction rule: fdb_reachable.induct)
  case (reach_received db n prev b validator skip ign db')
  then show ?case using fdb_add_ok received_extends by (metis block_prev_def)
next
  case (reach_produced db n prev t c cur b metas validator signer ign db')
  then show ?case using fdb_add_ok produced_extends by (metis block_prev_def)
next
  case (reach_advance db h i out db')
  show ?case
  proof (cases "\<exists>x. get_block db i = Some x \<and> is_valid x")
    case True
    then show ?thesis using reach_advance advance_root_ok by blast
  next
    case False
    then show ?thesis using reach_advance by (auto simp: advance_root_def split: option.splits)
  qed
qed (auto intro: fdb_reset_ok mark_valid_ok fdb_remove_ok rollback_ok)

section \<open>Properties\<close>

text \<open>
  C1. Whatever sequence of operations the fork database goes through, returning or throwing,
  starting from a reset, adding only block states built by the two constructors on blocks it
  holds and advancing the root only along the branch of the head, its ids are unique, every block
  but the root has its predecessor in the database at the number below, the head is the root or a
  validated block, and no validated block is preferred to the head.
\<close>

theorem fork_database_invariant:
  assumes "fdb_reachable C pfs db"
  shows "\<exists>r h. fdb_root db = Some r \<and> fdb_head db = Some h \<and> distinct (map bhs_id (r # index db))
    \<and> (\<forall>b \<in> set (index db). \<exists>p \<in> set (r # index db).
        bhs_id p = previous (header b) \<and> unat (block_num b) = Suc (unat (block_num p)))
    \<and> (h = r \<or> h \<in> set (index db) \<and> validated h)
    \<and> (\<forall>b \<in> set (index db). validated b \<longrightarrow> \<not> first_preferred b h)"
  using reachable_ok [OF assms] by (auto simp: fdb_ok_def tree_ok_def head_ok_def is_valid_def block_prev_def)

text \<open>
  C6. \<open>fetch_branch_from\<close> returns for any two blocks of a well-formed fork database: both branches
  lead down to the same block, and they have no block in common, so that block is the latest
  common ancestor of the two. (A branch is empty when one block is an ancestor of the other.)
\<close>

theorem fetch_branch_from_common_ancestor:
  assumes "fdb_ok db" and "get_block_header db i = Inr (Some x)" and "get_block_header db j = Inr (Some y)"
  shows "\<exists>as bs c. fetch_branch_from db i j = Some (Inr (as, bs)) \<and> set as \<union> set bs \<subseteq> set (index db)
    \<and> is_path i as c \<and> is_path j bs c \<and> (\<forall>a \<in> set as. \<forall>b \<in> set bs. bhs_id a \<noteq> bhs_id b)"
proof -
  obtain r where r: "fdb_root db = Some r" "tree_ok r (index db)" using assms(1) by (auto simp: fdb_ok_def)
  then have "root_or_block db r i = Some x" "root_or_block db r j = Some y"
    using assms(2,3) by (auto simp: get_block_header_def root_or_block_def)
  with r show ?thesis by (rule fetch_branch_from_result)
qed

text \<open>
  C7. \<open>advance_root\<close> to a validated block of the database succeeds exactly when the head is that
  block or descends from it; then the block becomes the root and the database keeps just its
  proper descendants, so every competing fork is dropped. Otherwise it throws, with the root and
  the head as they were, but the block itself is no longer in the database.
\<close>

theorem advance_root_exact:
  assumes "fdb_ok db" and "get_block db i = Some x" and "validated x" and "fdb_head db = Some h"
  shows "if descends (index db) i (bhs_id h)
    then advance_root i db = Some (Inr (), db\<lparr>index := filter (\<lambda>b. bhs_id b \<noteq> i \<and> descends (index db) i (bhs_id b)) (index db),
                                               fdb_root := Some x\<rparr>)
    else \<exists>idx. advance_root i db = Some (Inl fork_database_exception, db\<lparr>index := idx\<rparr>)
           \<and> set idx \<subseteq> set (index db) \<and> i \<notin> bhs_id ` set idx"
  using advance_root_result [OF assms(1,2) _ assms(4)] advance_root_throws [OF assms(1,2) _ assms(4)] assms(3)
  by (auto simp: is_valid_def)

text \<open>
  C40. \<open>advance_root\<close> is not atomic: called for a validated block off the branch of the head, it
  throws only after it has taken the block out of the index. Every block built on it stays
  behind without its predecessor, so the database is no longer the tree that all operations
  rely on.
\<close>

theorem advance_root_leaves_orphans:
  assumes "fdb_ok db" and "get_block db i = Some x" and "validated x" and "fdb_head db = Some h"
    and "\<not> descends (index db) i (bhs_id h)" and "b \<in> set (index db)" and "previous (header b) = i"
  shows "\<exists>db'. advance_root i db = Some (Inl fork_database_exception, db') \<and> b \<in> set (index db')
    \<and> get_block_header db' (previous (header b)) = Inr None \<and> \<not> fdb_ok db'"
proof -
  obtain r where r: "fdb_root db = Some r" "tree_ok r (index db)" using assms(1) by (auto simp: fdb_ok_def)
  have x: "x \<in> set (index db)" "bhs_id x = i" using get_block_Some [OF assms(2)] by simp_all
  obtain idx where idx: "advance_root i db = Some (Inl fork_database_exception, db\<lparr>index := idx\<rparr>)" "set idx \<subseteq> set (index db)"
      "i \<notin> bhs_id ` set idx" "\<forall>b \<in> set (index db). bhs_id b \<noteq> i \<and> descends (index db) i (bhs_id b) \<longrightarrow> b \<in> set idx"
    using advance_root_throws [OF assms(1,2) _ assms(4,5)] assms(3) by (auto simp: is_valid_def)
  have prev: "block_prev b = i" using assms(7) by (simp add: block_prev_def)
  then have "bhs_id b \<noteq> i" using not_descends_parent [OF r(2) assms(6)] by (auto intro: descends_refl)
  moreover have "descends (index db) i (bhs_id b)" using descends_step [OF assms(6), of i] prev by (simp add: descends_refl)
  ultimately have b: "b \<in> set idx" using idx(4) assms(6) by blast
  have "bhs_id r \<noteq> i" using r(2) x by (auto simp: tree_ok_def)
  then have gone: "get_block_header (db\<lparr>index := idx\<rparr>) i = Inr None"
    using r(1) idx(3) by (simp add: get_block_header_def get_block_None)
  have "\<not> fdb_ok (db\<lparr>index := idx\<rparr>)"
  proof
    assume "fdb_ok (db\<lparr>index := idx\<rparr>)"
    then have "tree_ok r idx" using r(1) by (auto simp: fdb_ok_def)
    then obtain p where "p \<in> set (r # idx)" "bhs_id p = block_prev b" using b by (rule tree_ok_parent)
    then show False using prev \<open>bhs_id r \<noteq> i\<close> idx(3) by auto
  qed
  then show ?thesis using idx(1) b gone assms(7) by (intro exI [of _ "db\<lparr>index := idx\<rparr>"]) simp
qed

text \<open>
  C30. \<open>remove\<close> removes exactly the block and everything that builds on it, and refuses to do so,
  changing nothing, when the head is among them.
\<close>

theorem fdb_remove_exact:
  assumes "fdb_ok db" and "fdb_head db = Some h"
  shows "fdb_remove i db =
    (if descends (index db) i (bhs_id h) then Some (Inl fork_database_exception)
     else Some (Inr (db\<lparr>index := filter (\<lambda>b. \<not> descends (index db) i (bhs_id b)) (index db)\<rparr>)))"
  using assms fdb_remove_result tree_ok_forest by (auto simp: fdb_ok_def)

text \<open>Following \<open>previous\<close> from a block leads down to the root.\<close>

lemma branch_loops:
  assumes "tree_ok r (index db)" "b \<in> set (index db)" "unat (block_num b) \<le> n + unat (block_num r)"
  shows "\<exists>bs. is_path (bhs_id b) bs (bhs_id r) \<and> set bs \<subseteq> set (index db)
    \<and> fetch_branch_loop db t n (Some b) = Some (filter (\<lambda>b. block_num b \<le> t) bs)
    \<and> search_on_branch_loop db k n (Some b) = Some (find (\<lambda>b. block_num b = k) bs)"
  using assms(2,3)
proof (induction n arbitrary: b)
  case 0
  then show ?case using tree_ok_above_root [OF assms(1)] by force
next
  case (Suc n)
  obtain p where p: "p \<in> set (r # index db)" "bhs_id p = block_prev b" "unat (block_num b) = Suc (unat (block_num p))"
    using tree_ok_parent [OF assms(1) Suc.prems(1)] .
  have ab: "previous (header b) = block_prev b" by (simp add: block_prev_def)
  show ?case
  proof (cases "p = r")
    case True
    then have "get_block db (block_prev b) = None" using p(2) assms(1) by (auto simp: get_block_None tree_ok_def)
    then show ?thesis using True p Suc.prems by (intro exI [of _ "[b]"]) (auto simp: ab)
  next
    case False
    then have pi: "p \<in> set (index db)" using p(1) by simp
    have "get_block db (block_prev b) = Some p" using get_block_eq [OF assms(1) pi] p(2) by simp
    moreover obtain bs where "is_path (bhs_id p) bs (bhs_id r)" "set bs \<subseteq> set (index db)"
        "fetch_branch_loop db t n (Some p) = Some (filter (\<lambda>b. block_num b \<le> t) bs)"
        "search_on_branch_loop db k n (Some p) = Some (find (\<lambda>b. block_num b = k) bs)"
      using Suc.IH [OF pi] Suc.prems(2) p(3) by auto
    ultimately show ?thesis using p Suc.prems by (intro exI [of _ "b # bs"]) (auto simp: ab)
  qed
qed

lemma branch_of_block:
  assumes "fdb_ok db" "get_block db h = Some b" "fdb_root db = Some r"
  shows "\<exists>bs. is_path h bs (bhs_id r) \<and> set bs \<subseteq> set (index db)
    \<and> fetch_branch db h t = Some (filter (\<lambda>b. block_num b \<le> t) bs)
    \<and> search_on_branch db h k = Some (find (\<lambda>b. block_num b = k) bs)"
proof -
  have t: "tree_ok r (index db)" using assms(1,3) by (auto simp: fdb_ok_def)
  have b: "b \<in> set (index db)" "bhs_id b = h" using get_block_Some [OF assms(2)] by simp_all
  have "unat (block_num b) \<le> loop_bound db + unat (block_num r)" using tree_ok_height_bound [OF t, of b] b(1) by simp
  from branch_loops [OF t b(1) this] show ?thesis using assms(2) b(2) by (simp add: fetch_branch_def search_on_branch_def)
qed

text \<open>
  C31. \<open>fetch_branch\<close> and \<open>search_on_branch\<close> follow one and the same branch, from the block asked for
  down to the root (exclusive): the first returns its blocks up to the given number, the second
  the block of the branch with the given number, if there is one.
\<close>

theorem fetch_branch_exact:
  assumes "fdb_ok db" and "get_block db h = Some b" and "fdb_root db = Some r"
  shows "\<exists>bs. is_path h bs (bhs_id r) \<and> set bs \<subseteq> set (index db)
    \<and> fetch_branch db h trim_after = Some (filter (\<lambda>b. block_num b \<le> trim_after) bs)
    \<and> search_on_branch db h num = Some (find (\<lambda>b. block_num b = num) bs)"
  using assms by (rule branch_of_block)

text \<open>
  The header file says that \<open>fetch_branch\<close> throws when the block does not exist; it returns an
  empty branch.
\<close>

lemma fetch_branch_missing: "get_block db h = None \<Longrightarrow> fetch_branch db h t = Some []"
  by (simp add: fetch_branch_def)

text \<open>
  C32. No loop of the fork database runs forever in a reachable database, whatever ids it is asked
  for: \<open>fetch_branch\<close>, \<open>search_on_branch\<close>, \<open>fetch_branch_from\<close>, \<open>remove\<close> and \<open>advance_root\<close> all return or
  throw.
\<close>

theorem fork_database_loops_end:
  assumes "fdb_reachable C pfs db"
  shows "fetch_branch db i t \<noteq> None \<and> search_on_branch db i k \<noteq> None \<and> fetch_branch_from db i j \<noteq> None
    \<and> fdb_remove i db \<noteq> None \<and> advance_root i db \<noteq> None"
proof -
  have ok: "fdb_ok db" using assms by (rule reachable_ok)
  then obtain r h where r: "fdb_root db = Some r" "fdb_head db = Some h" "tree_ok r (index db)" by (auto simp: fdb_ok_def)
  have "fetch_branch db i t \<noteq> None \<and> search_on_branch db i k \<noteq> None"
  proof (cases "get_block db i")
    case (Some b)
    then show ?thesis using branch_of_block [OF ok Some r(1)] by blast
  qed (simp add: fetch_branch_def search_on_branch_def)
  moreover have "fetch_branch_from db i j \<noteq> None"
  proof (cases "root_or_block db r i = None \<or> root_or_block db r j = None")
    case True
    then show ?thesis using r(1) by (auto simp: fetch_branch_from_def split: option.splits)
  next
    case False
    then show ?thesis using fetch_branch_from_result [OF r(1,3)] by force
  qed
  moreover have "fdb_remove i db \<noteq> None" using fdb_remove_result [OF tree_ok_forest [OF r(3)] r(2)] by simp
  moreover have "advance_root i db \<noteq> None"
  proof (cases "\<exists>x. get_block db i = Some x \<and> is_valid x")
    case True
    then obtain x where x: "get_block db i = Some x" "is_valid x" by blast
    show ?thesis
      using advance_root_result [OF ok x r(2)] advance_root_throws [OF ok x r(2)]
      by (cases "descends (index db) i (bhs_id h)") auto
  next
    case False
    then show ?thesis using r(1) by (auto simp: advance_root_def split: option.splits)
  qed
  ultimately show ?thesis by blast
qed

section \<open>Witnesses\<close>

text \<open>A root at number 1 with a validated branch of two blocks, the head, and a competing block.\<close>

definition example_id :: "u32 \<Rightarrow> u64 \<Rightarrow> block_id_type" where
  "example_id n k = sha256 (ucast (endian_reverse_u32 n)) k 0 0"

definition example_node :: "u32 \<Rightarrow> u64 \<Rightarrow> block_id_type \<Rightarrow> bool \<Rightarrow> block_state" where
  "example_node n k p v =
     mk_block_state (example_state\<lparr>block_num := n, bhs_id := example_id n k, header := example_header\<lparr>previous := p\<rparr>\<rparr>)
       None v False []"

definition example_root :: block_state where
  "example_root = example_node 1 0 zero_digest True"

definition example_fork_db :: fork_database where
  "example_fork_db =
     \<lparr>index = [example_node 2 0 (example_id 1 0) True, example_node 2 1 (example_id 1 0) False,
               example_node 3 0 (example_id 2 0) True],
      fdb_root = Some example_root, fdb_head = Some (example_node 3 0 (example_id 2 0) True)\<rparr>"

lemma num_from_example_id [simp]: "num_from_id (example_id n k) = n"
  by (simp add: num_from_id_def example_id_def ucast_down_ucast_id is_down)

lemma example_id_eq [simp]: "example_id n k = example_id m l \<longleftrightarrow> n = m \<and> k = l"
  by (metis num_from_example_id example_id_def sha256.inject)

lemma example_node_fields [simp]:
  "block_num (example_node n k p v) = n" "bhs_id (example_node n k p v) = example_id n k"
  "previous (header (example_node n k p v)) = p" "validated (example_node n k p v) = v"
  "dpos_irreversible_blocknum (example_node n k p v) = 4"
  by (simp_all add: example_node_def mk_block_state_def block_header_state.defs block_state.defs example_state_def)

lemma example_fork_db_ok: "fdb_ok example_fork_db"
  by (auto simp: fdb_ok_def tree_ok_def head_ok_def example_fork_db_def example_root_def is_valid_def
      block_prev_def first_preferred_def)

lemma example_fork_db_get:
  "get_block example_fork_db (example_id 2 0) = Some (example_node 2 0 (example_id 1 0) True)"
  "get_block example_fork_db (example_id 2 1) = Some (example_node 2 1 (example_id 1 0) False)"
  "get_block example_fork_db (example_id 3 0) = Some (example_node 3 0 (example_id 2 0) True)"
  "fdb_head example_fork_db = Some (example_node 3 0 (example_id 2 0) True)"
  "fdb_root example_fork_db = Some example_root"
  "get_block_header example_fork_db (example_id 2 1) = Inr (Some (example_node 2 1 (example_id 1 0) False))"
  "get_block_header example_fork_db (example_id 3 0) = Inr (Some (example_node 3 0 (example_id 2 0) True))"
  by (simp_all add: get_block_def get_block_header_def example_fork_db_def example_root_def)

lemma example_descends:
  "descends (index example_fork_db) (example_id 2 0) (example_id 3 0)"
  "\<not> descends (index example_fork_db) (example_id 2 1) (example_id 3 0)"
proof -
  let ?idx = "index example_fork_db"
  have "example_node 3 0 (example_id 2 0) True \<in> set ?idx" by (simp add: example_fork_db_def)
  from descends_step [OF this, of "example_id 2 0"] show "descends ?idx (example_id 2 0) (example_id 3 0)"
    by (simp add: block_prev_def descends_refl)
  have ids: "(bhs_id b, block_prev b) \<in> {(example_id 2 0, example_id 1 0), (example_id 2 1, example_id 1 0),
      (example_id 3 0, example_id 2 0)}" if "b \<in> set ?idx" for b
    using that by (auto simp: example_fork_db_def block_prev_def)
  have "\<not> descends ?idx (example_id 2 1) (example_id 1 0)"
    by (subst descends_iff) (auto dest!: ids)
  then have "\<not> descends ?idx (example_id 2 1) (example_id 2 0)"
    by (subst descends_iff) (auto dest!: ids)
  then show "\<not> descends ?idx (example_id 2 1) (example_id 3 0)"
    by (subst descends_iff) (auto dest!: ids)
qed

text \<open>The produced block of the other examples, added to a database that was reset to its predecessor, and validated.\<close>

lemma example_reachable:
  "\<exists>n. fdb_reachable example_crypto empty_protocol_feature_set
     \<lparr>index = [n], fdb_root = Some (mk_block_state example_state None True False []), fdb_head = Some n\<rparr>"
proof -
  let ?r = "mk_block_state example_state None True False []" and ?reach = "fdb_reachable example_crypto empty_protocol_feature_set"
  let ?db0 = "fdb_reset example_state"
  have r: "block_header_state.truncate ?r = example_state" "bhs_id ?r = example_prev" "block_num ?r = 9" "dpos_irreversible_blocknum ?r = 4"
    by (simp_all add: mk_block_state_def block_header_state.defs block_state.defs example_state_def)
  have num: "num_from_id example_prev = 9" by code_simp
  then have r0: "?reach ?db0" by (intro reach_reset) (simp add: example_state_def)
  obtain n where n: "block_state_of_pending example_crypto example_pending example_block [] empty_protocol_feature_set
     (\<lambda>_ _ _. Inr ()) (\<lambda>d. [SIG_K1 [2]]) = Inr n" "dpos_irreversible_blocknum n = 5" "\<not> validated n"
    using example_produced by blast
  have ext: "extends_block ?r n" using produced_extends [of example_crypto 11 0 ?r example_pending] example_next n(1) r(1) by simp
  then have nf: "previous (header n) = example_prev" "block_num n = 10" "num_from_id (bhs_id n) = 10"
    using r num by (simp_all add: extends_block_def block_prev_def)
  then have ids: "bhs_id n \<noteq> example_prev" using num by auto
  have add: "fdb_add n False ?db0 = Inr \<lparr>index = [n], fdb_root = Some ?r, fdb_head = Some ?r\<rparr>"
    using n(3) nf(1) r(2)
    by (simp add: fdb_add_def fdb_impl_add_def fdb_reset_def get_block_header_def get_block_def by_lib_block_num_def is_valid_def Let_def)
  have r1: "?reach \<lparr>index = [n], fdb_root = Some ?r, fdb_head = Some ?r\<rparr>"
  proof (rule reach_produced [OF r0 _ _ _ n(1) add])
    show "get_block_header ?db0 (previous (header n)) = Inr (Some ?r)"
      using nf(1) r(2) by (simp add: get_block_header_def fdb_reset_def Let_def)
    show "unat (block_num ?r) < 2 ^ 32 - 1" using r(3) by simp
    show "bhs_next example_crypto 11 0 (block_header_state.truncate ?r) = Inr example_pending" using example_next r(1) by simp
  qed
  let ?n = "n\<lparr>validated := True\<rparr>"
  have "first_preferred ?n ?r" using n(2) nf(2) r(3,4) by (simp add: first_preferred_def)
  then have "mark_valid n \<lparr>index = [n], fdb_root = Some ?r, fdb_head = Some ?r\<rparr> = Inr \<lparr>index = [?n], fdb_root = Some ?r, fdb_head = Some ?n\<rparr>"
    using n(3) ids r(2) by (simp add: mark_valid_def get_block_def by_lib_block_num_def Let_def)
  from reach_mark_valid [OF r1 this] show ?thesis by blast
qed

theorem fork_database_invariant_witness:
  "\<exists>db n r. fdb_reachable example_crypto empty_protocol_feature_set db \<and> index db = [n] \<and> fdb_root db = Some r \<and> fdb_head db = Some n
     \<and> bhs_id r = previous (header n) \<and> unat (block_num n) = Suc (unat (block_num r))"
proof -
  let ?r = "mk_block_state example_state None True False []"
  obtain n where n: "fdb_reachable example_crypto empty_protocol_feature_set \<lparr>index = [n], fdb_root = Some ?r, fdb_head = Some n\<rparr>"
    using example_reachable by blast
  have "bhs_id ?r = previous (header n) \<and> unat (block_num n) = Suc (unat (block_num ?r))"
    using fork_database_invariant [OF n] by auto
  then show ?thesis
    using n by (intro exI [of _ "\<lparr>index = [n], fdb_root = Some ?r, fdb_head = Some n\<rparr>"] exI [of _ n] exI [of _ ?r]) simp
qed

theorem fetch_branch_from_common_ancestor_witness:
  "\<exists>as bs c. fetch_branch_from example_fork_db (example_id 3 0) (example_id 2 1) = Some (Inr (as, bs))
     \<and> is_path (example_id 3 0) as c \<and> is_path (example_id 2 1) bs c"
  using fetch_branch_from_common_ancestor
    [OF example_fork_db_ok example_fork_db_get(7) example_fork_db_get(6)] by blast

theorem advance_root_exact_witness:
  "\<exists>db. advance_root (example_id 2 0) example_fork_db = Some (Inr (), db)"
  using advance_root_exact [OF example_fork_db_ok example_fork_db_get(1) _ example_fork_db_get(4)] example_descends(1)
  by simp

text \<open>Two validated blocks on the root, the first one the head, and a block on the second one.\<close>

definition example_sibling_db :: fork_database where
  "example_sibling_db =
     \<lparr>index = [example_node 2 0 (example_id 1 0) True, example_node 2 1 (example_id 1 0) True,
               example_node 3 1 (example_id 2 1) False],
      fdb_root = Some example_root, fdb_head = Some (example_node 2 0 (example_id 1 0) True)\<rparr>"

theorem advance_root_leaves_orphans_witness:
  "\<exists>db'. advance_root (example_id 2 1) example_sibling_db = Some (Inl fork_database_exception, db')
     \<and> example_node 3 1 (example_id 2 1) False \<in> set (index db') \<and> \<not> fdb_ok db'"
proof -
  let ?db = example_sibling_db and ?i = "example_id 2 1"
  have ok: "fdb_ok ?db"
    by (auto simp: fdb_ok_def tree_ok_def head_ok_def example_sibling_db_def example_root_def is_valid_def
        block_prev_def first_preferred_def)
  have get: "get_block ?db ?i = Some (example_node 2 1 (example_id 1 0) True)"
    "fdb_head ?db = Some (example_node 2 0 (example_id 1 0) True)" by (simp_all add: get_block_def example_sibling_db_def)
  have ids: "(bhs_id b, block_prev b) \<in> {(example_id 2 0, example_id 1 0), (example_id 2 1, example_id 1 0),
      (example_id 3 1, example_id 2 1)}" if "b \<in> set (index ?db)" for b
    using that by (auto simp: example_sibling_db_def block_prev_def)
  have "\<not> descends (index ?db) ?i (example_id 1 0)" by (subst descends_iff) (auto dest!: ids)
  then have "\<not> descends (index ?db) ?i (example_id 2 0)" by (subst descends_iff) (auto dest!: ids)
  then have nd: "\<not> descends (index ?db) ?i (bhs_id (example_node 2 0 (example_id 1 0) True))" by simp
  have b: "example_node 3 1 ?i False \<in> set (index ?db)" by (simp add: example_sibling_db_def)
  show ?thesis
    using advance_root_leaves_orphans [OF ok get(1) _ get(2) nd b] by auto
qed

theorem fdb_remove_exact_witness:
  "(\<exists>db. fdb_remove (example_id 2 1) example_fork_db = Some (Inr db))
   \<and> fdb_remove (example_id 2 0) example_fork_db = Some (Inl fork_database_exception)"
  using fdb_remove_exact [OF example_fork_db_ok example_fork_db_get(4)] example_descends by simp

theorem fetch_branch_exact_witness:
  "\<exists>bs. is_path (example_id 3 0) bs (bhs_id example_root)
     \<and> fetch_branch example_fork_db (example_id 3 0) 2 = Some (filter (\<lambda>b. block_num b \<le> 2) bs)"
  using fetch_branch_exact [OF example_fork_db_ok example_fork_db_get(3,5)] by blast

theorem fork_database_loops_end_witness:
  "\<exists>db n. index db = [n] \<and> fdb_head db = Some n \<and> fetch_branch db (bhs_id n) 10 \<noteq> None \<and> advance_root (bhs_id n) db \<noteq> None"
proof -
  obtain n where n: "fdb_reachable example_crypto empty_protocol_feature_set
      \<lparr>index = [n], fdb_root = Some (mk_block_state example_state None True False []), fdb_head = Some n\<rparr>" (is "fdb_reachable _ _ ?db")
    using example_reachable by blast
  show ?thesis using fork_database_loops_end [OF n] by (intro exI [of _ ?db] exI [of _ n]) simp
qed

end
