(* ===== verification/Authority_Checker.thy ===== *)
theory Authority_Checker
  imports Authority "HOL-Library.Multiset"
begin

text \<open>
  \<open>authority_checker.hpp\<close>: whether provided keys, permission levels and a delay satisfy an
  authority, which may refer to the authorities of other permission levels. The lookup of an
  authority (\<open>permission_to_authority\<close>) is a field of the checker, as in the class template. The
  state that an evaluation threads is the markers of the used keys and the cache of the levels
  evaluated so far.
\<close>

datatype permission_cache_status = being_evaluated | permission_unsatisfied | permission_satisfied

type_synonym permission_cache_type = "permission_level \<rightharpoonup> permission_cache_status"

record authority_checker =
  permission_to_authority :: "permission_level \<Rightarrow> authority res"
  provided_keys :: "public_key_type list"
  provided_permissions :: "permission_level set"
  used_key_marks :: "bool list"
  provided_delay :: i64
  recursion_depth_limit :: u16

definition make_auth_checker ::
  "(permission_level \<Rightarrow> authority res) \<Rightarrow> u16 \<Rightarrow> public_key_type list \<Rightarrow> permission_level set \<Rightarrow> i64 \<Rightarrow> authority_checker" where
  "make_auth_checker pta limit ks ps delay =
     \<lparr>permission_to_authority = pta, provided_keys = ks, provided_permissions = ps,
      used_key_marks = replicate (length ks) False, provided_delay = delay, recursion_depth_limit = limit\<rparr>"

section \<open>Evaluation\<close>

text \<open>The sorted map of weighted entries, whose visitors are called from the highest weight down.\<close>

datatype meta_permission =
    account_permission permission_level_weight
  | key_permission key_weight
  | wait_permission wait_weight

fun meta_weight :: "meta_permission \<Rightarrow> weight_type" where
  "meta_weight (account_permission a) = plw_weight a"
| "meta_weight (key_permission k) = kw_weight k"
| "meta_weight (wait_permission w) = ww_weight w"

fun meta_priority :: "meta_permission \<Rightarrow> int" where
  "meta_priority (account_permission a) = 1"
| "meta_priority (key_permission k) = 2"
| "meta_priority (wait_permission w) = 3"

definition meta_permissions :: "authority \<Rightarrow> meta_permission list" where
  "meta_permissions auth =
     sort_key (\<lambda>mp. (- uint (meta_weight mp), - meta_priority mp))
       (map account_permission (accounts auth) @ map key_permission (keys auth) @ map wait_permission (waits auth))"

definition permission_status_in_cache ::
  "permission_cache_type \<Rightarrow> permission_level \<Rightarrow> permission_cache_status option" where
  "permission_status_in_cache permissions level =
     (case permissions level of Some s \<Rightarrow> Some s | None \<Rightarrow> permissions \<lparr>actor = actor level, permission = 0\<rparr>)"

definition initialize_permission_cache :: "authority_checker \<Rightarrow> permission_cache_type" where
  "initialize_permission_cache ck = (\<lambda>p. if p \<in> provided_permissions ck then Some permission_satisfied else None)"

text \<open>\<open>boost::find\<close>: the position of a key.\<close>

fun key_position :: "'a list \<Rightarrow> 'a \<Rightarrow> nat option" where
  "key_position [] k = None"
| "key_position (x # xs) k = (if x = k then Some 0 else map_option Suc (key_position xs k))"

definition delay_elapsed :: "authority_checker \<Rightarrow> wait_weight \<Rightarrow> bool" where
  "delay_elapsed ck w \<longleftrightarrow> int (unat (wait_sec w)) * 1000000 \<le> sint (provided_delay ck)"

lemma depth_decreases:
  fixes d l :: u16
  shows "d < l \<Longrightarrow> unat l - unat (d + 1) < unat l - unat d"
  using unat_lt2p [of l] by (simp add: word_less_nat_alt unat_add_no_overflow)

type_synonym eval_state = "bool list \<times> permission_cache_type"

text \<open>
  The three mutually recursive operations: \<open>satisfied\<close> on an authority, its loop over the sorted
  entries with the visitor's \<open>total_weight\<close>, and the visitor itself. The recursion goes through
  authorities that a lookup returns, and ends because of the depth limit.
\<close>

function satisfied_authority :: "authority_checker \<Rightarrow> u16 \<Rightarrow> authority \<Rightarrow> eval_state \<Rightarrow> (bool \<times> eval_state) res"
  and tally_loop :: "authority_checker \<Rightarrow> u16 \<Rightarrow> u32 \<Rightarrow> meta_permission list \<Rightarrow> u32 \<Rightarrow> eval_state \<Rightarrow> (bool \<times> eval_state) res"
  and visit :: "authority_checker \<Rightarrow> u16 \<Rightarrow> meta_permission \<Rightarrow> u32 \<Rightarrow> eval_state \<Rightarrow> (u32 \<times> eval_state) res" where
  "satisfied_authority ck depth auth st =
     res_bind (tally_loop ck depth (threshold auth) (meta_permissions auth) 0 st) (\<lambda>(r, used, cache).
       Inr (r, if r then used else fst st, cache))"
| "tally_loop ck depth thr [] total_weight st = Inr (False, st)"
| "tally_loop ck depth thr (mp # mps) total_weight st =
     res_bind (visit ck depth mp total_weight st) (\<lambda>(total_weight', st').
       if thr \<le> total_weight' then Inr (True, st') else tally_loop ck depth thr mps total_weight' st')"
| "visit ck depth (wait_permission w) total_weight st =
     Inr (if delay_elapsed ck w then total_weight + ucast (ww_weight w) else total_weight, st)"
| "visit ck depth (key_permission k) total_weight st =
     (case key_position (provided_keys ck) (kw_key k) of
        None \<Rightarrow> Inr (total_weight, st)
      | Some i \<Rightarrow> Inr (total_weight + ucast (kw_weight k), (fst st)[i := True], snd st))"
| "visit ck depth (account_permission a) total_weight st =
     (case permission_status_in_cache (snd st) (plw_permission a) of
        Some s \<Rightarrow> Inr (if s = permission_satisfied then total_weight + ucast (plw_weight a) else total_weight, st)
      | None \<Rightarrow>
          if depth < recursion_depth_limit ck then
            (case permission_to_authority ck (plw_permission a) of
               Inl e \<Rightarrow> if e = permission_query_exception then Inr (total_weight, st) else Inl e
             | Inr auth \<Rightarrow>
                 res_bind (satisfied_authority ck (depth + 1) auth
                             (fst st, (snd st)(plw_permission a \<mapsto> being_evaluated))) (\<lambda>(r, used, cache).
                   Inr (if r then total_weight + ucast (plw_weight a) else total_weight, used,
                        cache(plw_permission a \<mapsto> (if r then permission_satisfied else permission_unsatisfied)))))
          else Inr (total_weight, st))"
  by pat_completeness auto
termination
  by (relation "measures
      [\<lambda>x. case x of Inl (ck, d, _) \<Rightarrow> unat (recursion_depth_limit ck) - unat d
          | Inr (Inl (ck, d, _)) \<Rightarrow> unat (recursion_depth_limit ck) - unat d
          | Inr (Inr (ck, d, _)) \<Rightarrow> unat (recursion_depth_limit ck) - unat d,
       \<lambda>x. case x of Inl (ck, d, auth, _) \<Rightarrow> 2 * length (meta_permissions auth) + 2
          | Inr (Inl (ck, d, thr, mps, _)) \<Rightarrow> 2 * length mps + 1
          | Inr (Inr _) \<Rightarrow> 0]") (auto simp: depth_decreases)

text \<open>The public overloads of \<open>satisfied\<close>; without a given cache each call starts from the provided permissions.\<close>

definition satisfied_permission :: "authority_checker \<Rightarrow> permission_level \<Rightarrow> (bool \<times> authority_checker) res" where
  "satisfied_permission ck p =
     res_bind (visit ck 0 (account_permission \<lparr>plw_permission = p, plw_weight = 1\<rparr>) 0
                 (used_key_marks ck, initialize_permission_cache ck)) (\<lambda>(total_weight, used, cache).
     Inr (0 < total_weight, ck\<lparr>used_key_marks := used\<rparr>))"

definition satisfied_permission_delay :: "authority_checker \<Rightarrow> permission_level \<Rightarrow> i64 \<Rightarrow> (bool \<times> authority_checker) res" where
  "satisfied_permission_delay ck p override_provided_delay =
     res_bind (satisfied_permission (ck\<lparr>provided_delay := override_provided_delay\<rparr>) p) (\<lambda>(r, ck').
     Inr (r, ck'\<lparr>provided_delay := provided_delay ck\<rparr>))"

definition satisfied :: "authority_checker \<Rightarrow> authority \<Rightarrow> (bool \<times> authority_checker) res" where
  "satisfied ck auth =
     res_bind (satisfied_authority ck 0 auth (used_key_marks ck, initialize_permission_cache ck)) (\<lambda>(r, used, cache).
     Inr (r, ck\<lparr>used_key_marks := used\<rparr>))"

definition satisfied_delay :: "authority_checker \<Rightarrow> authority \<Rightarrow> i64 \<Rightarrow> (bool \<times> authority_checker) res" where
  "satisfied_delay ck auth override_provided_delay =
     res_bind (satisfied (ck\<lparr>provided_delay := override_provided_delay\<rparr>) auth) (\<lambda>(r, ck').
     Inr (r, ck'\<lparr>provided_delay := provided_delay ck\<rparr>))"

definition all_keys_used :: "authority_checker \<Rightarrow> bool" where
  "all_keys_used ck \<longleftrightarrow> list_all id (used_key_marks ck)"

definition filter_data_by_marker :: "'a list \<Rightarrow> bool list \<Rightarrow> bool \<Rightarrow> 'a list" where
  "filter_data_by_marker xs markers m = map fst (filter (\<lambda>(x, b). b = m) (zip xs markers))"

definition used_keys :: "authority_checker \<Rightarrow> public_key_type list" where
  "used_keys ck = filter_data_by_marker (provided_keys ck) (used_key_marks ck) True"

definition unused_keys :: "authority_checker \<Rightarrow> public_key_type list" where
  "unused_keys ck = filter_data_by_marker (provided_keys ck) (used_key_marks ck) False"

declare satisfied_authority.simps [simp del]

section \<open>Reference definition\<close>

text \<open>
  The weight that an authority draws from the keys and the delay of a checker and from the levels
  of the set \<open>S\<close>, and the levels that are satisfied: the provided ones, every level of an actor all
  of whose levels are provided (the empty permission name), and those whose authority reaches its
  threshold by levels already satisfied.
\<close>

definition held_weight :: "authority_checker \<Rightarrow> permission_level set \<Rightarrow> authority \<Rightarrow> nat" where
  "held_weight ck S auth =
     weights plw_weight (filter (\<lambda>a. plw_permission a \<in> S) (accounts auth))
     + weights kw_weight (filter (\<lambda>k. kw_key k \<in> set (provided_keys ck)) (keys auth))
     + weights ww_weight (filter (delay_elapsed ck) (waits auth))"

inductive level_satisfied :: "authority_checker \<Rightarrow> permission_level \<Rightarrow> bool" for ck where
  level_provided: "p \<in> provided_permissions ck \<Longrightarrow> level_satisfied ck p"
| level_any: "level_satisfied ck \<lparr>actor = actor p, permission = 0\<rparr> \<Longrightarrow> level_satisfied ck p"
| level_authority: "permission_to_authority ck p = Inr auth \<Longrightarrow> (\<And>q. q \<in> S \<Longrightarrow> level_satisfied ck q) \<Longrightarrow>
    unat (threshold auth) \<le> held_weight ck S auth \<Longrightarrow> level_satisfied ck p"

definition authority_satisfied :: "authority_checker \<Rightarrow> authority \<Rightarrow> bool" where
  "authority_satisfied ck auth \<longleftrightarrow> unat (threshold auth) \<le> held_weight ck {p. level_satisfied ck p} auth"

lemma weights_filter_mono:
  "(\<And>x. x \<in> set xs \<Longrightarrow> P x \<Longrightarrow> Q x) \<Longrightarrow> weights w (filter P xs) \<le> weights w (filter Q xs)"
  by (induction xs) (auto intro: trans_le_add2)

lemma held_weight_mono: "S \<subseteq> T \<Longrightarrow> held_weight ck S auth \<le> held_weight ck T auth"
  unfolding held_weight_def using weights_filter_mono [of "accounts auth" "\<lambda>a. plw_permission a \<in> S" "\<lambda>a. plw_permission a \<in> T" plw_weight] by auto

lemma level_satisfied_lookup:
  "permission_to_authority ck p = Inr auth \<Longrightarrow> authority_satisfied ck auth \<Longrightarrow> level_satisfied ck p"
  unfolding authority_satisfied_def by (rule level_authority) auto

lemma level_satisfied_iff:
  "level_satisfied ck p \<longleftrightarrow> p \<in> provided_permissions ck
     \<or> permission p \<noteq> 0 \<and> level_satisfied ck \<lparr>actor = actor p, permission = 0\<rparr>
     \<or> (\<exists>auth. permission_to_authority ck p = Inr auth \<and> authority_satisfied ck auth)" (is "?l \<longleftrightarrow> ?r p")
proof
  assume ?l
  then show "?r p"
  proof (induction rule: level_satisfied.induct)
    case (level_any p)
    show ?case
    proof (cases "permission p = 0")
      case True
      then have "p = \<lparr>actor = actor p, permission = 0\<rparr>" by (simp add: permission_level.equality)
      then show ?thesis using level_any.IH by metis
    qed (use level_any in simp)
  next
    case (level_authority p auth S)
    then have "S \<subseteq> {q. level_satisfied ck q}" by blast
    from level_authority(3) held_weight_mono [OF this, of ck auth] have "authority_satisfied ck auth"
      unfolding authority_satisfied_def by (rule le_trans)
    then show ?case using level_authority(1) by blast
  qed simp
next
  assume "?r p"
  then show ?l
    by (elim disjE conjE exE) (erule level_provided | erule (1) level_satisfied_lookup | erule level_any)+
qed

text \<open>A longer delay satisfies no fewer levels, and the markers of used keys do not matter.\<close>

lemma level_satisfied_mono:
  assumes "level_satisfied ck p"
    and "permission_to_authority ck' = permission_to_authority ck" "provided_keys ck' = provided_keys ck"
    and "provided_permissions ck' = provided_permissions ck" "sint (provided_delay ck) \<le> sint (provided_delay ck')"
  shows "level_satisfied ck' p"
  using assms(1)
proof (induction rule: level_satisfied.induct)
  case (level_authority p auth S)
  have "weights ww_weight (filter (delay_elapsed ck) (waits auth)) \<le> weights ww_weight (filter (delay_elapsed ck') (waits auth))"
    using assms(5) by (intro weights_filter_mono) (simp add: delay_elapsed_def)
  then have "held_weight ck S auth \<le> held_weight ck' S auth" using assms(3) by (simp add: held_weight_def)
  then show ?case
    using level_authority assms(2) by (intro level_satisfied.level_authority [of ck' p auth S]) simp_all
qed (use assms(4) in \<open>auto intro: level_provided level_any\<close>)

text \<open>The same weight, summed over the entries in the order in which they are visited.\<close>

fun entry_held :: "authority_checker \<Rightarrow> meta_permission \<Rightarrow> bool" where
  "entry_held ck (account_permission a) \<longleftrightarrow> level_satisfied ck (plw_permission a)"
| "entry_held ck (key_permission k) \<longleftrightarrow> kw_key k \<in> set (provided_keys ck)"
| "entry_held ck (wait_permission w) \<longleftrightarrow> delay_elapsed ck w"

definition entries_weight :: "authority_checker \<Rightarrow> meta_permission list \<Rightarrow> nat" where
  "entries_weight ck mps = sum_list (map (\<lambda>mp. if entry_held ck mp then unat (meta_weight mp) else 0) mps)"

lemma entries_weight_simps [simp]:
  "entries_weight ck [] = 0"
  "entries_weight ck (mp # mps) = (if entry_held ck mp then unat (meta_weight mp) else 0) + entries_weight ck mps"
  by (simp_all add: entries_weight_def)

lemma sum_list_sort_key: "sum_list (map f (sort_key g xs)) = (sum_list (map f xs) :: nat)"
proof -
  have "mset (map f (sort_key g xs)) = mset (map f xs)" by simp
  then show ?thesis by (metis sum_mset_sum_list)
qed

lemma weights_filter: "weights w (filter P xs) = sum_list (map (\<lambda>x. if P x then unat (w x) else 0) xs)"
  by (induction xs) auto

lemma entries_weight_authority: "entries_weight ck (meta_permissions auth) = held_weight ck {p. level_satisfied ck p} auth"
  by (simp add: entries_weight_def meta_permissions_def sum_list_sort_key held_weight_def weights_filter comp_def cong: if_cong)

lemma key_position_None [simp]: "key_position xs k = None \<longleftrightarrow> k \<notin> set xs"
  by (induction xs) auto

section \<open>Soundness\<close>

definition cache_sound :: "authority_checker \<Rightarrow> permission_cache_type \<Rightarrow> bool" where
  "cache_sound ck c \<longleftrightarrow> (\<forall>p. c p = Some permission_satisfied \<longrightarrow> level_satisfied ck p)"

lemma cache_sound_status:
  "cache_sound ck c \<Longrightarrow> permission_status_in_cache c p = Some permission_satisfied \<Longrightarrow> level_satisfied ck p"
  unfolding cache_sound_def permission_status_in_cache_def by (auto split: option.splits intro: level_any)

lemma cache_sound_update:
  "cache_sound ck c \<Longrightarrow> (s = permission_satisfied \<Longrightarrow> level_satisfied ck p) \<Longrightarrow> cache_sound ck (c(p \<mapsto> s))"
  unfolding cache_sound_def by auto

lemma unat_add_weight_le: "unat (w + ucast (x :: weight_type) :: u32) \<le> unat w + unat x"
proof -
  have "unat (w + ucast x) \<le> unat w + unat (ucast x :: u32)" by (simp add: unat_word_ariths)
  then show ?thesis by (simp add: unat_ucast_up_simp)
qed

text \<open>A 32-bit sum that wraps can only be too small, so no bound on the weights is needed here.\<close>

lemma evaluation_sound:
  "satisfied_authority ck depth auth st = Inr (r, st') \<Longrightarrow> cache_sound ck (snd st) \<Longrightarrow>
     cache_sound ck (snd st') \<and> (r \<longrightarrow> authority_satisfied ck auth)"
  "tally_loop ck depth thr mps tw st = Inr (r, st') \<Longrightarrow> cache_sound ck (snd st) \<Longrightarrow>
     cache_sound ck (snd st') \<and> (r \<longrightarrow> unat thr \<le> unat tw + entries_weight ck mps)"
  "visit ck depth mp tw st = Inr (tw', st') \<Longrightarrow> cache_sound ck (snd st) \<Longrightarrow>
     cache_sound ck (snd st') \<and> unat tw' \<le> unat tw + (if entry_held ck mp then unat (meta_weight mp) else 0)"
proof (induction ck depth auth st and ck depth thr mps tw st and ck depth mp tw st
    arbitrary: r st' and r st' and tw' st' rule: satisfied_authority_tally_loop_visit.induct)
  case (1 ck depth auth st)
  from 1(2) obtain used c where loop: "tally_loop ck depth (threshold auth) (meta_permissions auth) 0 st = Inr (r, used, c)"
    and st': "snd st' = c" by (auto simp: satisfied_authority.simps)
  from 1(1) [OF loop 1(3)] st' show ?case by (simp add: entries_weight_authority authority_satisfied_def)
next
  case (3 ck depth thr mp mps tw st)
  from 3(3) obtain t u where v: "visit ck depth mp tw st = Inr (t, u)"
    and rest: "(if thr \<le> t then Inr (True, u) else tally_loop ck depth thr mps t u) = Inr (r, st')" by auto
  note step = 3(1) [OF v 3(4)]
  show ?case
  proof (cases "thr \<le> t")
    case True
    then show ?thesis using rest step by (auto simp: word_le_nat_alt)
  next
    case False
    then have tl: "tally_loop ck depth thr mps t u = Inr (r, st')" using rest by simp
    from 3(2) [OF v refl False tl] step show ?thesis by (cases "entry_held ck mp") auto
  qed
next
  case (4 ck depth w tw st)
  then show ?case using unat_add_weight_le [of tw "ww_weight w"] by auto
next
  case (5 ck depth k tw st)
  then show ?case
    using unat_add_weight_le [of tw "kw_weight k"] key_position_None [of "provided_keys ck" "kw_key k"]
    by (cases "key_position (provided_keys ck) (kw_key k)") auto
next
  case (6 ck depth a tw st)
  let ?p = "plw_permission a"
  show ?case
  proof (cases "permission_status_in_cache (snd st) ?p")
    case (Some s)
    then show ?thesis using 6(2,3) cache_sound_status [OF 6(3)] unat_add_weight_le [of tw "plw_weight a"] by auto
  next
    case None
    note status = None
    show ?thesis
    proof (cases "depth < recursion_depth_limit ck")
      case False
      then show ?thesis using status 6(2,3) by auto
    next
      case True
      show ?thesis
      proof (cases "permission_to_authority ck ?p")
        case (Inl e)
        then show ?thesis using status True 6(2,3) by (auto split: if_splits)
      next
        case (Inr auth)
        from 6(2) status True Inr obtain b used c where
          ev: "satisfied_authority ck (depth + 1) auth (fst st, (snd st)(?p \<mapsto> being_evaluated)) = Inr (b, used, c)"
          and t': "tw' = (if b then tw + ucast (plw_weight a) else tw)"
          and st': "st' = (used, c(?p \<mapsto> (if b then permission_satisfied else permission_unsatisfied)))"
          by auto
        have sound: "cache_sound ck c" "b \<longrightarrow> authority_satisfied ck auth"
          using 6(1) [OF status True Inr ev] cache_sound_update [OF 6(3), of being_evaluated ?p] by (simp_all add: fun_upd_def)
        then have "b \<longrightarrow> level_satisfied ck ?p" using level_satisfied_lookup [OF Inr] by simp
        then show ?thesis
          using t' st' sound cache_sound_update [of ck c _ ?p] unat_add_weight_le [of tw "plw_weight a"]
          by (auto simp: fun_upd_def)
      qed
    qed
  qed
qed auto

section \<open>Exactness\<close>

text \<open>
  The authorities that a lookup returns are valid, and the levels they refer to have a lower rank:
  there is no cycle. No permission has an empty name, and a lookup that fails does so because the
  permission does not exist.
\<close>

definition evaluable :: "authority_checker \<Rightarrow> permission_level \<Rightarrow> bool" where
  "evaluable ck p \<longleftrightarrow> permission p \<noteq> 0 \<and> (\<forall>e. permission_to_authority ck p = Inl e \<longrightarrow> e = permission_query_exception)"

definition well_nested :: "authority_checker \<Rightarrow> (permission_level \<Rightarrow> nat) \<Rightarrow> bool" where
  "well_nested ck rk \<longleftrightarrow> (\<forall>p auth. permission_to_authority ck p = Inr auth \<longrightarrow>
     permission p \<noteq> 0 \<and> validate_authority auth
     \<and> (\<forall>a \<in> set (accounts auth). rk (plw_permission a) < rk p \<and> evaluable ck (plw_permission a)))"

definition cache_exact :: "authority_checker \<Rightarrow> (permission_level \<Rightarrow> nat) \<Rightarrow> nat \<Rightarrow> permission_cache_type \<Rightarrow> bool" where
  "cache_exact ck rk N c \<longleftrightarrow> (\<forall>p \<in> provided_permissions ck. c p = Some permission_satisfied)
     \<and> (\<forall>p s. c p = Some s \<longrightarrow> (permission p = 0 \<longrightarrow> p \<in> provided_permissions ck)
          \<and> (s = being_evaluated \<longrightarrow> N \<le> rk p) \<and> (s = permission_satisfied \<longrightarrow> level_satisfied ck p)
          \<and> (s = permission_unsatisfied \<longrightarrow> \<not> level_satisfied ck p))"

definition evaluating :: "permission_cache_type \<Rightarrow> permission_level set" where
  "evaluating c = {p. c p = Some being_evaluated}"

lemma level_any_provided:
  assumes "well_nested ck rk"
  shows "level_satisfied ck \<lparr>actor = a, permission = 0\<rparr> \<longleftrightarrow> \<lparr>actor = a, permission = 0\<rparr> \<in> provided_permissions ck"
  using assms unfolding well_nested_def by (subst level_satisfied_iff) fastforce

lemma status_exact:
  assumes wn: "well_nested ck rk" and c: "cache_exact ck rk N c" and p: "rk p < N"
    and s: "permission_status_in_cache c p = Some s"
  shows "s = permission_satisfied \<longleftrightarrow> level_satisfied ck p"
proof (cases "c p")
  case None
  let ?q = "\<lparr>actor = actor p, permission = 0\<rparr>"
  from None s have q: "c ?q = Some s" by (simp add: permission_status_in_cache_def)
  then have "?q \<in> provided_permissions ck" using c unfolding cache_exact_def by fastforce
  moreover from this have "c ?q = Some permission_satisfied" using c unfolding cache_exact_def by blast
  ultimately show ?thesis using q level_any [OF level_provided, of p ck] by simp
next
  case (Some s')
  then have "c p = Some s" using s by (simp add: permission_status_in_cache_def)
  then show ?thesis using c p unfolding cache_exact_def by (cases s) fastforce+
qed

lemma status_none:
  assumes wn: "well_nested ck rk" and c: "cache_exact ck rk N c" and s: "permission_status_in_cache c p = None"
  shows "level_satisfied ck p \<longleftrightarrow> (\<exists>auth. permission_to_authority ck p = Inr auth \<and> authority_satisfied ck auth)"
proof -
  from s have "c p = None" "c \<lparr>actor = actor p, permission = 0\<rparr> = None"
    by (auto simp: permission_status_in_cache_def split: option.splits)
  then have "p \<notin> provided_permissions ck" "\<lparr>actor = actor p, permission = 0\<rparr> \<notin> provided_permissions ck"
    using c unfolding cache_exact_def by force+
  then show ?thesis using level_any_provided [OF wn] by (subst level_satisfied_iff) simp
qed

lemma cache_exact_evaluate:
  assumes "cache_exact ck rk N c" "rk p < N" "permission p \<noteq> 0" "c p = None"
  shows "cache_exact ck rk (rk p) (c(p \<mapsto> being_evaluated))"
    and "evaluating (c(p \<mapsto> being_evaluated)) = insert p (evaluating c)"
proof -
  have "rk p \<le> rk q" if "c q = Some being_evaluated" for q
    using that assms(1,2) unfolding cache_exact_def by (metis less_le_trans less_imp_le)
  moreover have "p \<notin> provided_permissions ck" using assms(1,4) unfolding cache_exact_def by fastforce
  ultimately show "cache_exact ck rk (rk p) (c(p \<mapsto> being_evaluated))"
    using assms(1,3) unfolding cache_exact_def by auto
  show "evaluating (c(p \<mapsto> being_evaluated)) = insert p (evaluating c)"
    by (auto simp: evaluating_def)
qed

lemma cache_exact_record:
  assumes "cache_exact ck rk (rk p) c'" and "evaluating c' = insert p (evaluating c)" and "cache_exact ck rk N c"
    and "c p = None" and "r = level_satisfied ck p" and "permission p \<noteq> 0" and "p \<notin> provided_permissions ck"
  shows "cache_exact ck rk N (c'(p \<mapsto> (if r then permission_satisfied else permission_unsatisfied)))"
    and "evaluating (c'(p \<mapsto> (if r then permission_satisfied else permission_unsatisfied))) = evaluating c"
proof -
  have N: "N \<le> rk q" if "q \<noteq> p" "c' q = Some being_evaluated" for q
  proof -
    from that assms(2) have "c q = Some being_evaluated" unfolding evaluating_def by blast
    then show ?thesis using assms(3) unfolding cache_exact_def by blast
  qed
  show "cache_exact ck rk N (c'(p \<mapsto> (if r then permission_satisfied else permission_unsatisfied)))"
    using assms(1,5-7) N unfolding cache_exact_def by auto
  have "p \<notin> evaluating c" using assms(4) by (simp add: evaluating_def)
  then show "evaluating (c'(p \<mapsto> (if r then permission_satisfied else permission_unsatisfied))) = evaluating c"
    using assms(2) unfolding evaluating_def by (auto simp: set_eq_iff)
qed

definition nested_entry :: "authority_checker \<Rightarrow> (permission_level \<Rightarrow> nat) \<Rightarrow> nat \<Rightarrow> u16 \<Rightarrow> meta_permission \<Rightarrow> bool" where
  "nested_entry ck rk N depth mp \<longleftrightarrow> (\<forall>a. mp = account_permission a \<longrightarrow> rk (plw_permission a) < N
     \<and> evaluable ck (plw_permission a) \<and> unat depth + rk (plw_permission a) < unat (recursion_depth_limit ck))"

lemma unat_add_weight:
  "unat w + unat (x :: weight_type) < 2 ^ 32 \<Longrightarrow> unat (w + ucast x :: u32) = unat w + unat x"
  by (simp add: unat_add_no_overflow unat_ucast_up_simp)

lemma valid_authority_weights:
  assumes "validate_authority auth"
  shows "threshold auth \<noteq> 0" "sum_list (map (\<lambda>mp. unat (meta_weight mp)) (meta_permissions auth)) < 2 ^ 32"
proof -
  show "threshold auth \<noteq> 0" using assms by (auto simp: validate_authority_def split: if_splits)
  have "length (keys auth) + length (accounts auth) + length (waits auth) \<le> 2 ^ 16"
    using assms by (simp add: validate_authority_def split: if_splits)
  then have n: "length (meta_permissions auth) \<le> 2 ^ 16" by (simp add: meta_permissions_def)
  have "sum_list (map (\<lambda>mp. unat (meta_weight mp)) (meta_permissions auth)) \<le> length (meta_permissions auth) * (2 ^ 16 - 1)"
    by (rule weights_bound)
  also have "\<dots> \<le> 2 ^ 16 * (2 ^ 16 - 1)" using n by simp
  finally show "sum_list (map (\<lambda>mp. unat (meta_weight mp)) (meta_permissions auth)) < 2 ^ 32" by simp
qed

lemma set_meta_permissions_accounts: "account_permission a \<in> set (meta_permissions auth) \<longleftrightarrow> a \<in> set (accounts auth)"
  by (auto simp: meta_permissions_def)

definition step_exact ::
  "authority_checker \<Rightarrow> (permission_level \<Rightarrow> nat) \<Rightarrow> nat \<Rightarrow> eval_state \<Rightarrow> ('a \<times> eval_state) res \<Rightarrow> ('a \<Rightarrow> bool) \<Rightarrow> bool" where
  "step_exact ck rk N st result Q \<longleftrightarrow> (\<exists>x st'. result = Inr (x, st') \<and> Q x \<and> cache_exact ck rk N (snd st')
     \<and> evaluating (snd st') = evaluating (snd st))"

lemma step_exactE:
  assumes "step_exact ck rk N st result Q"
  obtains x used c where "result = Inr (x, used, c)" "Q x" "cache_exact ck rk N c" "evaluating c = evaluating (snd st)"
  using assms unfolding step_exact_def by auto

lemma evaluation_exact:
  "well_nested ck rk \<Longrightarrow> validate_authority auth \<Longrightarrow> \<forall>mp \<in> set (meta_permissions auth). nested_entry ck rk N depth mp \<Longrightarrow>
     cache_exact ck rk N (snd st) \<Longrightarrow>
     step_exact ck rk N st (satisfied_authority ck depth auth st) (\<lambda>r. r = authority_satisfied ck auth)"
  "well_nested ck rk \<Longrightarrow> \<forall>mp \<in> set mps. nested_entry ck rk N depth mp \<Longrightarrow> cache_exact ck rk N (snd st) \<Longrightarrow>
     tw < thr \<Longrightarrow> unat tw + sum_list (map (\<lambda>mp. unat (meta_weight mp)) mps) < 2 ^ 32 \<Longrightarrow>
     step_exact ck rk N st (tally_loop ck depth thr mps tw st) (\<lambda>r. r \<longleftrightarrow> unat thr \<le> unat tw + entries_weight ck mps)"
  "well_nested ck rk \<Longrightarrow> nested_entry ck rk N depth mp \<Longrightarrow> cache_exact ck rk N (snd st) \<Longrightarrow>
     unat tw + unat (meta_weight mp) < 2 ^ 32 \<Longrightarrow>
     step_exact ck rk N st (visit ck depth mp tw st)
       (\<lambda>tw'. unat tw' = unat tw + (if entry_held ck mp then unat (meta_weight mp) else 0))"
proof (induction ck depth auth st and ck depth thr mps tw st and ck depth mp tw st
    arbitrary: N and N and N rule: satisfied_authority_tally_loop_visit.induct)
  case (1 ck depth auth st)
  have "0 < threshold auth" "unat (0 :: u32) + sum_list (map (\<lambda>mp. unat (meta_weight mp)) (meta_permissions auth)) < 2 ^ 32"
    using valid_authority_weights [OF 1(3)] by (simp_all add: word_neq_0_conv)
  from 1(1) [OF 1(2) 1(4) 1(5) this] show ?case
    by (elim step_exactE)
      (simp add: step_exact_def satisfied_authority.simps entries_weight_authority authority_satisfied_def)
next
  case (2 ck depth thr tw st)
  then show ?case by (auto simp: step_exact_def word_less_nat_alt)
next
  case (3 ck depth thr mp mps tw st)
  have "unat tw + unat (meta_weight mp) < 2 ^ 32" using 3(7) by simp
  then obtain t used c where v: "visit ck depth mp tw st = Inr (t, used, c)"
    and t: "unat t = unat tw + (if entry_held ck mp then unat (meta_weight mp) else 0)"
    and c: "cache_exact ck rk N c" "evaluating c = evaluating (snd st)"
    using 3(1) [OF 3(3) _ 3(5)] 3(4) by (auto elim: step_exactE)
  show ?case
  proof (cases "thr \<le> t")
    case True
    then show ?thesis using v t c by (auto simp: step_exact_def word_le_nat_alt)
  next
    case False
    have sum: "unat t + sum_list (map (\<lambda>mp. unat (meta_weight mp)) mps) < 2 ^ 32" using t 3(7) by simp
    have "step_exact ck rk N (used, c) (tally_loop ck depth thr mps t (used, c))
        (\<lambda>r. r \<longleftrightarrow> unat thr \<le> unat t + entries_weight ck mps)"
      using 3(2) [OF v refl False 3(3)] 3(4) c(1) False sum by simp
    then show ?thesis using v t c False by (simp add: step_exact_def add.assoc)
  qed
next
  case (4 ck depth w tw st)
  then show ?case using unat_add_weight [of tw "ww_weight w"] by (simp add: step_exact_def)
next
  case (5 ck depth k tw st)
  show ?case
  proof (cases "key_position (provided_keys ck) (kw_key k)")
    case None
    moreover from this have "kw_key k \<notin> set (provided_keys ck)" by simp
    ultimately show ?thesis using 5(3) by (simp add: step_exact_def del: key_position_None)
  next
    case (Some i)
    moreover from this have "kw_key k \<in> set (provided_keys ck)"
      using key_position_None [of "provided_keys ck" "kw_key k"] by simp
    ultimately show ?thesis using 5(3,4) unat_add_weight [of tw "kw_weight k"] by (simp add: step_exact_def)
  qed
next
  case (6 ck depth a tw st)
  let ?p = "plw_permission a"
  have p: "rk ?p < N" "evaluable ck ?p" "unat depth + rk ?p < unat (recursion_depth_limit ck)"
    using 6(3) by (simp_all add: nested_entry_def)
  have w: "unat (tw + ucast (plw_weight a)) = unat tw + unat (plw_weight a)" using 6(5) unat_add_weight by simp
  show ?case
  proof (cases "permission_status_in_cache (snd st) ?p")
    case (Some s)
    then show ?thesis using status_exact [OF 6(2) 6(4) p(1) Some] 6(4) w by (simp add: step_exact_def)
  next
    case None
    note level = status_none [OF 6(2) 6(4) None]
    have d: "depth < recursion_depth_limit ck" using p(3) by (simp add: word_less_nat_alt)
    have cp: "snd st ?p = None" using None by (simp add: permission_status_in_cache_def split: option.splits)
    have np: "permission ?p \<noteq> 0" using p(2) by (simp add: evaluable_def)
    show ?thesis
    proof (cases "permission_to_authority ck ?p")
      case (Inl e)
      then have "e = permission_query_exception" using p(2) by (simp add: evaluable_def)
      then show ?thesis using None Inl d level 6(4) by (simp add: step_exact_def)
    next
      case (Inr auth)
      let ?c = "(snd st)(?p \<mapsto> being_evaluated)"
      note c = cache_exact_evaluate [OF 6(4) p(1) np cp]
      have auth: "validate_authority auth" using 6(2) Inr unfolding well_nested_def by blast
      have "unat (depth + 1) = unat depth + 1"
        using d unat_lt2p [of "recursion_depth_limit ck"] by (simp add: word_less_nat_alt unat_add_no_overflow)
      then have nest: "\<forall>mp \<in> set (meta_permissions auth). nested_entry ck rk (rk ?p) (depth + 1) mp"
        using 6(2) Inr p(3) unfolding well_nested_def nested_entry_def
        by (fastforce simp: set_meta_permissions_accounts)
      have "step_exact ck rk (rk ?p) (fst st, ?c) (satisfied_authority ck (depth + 1) auth (fst st, ?c))
          (\<lambda>r. r = authority_satisfied ck auth)"
        using 6(1) [OF None d Inr 6(2) auth nest] c(1) by (simp add: fun_upd_def)
      then obtain r used c' where ev: "satisfied_authority ck (depth + 1) auth (fst st, ?c) = Inr (r, used, c')"
        "r = authority_satisfied ck auth" "cache_exact ck rk (rk ?p) c'" "evaluating c' = evaluating ?c"
        by (elim step_exactE) simp
      have "r = level_satisfied ck ?p" using level Inr ev(2) by simp
      moreover have "?p \<notin> provided_permissions ck" using 6(4) cp unfolding cache_exact_def by fastforce
      ultimately show ?thesis
        using cache_exact_record [OF ev(3) _ 6(4) cp _ np] ev(1,4) c(2) None d Inr w
        by (simp add: step_exact_def)
    qed
  qed
qed

lemma cache_exact_initial: "cache_exact ck rk N (initialize_permission_cache ck)"
  by (simp add: cache_exact_def initialize_permission_cache_def level_provided)

lemma cache_sound_initial: "cache_sound ck (initialize_permission_cache ck)"
  by (simp add: cache_sound_def initialize_permission_cache_def level_provided)

lemma satisfied_level:
  assumes "satisfied_permission ck p = Inr (True, ck')"
  shows "level_satisfied ck p"
proof -
  obtain tw used c where v: "visit ck 0 (account_permission \<lparr>plw_permission = p, plw_weight = 1\<rparr>) 0
      (used_key_marks ck, initialize_permission_cache ck) = Inr (tw, used, c)" and "0 < tw"
    using assms by (auto simp: satisfied_permission_def)
  then show ?thesis
    using evaluation_sound(3) [OF v] cache_sound_initial by (auto simp: word_less_nat_alt split: if_splits)
qed

section \<open>Properties\<close>

text \<open>
  C33. What the checker accepts is authorized: if \<open>satisfied\<close> says yes for a permission level, then the
  level is provided, or all levels of its actor are, or the exact weights of the provided keys,
  the elapsed delays and the levels satisfied in the same way reach the threshold of its
  authority. This holds for all authorities, cyclic ones, repeated entries and weights that
  overflow included, and whatever the depth limit is.
\<close>

theorem satisfied_permission_sound:
  assumes "satisfied_permission ck p = Inr (True, ck')"
  shows "p \<in> provided_permissions ck
    \<or> permission p \<noteq> 0 \<and> level_satisfied ck \<lparr>actor = actor p, permission = 0\<rparr>
    \<or> (\<exists>auth. permission_to_authority ck p = Inr auth
          \<and> unat (threshold auth) \<le> held_weight ck {q. level_satisfied ck q} auth)"
  using satisfied_level [OF assms] unfolding level_satisfied_iff [of ck p] authority_satisfied_def .

text \<open>
  C34. Where authorities are valid, refer to each other without cycles and the chain of references
  below the level is shorter than the depth limit, the checker returns without an exception and
  its answer is exactly whether the level is satisfied: neither the cache of evaluated levels nor
  the order of evaluation nor the early exit changes it.
\<close>

theorem satisfied_permission_exact:
  assumes "well_nested ck rk" and "evaluable ck p" and "rk p < unat (recursion_depth_limit ck)"
  shows "\<exists>used. satisfied_permission ck p = Inr (level_satisfied ck p, ck\<lparr>used_key_marks := used\<rparr>)"
proof -
  let ?mp = "account_permission \<lparr>plw_permission = p, plw_weight = 1\<rparr>"
  have "nested_entry ck rk (Suc (rk p)) 0 ?mp" using assms(2,3) by (simp add: nested_entry_def)
  from evaluation_exact(3) [OF assms(1) this, of "(used_key_marks ck, initialize_permission_cache ck)" 0] show ?thesis
    by (auto simp: cache_exact_initial satisfied_permission_def word_less_nat_alt elim!: step_exactE split: if_splits)
qed

section \<open>Witnesses\<close>

definition example_key :: "u8 \<Rightarrow> u16 \<Rightarrow> key_weight" where
  "example_key n w = \<lparr>kw_key = K1 [n], kw_weight = w\<rparr>"

definition example_level :: "u64 \<Rightarrow> permission_level" where
  "example_level a = \<lparr>actor = a, permission = 1\<rparr>"

definition example_account :: "u64 \<Rightarrow> permission_level_weight" where
  "example_account a = \<lparr>plw_permission = example_level a, plw_weight = 1\<rparr>"

text \<open>Account 1 needs one of the accounts 2 and 3; account 2 needs account 3 and key 2; account 3 needs key 1.\<close>

definition example_lookup :: "permission_level \<Rightarrow> authority res" where
  "example_lookup p =
     (if p = example_level 1 then Inr \<lparr>threshold = 1, keys = [], accounts = [example_account 2, example_account 3], waits = []\<rparr>
      else if p = example_level 2 then Inr \<lparr>threshold = 2, keys = [example_key 2 1], accounts = [example_account 3], waits = []\<rparr>
      else if p = example_level 3 then Inr \<lparr>threshold = 1, keys = [example_key 1 1], accounts = [], waits = []\<rparr>
      else Inl permission_query_exception)"

definition example_checker :: "public_key_type list \<Rightarrow> authority_checker" where
  "example_checker ks = make_auth_checker example_lookup 6 ks {} 0"

lemma example_level_simps [simp]:
  "example_level a = example_level b \<longleftrightarrow> a = b" "permission (example_level a) = 1" "actor (example_level a) = a"
  "\<lparr>actor = b, permission = 0\<rparr> \<noteq> example_level a" "\<not> (2 :: u32) \<le> 1"
  by (simp_all add: example_level_def word_le_nat_alt)

lemmas example_checker_defs = example_checker_def make_auth_checker_def example_lookup_def example_account_def example_key_def

lemma example_evaluation:
  "satisfied_permission (example_checker [K1 [1]]) (example_level 1) = Inr (True, example_checker [K1 [1]])"
  "satisfied_permission (example_checker []) (example_level 1) = Inr (False, example_checker [])"
  by (simp_all add: satisfied_permission_def example_checker_defs permission_status_in_cache_def
      initialize_permission_cache_def satisfied_authority.simps meta_permissions_def del: res_bind_eq_Inr cong: if_cong)

text \<open>
  C35. The keys reported as used can be too few. A permission level whose keys were marked while an
  authority was evaluated that failed in the end stays in the cache as satisfied, but its marks
  are taken back; a later entry that refers to the level is then counted without marking the keys
  again. In the example the only provided key is needed, since without it the same level is not
  satisfied, and all authorities are valid, but no key is reported as used: the transaction is
  refused for an irrelevant signature, and \<open>get_required_keys\<close> asks for no key at all.
\<close>

theorem used_keys_incomplete:
  "\<exists>pta p k ck. range pta \<subseteq> insert (Inl permission_query_exception) (Inr ` Collect validate_authority)
     \<and> satisfied_permission (make_auth_checker pta 6 [k] {} 0) p = Inr (True, ck)
     \<and> used_keys ck = [] \<and> \<not> all_keys_used ck
     \<and> (\<exists>ck'. satisfied_permission (make_auth_checker pta 6 [] {} 0) p = Inr (False, ck'))"
proof (intro exI conjI)
  show "range example_lookup \<subseteq> insert (Inl permission_query_exception) (Inr ` Collect validate_authority)"
    by (auto simp: example_lookup_def validate_authority_def example_key_def example_account_def permission_level_less_def)
qed (use example_evaluation in \<open>auto simp: example_checker_def make_auth_checker_def used_keys_def all_keys_used_def
    filter_data_by_marker_def\<close>)

theorem satisfied_permission_sound_witness:
  "\<exists>auth. example_lookup (example_level 1) = Inr auth
     \<and> unat (threshold auth) \<le> held_weight (example_checker [K1 [1]]) {q. level_satisfied (example_checker [K1 [1]]) q} auth"
proof -
  let ?ck = "example_checker [K1 [1]]"
  have "permission_to_authority ?ck p = Inr auth \<Longrightarrow> permission p \<noteq> 0" for p auth
    by (auto simp: example_checker_defs split: if_splits)
  then have "\<not> level_satisfied ?ck \<lparr>actor = 1, permission = 0\<rparr>"
    by (subst level_satisfied_iff) (fastforce simp: example_checker_def make_auth_checker_def)
  then show ?thesis
    using satisfied_permission_sound [OF example_evaluation(1)] by (simp add: example_checker_def make_auth_checker_def)
qed

theorem satisfied_permission_exact_witness:
  "\<exists>used. satisfied_permission (example_checker [K1 [1]]) (example_level 2)
     = Inr (level_satisfied (example_checker [K1 [1]]) (example_level 2), (example_checker [K1 [1]])\<lparr>used_key_marks := used\<rparr>)"
proof (rule satisfied_permission_exact)
  show "well_nested (example_checker [K1 [1]]) (\<lambda>p. 3 - unat (actor p))"
    by (auto simp: well_nested_def evaluable_def example_checker_defs validate_authority_def permission_level_less_def
        split: if_splits)
  show "evaluable (example_checker [K1 [1]]) (example_level 2)"
    by (simp add: evaluable_def example_checker_defs)
  show "3 - unat (actor (example_level 2)) < unat (recursion_depth_limit (example_checker [K1 [1]]))"
    by (simp add: example_checker_defs)
qed

end
