(* ===== verification/Contract_Types.thy ===== *)
theory Contract_Types
  imports Transaction Key_Codec Name_Type
begin

text \<open>
  The actions of the system contract (\<open>contract_types.hpp\<close>) with their binary form, and the names
  they are dispatched by. The binary form of authorities follows \<open>FC_REFLECT\<close> of
  \<open>authority.hpp\<close>.
\<close>

section \<open>Names\<close>

definition system_account_name :: account_name where
  "system_account_name = string_to_uint64_t ''inery''"

definition active_name :: permission_name where
  "active_name = string_to_uint64_t ''active''"

definition owner_name :: permission_name where
  "owner_name = string_to_uint64_t ''owner''"

definition inery_any_name :: permission_name where
  "inery_any_name = string_to_uint64_t ''inery.any''"

definition inery_code_name :: permission_name where
  "inery_code_name = string_to_uint64_t ''inery.code''"

definition newaccount_name :: action_name where
  "newaccount_name = string_to_uint64_t ''newaccount''"

definition setcode_name :: action_name where
  "setcode_name = string_to_uint64_t ''setcode''"

definition setabi_name :: action_name where
  "setabi_name = string_to_uint64_t ''setabi''"

definition updateauth_name :: action_name where
  "updateauth_name = string_to_uint64_t ''updateauth''"

definition deleteauth_name :: action_name where
  "deleteauth_name = string_to_uint64_t ''deleteauth''"

definition linkauth_name :: action_name where
  "linkauth_name = string_to_uint64_t ''linkauth''"

definition unlinkauth_name :: action_name where
  "unlinkauth_name = string_to_uint64_t ''unlinkauth''"

definition canceldelay_name :: action_name where
  "canceldelay_name = string_to_uint64_t ''canceldelay''"

definition onerror_name :: action_name where
  "onerror_name = string_to_uint64_t ''onerror''"

lemma name_values:
  "system_account_name = 0x74D57F0000000000"
  "active_name = 0x3232EDA800000000"
  "owner_name = 0xA726AB8000000000"
  "inery_any_name = 0x74D57F00D3F00000"
  "inery_code_name = 0x74D57F01144A8000"
  "newaccount_name = 0x9AB864229A9E4000"
  "setcode_name = 0xC2B28A2540000000"
  "setabi_name = 0xC2B263B800000000"
  "updateauth_name = 0xD5526CA8DACB4000"
  "deleteauth_name = 0x4AA2ACA8DACB4000"
  "linkauth_name = 0x8BA7036B2D000000"
  "unlinkauth_name = 0xD4E2E9C0DACB4000"
  "canceldelay_name = 0x41A685452A89BC00"
  "onerror_name = 0xA4D57BD2E0000000"
  by (simp_all only: system_account_name_def active_name_def owner_name_def inery_any_name_def inery_code_name_def newaccount_name_def setcode_name_def setabi_name_def updateauth_name_def deleteauth_name_def linkauth_name_def unlinkauth_name_def canceldelay_name_def onerror_name_def) code_simp+

section \<open>Authorities\<close>

definition pack_level_weight :: "permission_level_weight packer" where
  "pack_level_weight = pack_as (\<lambda>a. (plw_permission a, plw_weight a)) (pack_pair pack_permission_level pack_scalar)"

definition unpack_level_weight :: "permission_level_weight unpacker" where
  "unpack_level_weight =
     unpack_as (\<lambda>(p, w). \<lparr>plw_permission = p, plw_weight = w\<rparr>) (unpack_pair unpack_permission_level unpack_scalar)"

definition pack_wait_weight :: "wait_weight packer" where
  "pack_wait_weight = pack_as (\<lambda>a. (wait_sec a, ww_weight a)) (pack_pair pack_scalar pack_scalar)"

definition unpack_wait_weight :: "wait_weight unpacker" where
  "unpack_wait_weight = unpack_as (\<lambda>(s, w). \<lparr>wait_sec = s, ww_weight = w\<rparr>) (unpack_pair unpack_scalar unpack_scalar)"

definition pack_authority :: "authority packer" where
  "pack_authority = pack_as (\<lambda>a. (threshold a, keys a, accounts a, waits a))
     (pack_pair pack_scalar (pack_pair (pack_vector pack_key_weight)
       (pack_pair (pack_vector pack_level_weight) (pack_vector pack_wait_weight))))"

definition unpack_authority :: "authority unpacker" where
  "unpack_authority = unpack_as (\<lambda>(t, k, a, w). \<lparr>threshold = t, keys = k, accounts = a, waits = w\<rparr>)
     (unpack_pair unpack_scalar (unpack_pair (unpack_vector unpack_key_weight)
       (unpack_pair (unpack_vector unpack_level_weight) (unpack_vector unpack_wait_weight))))"

section \<open>Actions\<close>

record newaccount =
  na_creator :: account_name
  na_name :: account_name
  na_owner :: authority
  na_active :: authority

record setcode =
  sc_account :: account_name
  sc_vmtype :: u8
  sc_vmversion :: u8
  sc_code :: bytes

record setabi =
  sa_account :: account_name
  sa_abi :: bytes

record updateauth =
  ua_account :: account_name
  ua_permission :: permission_name
  ua_parent :: permission_name
  ua_auth :: authority

record deleteauth =
  da_account :: account_name
  da_permission :: permission_name

record linkauth =
  la_account :: account_name
  la_code :: account_name
  la_type :: action_name
  la_requirement :: permission_name

record unlinkauth =
  ul_account :: account_name
  ul_code :: account_name
  ul_type :: action_name

record canceldelay =
  canceling_auth :: permission_level
  cd_trx_id :: transaction_id_type

definition pack_newaccount :: "newaccount packer" where
  "pack_newaccount = pack_as (\<lambda>x. (na_creator x, na_name x, na_owner x, na_active x))
     (pack_pair pack_scalar (pack_pair pack_scalar (pack_pair pack_authority pack_authority)))"

definition unpack_newaccount :: "newaccount unpacker" where
  "unpack_newaccount = unpack_as (\<lambda>(c, n, ow, ac). \<lparr>na_creator = c, na_name = n, na_owner = ow, na_active = ac\<rparr>)
     (unpack_pair unpack_scalar (unpack_pair unpack_scalar (unpack_pair unpack_authority unpack_authority)))"

definition pack_setcode :: "setcode packer" where
  "pack_setcode = pack_as (\<lambda>x. (sc_account x, sc_vmtype x, sc_vmversion x, sc_code x))
     (pack_pair pack_scalar (pack_pair pack_scalar (pack_pair pack_scalar pack_bytes)))"

definition unpack_setcode :: "setcode unpacker" where
  "unpack_setcode = unpack_as (\<lambda>(a, t, v, c). \<lparr>sc_account = a, sc_vmtype = t, sc_vmversion = v, sc_code = c\<rparr>)
     (unpack_pair unpack_scalar (unpack_pair unpack_scalar (unpack_pair unpack_scalar unpack_bytes)))"

definition pack_setabi :: "setabi packer" where
  "pack_setabi = pack_as (\<lambda>x. (sa_account x, sa_abi x)) (pack_pair pack_scalar pack_bytes)"

definition unpack_setabi :: "setabi unpacker" where
  "unpack_setabi = unpack_as (\<lambda>(a, b). \<lparr>sa_account = a, sa_abi = b\<rparr>) (unpack_pair unpack_scalar unpack_bytes)"

definition pack_updateauth :: "updateauth packer" where
  "pack_updateauth = pack_as (\<lambda>x. (ua_account x, ua_permission x, ua_parent x, ua_auth x))
     (pack_pair pack_scalar (pack_pair pack_scalar (pack_pair pack_scalar pack_authority)))"

definition unpack_updateauth :: "updateauth unpacker" where
  "unpack_updateauth =
     unpack_as (\<lambda>(a, p, q, au). \<lparr>ua_account = a, ua_permission = p, ua_parent = q, ua_auth = au\<rparr>)
       (unpack_pair unpack_scalar (unpack_pair unpack_scalar (unpack_pair unpack_scalar unpack_authority)))"

definition pack_deleteauth :: "deleteauth packer" where
  "pack_deleteauth = pack_as (\<lambda>x. (da_account x, da_permission x)) (pack_pair pack_scalar pack_scalar)"

definition unpack_deleteauth :: "deleteauth unpacker" where
  "unpack_deleteauth = unpack_as (\<lambda>(a, p). \<lparr>da_account = a, da_permission = p\<rparr>) (unpack_pair unpack_scalar unpack_scalar)"

definition pack_linkauth :: "linkauth packer" where
  "pack_linkauth = pack_as (\<lambda>x. (la_account x, la_code x, la_type x, la_requirement x))
     (pack_pair pack_scalar (pack_pair pack_scalar (pack_pair pack_scalar pack_scalar)))"

definition unpack_linkauth :: "linkauth unpacker" where
  "unpack_linkauth = unpack_as (\<lambda>(a, c, t, r). \<lparr>la_account = a, la_code = c, la_type = t, la_requirement = r\<rparr>)
     (unpack_pair unpack_scalar (unpack_pair unpack_scalar (unpack_pair unpack_scalar unpack_scalar)))"

definition pack_unlinkauth :: "unlinkauth packer" where
  "pack_unlinkauth = pack_as (\<lambda>x. (ul_account x, ul_code x, ul_type x))
     (pack_pair pack_scalar (pack_pair pack_scalar pack_scalar))"

definition unpack_unlinkauth :: "unlinkauth unpacker" where
  "unpack_unlinkauth = unpack_as (\<lambda>(a, c, t). \<lparr>ul_account = a, ul_code = c, ul_type = t\<rparr>)
     (unpack_pair unpack_scalar (unpack_pair unpack_scalar unpack_scalar))"

definition pack_canceldelay :: "canceldelay packer" where
  "pack_canceldelay = pack_as (\<lambda>x. (canceling_auth x, cd_trx_id x)) (pack_pair pack_permission_level pack_sha256)"

definition unpack_canceldelay :: "canceldelay unpacker" where
  "unpack_canceldelay =
     unpack_as (\<lambda>(a, t). \<lparr>canceling_auth = a, cd_trx_id = t\<rparr>) (unpack_pair unpack_permission_level unpack_sha256)"

text \<open>The constructor of an action from a typed value.\<close>

definition action_of :: "account_name \<Rightarrow> action_name \<Rightarrow> 'a packer \<Rightarrow> permission_level list \<Rightarrow> 'a \<Rightarrow> action res" where
  "action_of get_account get_name p auth value =
     res_bind (p value) (\<lambda>d. Inr \<lparr>act_account = get_account, act_name = get_name, authorization = auth, act_data = d\<rparr>)"

section \<open>The codecs meet the contract\<close>

definition authority_keys_ok :: "authority \<Rightarrow> bool" where
  "authority_keys_ok a \<longleftrightarrow> list_all (\<lambda>k. public_key_ok (kw_key k)) (keys a)"

lemma level_weight_codec: "raw_codec pack_level_weight unpack_level_weight (\<lambda>_. True)"
  unfolding pack_level_weight_def unpack_level_weight_def
  by (rule reflected_codec, (rule raw_codecs permission_level_codec)+) auto

lemma wait_weight_codec: "raw_codec pack_wait_weight unpack_wait_weight (\<lambda>_. True)"
  unfolding pack_wait_weight_def unpack_wait_weight_def
  by (rule reflected_codec, (rule raw_codecs)+) auto

interpretation raw_authority: raw_codec pack_authority unpack_authority authority_keys_ok
  unfolding pack_authority_def unpack_authority_def
  by (rule reflected_codec, (rule raw_codecs key_weight_codec level_weight_codec wait_weight_codec)+)
    (auto simp: list_all_iff authority_keys_ok_def)

interpretation raw_newaccount: raw_codec pack_newaccount unpack_newaccount
  "\<lambda>x. authority_keys_ok (na_owner x) \<and> authority_keys_ok (na_active x)"
  unfolding pack_newaccount_def unpack_newaccount_def
  by (rule reflected_codec, (rule raw_codecs raw_authority.raw_codec_axioms)+) auto

interpretation raw_setcode: raw_codec pack_setcode unpack_setcode "\<lambda>_. True"
  unfolding pack_setcode_def unpack_setcode_def by (rule reflected_codec, (rule raw_codecs)+) auto

interpretation raw_setabi: raw_codec pack_setabi unpack_setabi "\<lambda>_. True"
  unfolding pack_setabi_def unpack_setabi_def by (rule reflected_codec, (rule raw_codecs)+) auto

interpretation raw_updateauth: raw_codec pack_updateauth unpack_updateauth "\<lambda>x. authority_keys_ok (ua_auth x)"
  unfolding pack_updateauth_def unpack_updateauth_def
  by (rule reflected_codec, (rule raw_codecs raw_authority.raw_codec_axioms)+) auto

interpretation raw_deleteauth: raw_codec pack_deleteauth unpack_deleteauth "\<lambda>_. True"
  unfolding pack_deleteauth_def unpack_deleteauth_def by (rule reflected_codec, (rule raw_codecs)+) auto

interpretation raw_linkauth: raw_codec pack_linkauth unpack_linkauth "\<lambda>_. True"
  unfolding pack_linkauth_def unpack_linkauth_def by (rule reflected_codec, (rule raw_codecs)+) auto

interpretation raw_unlinkauth: raw_codec pack_unlinkauth unpack_unlinkauth "\<lambda>_. True"
  unfolding pack_unlinkauth_def unpack_unlinkauth_def by (rule reflected_codec, (rule raw_codecs)+) auto

interpretation raw_canceldelay: raw_codec pack_canceldelay unpack_canceldelay "\<lambda>_. True"
  unfolding pack_canceldelay_def unpack_canceldelay_def
  by (rule reflected_codec, (rule raw_codecs permission_level_codec raw_sha256.raw_codec_axioms)+) auto

text \<open>A typed action is read back by \<open>data_as\<close> of the same type.\<close>

lemma data_as_action_of:
  assumes "raw_codec p u v" and "v x" and "action_of acc n p auth x = Inr a"
  shows "data_as acc n u a = Inr x \<and> authorization a = auth"
proof -
  obtain d where d: "p x = Inr d" "a = \<lparr>act_account = acc, act_name = n, authorization = auth, act_data = d\<rparr>"
    using assms(3) by (auto simp: action_of_def)
  then show ?thesis
    using raw_codec.unpack_all_pack [OF assms(1,2) d(1)] by (simp add: data_as_def)
qed

end
