(* ===== verification/Authorization_Manager.thy ===== *)
theory Authorization_Manager
  imports Contract_Types Authority_Checker Protocol_Features
begin

text \<open>
  \<open>authorization_manager.cpp\<close> and its tables (\<open>permission_object.hpp\<close>, \<open>permission_link_object.hpp\<close>,
  \<open>generated_transaction_object.hpp\<close>): the permissions of an account as a tree, links from actions
  to the permission they require, and the check that the declared authorizations of a transaction
  are sufficient and satisfied.

  A table is the list of its rows in the order of their ids with the next id to be given. What the
  manager asks of the controller (block time, configuration, active protocol features) is the
  record \<open>auth_env\<close>. \<open>checktime\<close>, which throws when the deadline is reached, is a function of the
  number of the call.
\<close>

section \<open>Tables\<close>

record permission_usage_object =
  pu_id :: nat
  last_used :: i64

record permission_object =
  po_id :: nat
  usage_id :: nat
  parent :: nat
  owner :: account_name
  po_name :: permission_name
  last_updated :: i64
  po_auth :: authority

record permission_link_object =
  pl_id :: nat
  pl_account :: account_name
  pl_code :: account_name
  message_type :: action_name
  required_permission :: permission_name

record generated_transaction_object =
  gto_trx_id :: transaction_id_type
  gto_sender :: account_name
  gto_sender_id :: u128
  gto_payer :: account_name
  gto_delay_until :: i64
  gto_expiration :: i64
  gto_published :: i64
  gto_packed_trx :: bytes

record authorization_db =
  permissions :: "permission_object list"
  permission_next_id :: nat
  permission_usages :: "permission_usage_object list"
  usage_next_id :: nat
  permission_links :: "permission_link_object list"
  link_next_id :: nat
  generated_transactions :: "generated_transaction_object list"

record auth_env =
  num_supported_key_types :: nat
  pending_block_time :: i64
  max_transaction_delay :: u32
  max_authority_depth :: u16
  builtin_activated :: "builtin_protocol_feature_t \<Rightarrow> bool"

text \<open>\<open>public_key::which\<close>.\<close>

fun pk_which :: "public_key_type \<Rightarrow> nat" where
  "pk_which (K1 d) = 0"
| "pk_which (R1 d) = 1"
| "pk_which (WA d p r) = 2"

definition find_permission_id :: "permission_object list \<Rightarrow> nat \<Rightarrow> permission_object option" where
  "find_permission_id ps i = find (\<lambda>p. po_id p = i) ps"

definition find_by_owner :: "permission_object list \<Rightarrow> account_name \<Rightarrow> permission_name \<Rightarrow> permission_object option" where
  "find_by_owner ps a n = find (\<lambda>p. owner p = a \<and> po_name p = n) ps"

text \<open>
  The walk of \<open>satisfies\<close> up the tree. A parent that is not in the table is a dereferenced end
  iterator; a loop that does not end is undefined, and more rounds than there are permissions
  visit one of them twice.
\<close>

fun satisfies_loop :: "permission_object list \<Rightarrow> nat \<Rightarrow> nat \<Rightarrow> nat \<Rightarrow> bool res" where
  "satisfies_loop ps i 0 pid = Inl undefined_behaviour"
| "satisfies_loop ps i (Suc n) pid =
     (case find_permission_id ps pid of None \<Rightarrow> Inl undefined_behaviour
      | Some p \<Rightarrow> if i = parent p then Inr True
                 else if parent p = 0 then Inr False
                 else satisfies_loop ps i n (parent p))"

definition satisfies :: "permission_object list \<Rightarrow> permission_object \<Rightarrow> permission_object \<Rightarrow> bool res" where
  "satisfies ps self other =
     (if owner self \<noteq> owner other then Inr False
      else if po_id self = po_id other \<or> po_id self = parent other then Inr True
      else satisfies_loop ps (po_id self) (Suc (length ps)) (parent other))"

section \<open>Permissions\<close>

definition initialize_authorization_database :: "authorization_db \<Rightarrow> authorization_db" where
  "initialize_authorization_database db =
     db\<lparr>permissions := permissions db @
          [\<lparr>po_id = permission_next_id db, usage_id = 0, parent = 0, owner = 0, po_name = 0, last_updated = 0,
            po_auth = \<lparr>threshold = 0, keys = [], accounts = [], waits = []\<rparr>\<rparr>],
        permission_next_id := Suc (permission_next_id db)\<rparr>"

definition key_types_supported :: "auth_env \<Rightarrow> authority \<Rightarrow> bool" where
  "key_types_supported env auth \<longleftrightarrow> list_all (\<lambda>k. pk_which (kw_key k) < num_supported_key_types env) (keys auth)"

definition create_permission ::
  "auth_env \<Rightarrow> account_name \<Rightarrow> permission_name \<Rightarrow> nat \<Rightarrow> authority \<Rightarrow> i64 \<Rightarrow> authorization_db
   \<Rightarrow> (permission_object \<times> authorization_db) res" where
  "create_permission env account name parent_id auth initial_creation_time db =
     INE_ASSERT (key_types_supported env auth) unactivated_key_type
     (let creation_time = (if initial_creation_time = 0 then pending_block_time env else initial_creation_time);
          usage = \<lparr>pu_id = usage_next_id db, last_used = creation_time\<rparr>;
          perm = \<lparr>po_id = permission_next_id db, usage_id = pu_id usage, parent = parent_id, owner = account,
                  po_name = name, last_updated = creation_time, po_auth = auth\<rparr>
      in INE_ASSERT (find_by_owner (permissions db) account name = None) std_logic_error
         (Inr (perm, db\<lparr>permissions := permissions db @ [perm], permission_next_id := Suc (permission_next_id db),
                        permission_usages := permission_usages db @ [usage], usage_next_id := Suc (usage_next_id db)\<rparr>)))"

definition modify_permission :: "auth_env \<Rightarrow> permission_object \<Rightarrow> authority \<Rightarrow> authorization_db \<Rightarrow> authorization_db res" where
  "modify_permission env perm auth db =
     INE_ASSERT (key_types_supported env auth) unactivated_key_type
     (Inr (db\<lparr>permissions := map (\<lambda>p. if po_id p = po_id perm
        then p\<lparr>po_auth := auth, last_updated := pending_block_time env\<rparr> else p) (permissions db)\<rparr>))"

definition get_usage :: "permission_usage_object list \<Rightarrow> nat \<Rightarrow> permission_usage_object res" where
  "get_usage us i = (case find (\<lambda>u. pu_id u = i) us of None \<Rightarrow> Inl std_out_of_range | Some u \<Rightarrow> Inr u)"

definition remove_permission :: "permission_object \<Rightarrow> authorization_db \<Rightarrow> authorization_db res" where
  "remove_permission perm db =
     INE_ASSERT (\<not> list_ex (\<lambda>p. parent p = po_id perm) (permissions db)) action_validate_exception
     (res_bind (get_usage (permission_usages db) (usage_id perm)) (\<lambda>_.
      Inr (db\<lparr>permission_usages := filter (\<lambda>u. pu_id u \<noteq> usage_id perm) (permission_usages db),
              permissions := filter (\<lambda>p. po_id p \<noteq> po_id perm) (permissions db)\<rparr>)))"

definition update_permission_usage :: "auth_env \<Rightarrow> permission_object \<Rightarrow> authorization_db \<Rightarrow> authorization_db res" where
  "update_permission_usage env perm db =
     res_bind (get_usage (permission_usages db) (usage_id perm)) (\<lambda>puo.
     Inr (db\<lparr>permission_usages := map (\<lambda>u. if pu_id u = pu_id puo then u\<lparr>last_used := pending_block_time env\<rparr> else u)
        (permission_usages db)\<rparr>))"

definition get_permission_last_used :: "permission_object \<Rightarrow> authorization_db \<Rightarrow> i64 res" where
  "get_permission_last_used perm db =
     res_bind (get_usage (permission_usages db) (usage_id perm)) (\<lambda>u. Inr (last_used u))"

definition find_permission :: "authorization_db \<Rightarrow> permission_level \<Rightarrow> permission_object option res" where
  "find_permission db level =
     rethrow_as permission_query_exception
       (INE_ASSERT (actor level \<noteq> 0 \<and> permission level \<noteq> 0) invalid_permission
         (Inr (find_by_owner (permissions db) (actor level) (permission level))))"

definition get_permission :: "authorization_db \<Rightarrow> permission_level \<Rightarrow> permission_object res" where
  "get_permission db level =
     rethrow_as permission_query_exception
       (INE_ASSERT (actor level \<noteq> 0 \<and> permission level \<noteq> 0) invalid_permission
         (case find_by_owner (permissions db) (actor level) (permission level) of
            None \<Rightarrow> Inl std_out_of_range
          | Some p \<Rightarrow> Inr p))"

section \<open>Links\<close>

definition find_link ::
  "permission_link_object list \<Rightarrow> account_name \<Rightarrow> account_name \<Rightarrow> action_name \<Rightarrow> permission_link_object option" where
  "find_link ls a c t = find (\<lambda>l. pl_account l = a \<and> pl_code l = c \<and> message_type l = t) ls"

definition lookup_linked_permission ::
  "authorization_db \<Rightarrow> account_name \<Rightarrow> account_name \<Rightarrow> action_name \<Rightarrow> permission_name option" where
  "lookup_linked_permission db authorizer_account scope act_type =
     (case find_link (permission_links db) authorizer_account scope act_type of
        Some link \<Rightarrow> Some (required_permission link)
      | None \<Rightarrow> map_option required_permission (find_link (permission_links db) authorizer_account scope 0))"

definition native_auth_actions :: "action_name set" where
  "native_auth_actions = {updateauth_name, deleteauth_name, linkauth_name, unlinkauth_name, canceldelay_name}"

definition lookup_minimum_permission ::
  "authorization_db \<Rightarrow> account_name \<Rightarrow> account_name \<Rightarrow> action_name \<Rightarrow> permission_name option res" where
  "lookup_minimum_permission db authorizer_account scope act_type =
     INE_ASSERT (scope = system_account_name \<longrightarrow> act_type \<notin> native_auth_actions) unlinkable_min_permission_action
     (case lookup_linked_permission db authorizer_account scope act_type of
        None \<Rightarrow> Inr (Some active_name)
      | Some p \<Rightarrow> Inr (if p = inery_any_name then None else Some p))"

section \<open>Native actions\<close>

text \<open>The common end of these checks: the declared permission must satisfy the minimum one.\<close>

definition assert_satisfies :: "authorization_db \<Rightarrow> permission_level \<Rightarrow> permission_object \<Rightarrow> unit res" where
  "assert_satisfies db auth min_permission =
     res_bind (get_permission db auth) (\<lambda>p.
     res_bind (satisfies (permissions db) p min_permission) (\<lambda>r.
     INE_ASSERT r irrelevant_auth_exception (Inr ())))"

definition check_updateauth_authorization :: "authorization_db \<Rightarrow> updateauth \<Rightarrow> permission_level list \<Rightarrow> unit res" where
  "check_updateauth_authorization db update auths =
     INE_ASSERT (length auths = 1) irrelevant_auth_exception
     (let auth = hd auths in
      INE_ASSERT (actor auth = ua_account update) irrelevant_auth_exception
      (res_bind (find_permission db \<lparr>actor = ua_account update, permission = ua_permission update\<rparr>) (\<lambda>found.
       res_bind (case found of Some p \<Rightarrow> Inr p
                 | None \<Rightarrow> get_permission db \<lparr>actor = ua_account update, permission = ua_parent update\<rparr>) (\<lambda>min_permission.
       assert_satisfies db auth min_permission))))"

definition check_deleteauth_authorization :: "authorization_db \<Rightarrow> deleteauth \<Rightarrow> permission_level list \<Rightarrow> unit res" where
  "check_deleteauth_authorization db del auths =
     INE_ASSERT (length auths = 1) irrelevant_auth_exception
     (let auth = hd auths in
      INE_ASSERT (actor auth = da_account del) irrelevant_auth_exception
      (res_bind (get_permission db \<lparr>actor = da_account del, permission = da_permission del\<rparr>) (\<lambda>min_permission.
       assert_satisfies db auth min_permission)))"

definition check_linkauth_authorization :: "auth_env \<Rightarrow> authorization_db \<Rightarrow> linkauth \<Rightarrow> permission_level list \<Rightarrow> unit res" where
  "check_linkauth_authorization env db link auths =
     INE_ASSERT (length auths = 1) irrelevant_auth_exception
     (let auth = hd auths in
      INE_ASSERT (actor auth = la_account link) irrelevant_auth_exception
      (INE_ASSERT (la_code link = system_account_name \<or> \<not> builtin_activated env fix_linkauth_restriction
                   \<longrightarrow> la_type link \<notin> native_auth_actions) action_validate_exception
      (res_bind (lookup_minimum_permission db (la_account link) (la_code link) (la_type link)) (\<lambda>linked.
       case linked of None \<Rightarrow> Inr ()
       | Some n \<Rightarrow>
       res_bind (get_permission db auth) (\<lambda>p.
       res_bind (get_permission db \<lparr>actor = la_account link, permission = n\<rparr>) (\<lambda>min_permission.
       res_bind (satisfies (permissions db) p min_permission) (\<lambda>r.
       INE_ASSERT r irrelevant_auth_exception (Inr ()))))))))"

definition check_unlinkauth_authorization :: "authorization_db \<Rightarrow> unlinkauth \<Rightarrow> permission_level list \<Rightarrow> unit res" where
  "check_unlinkauth_authorization db unlink auths =
     INE_ASSERT (length auths = 1) irrelevant_auth_exception
     (let auth = hd auths in
      INE_ASSERT (actor auth = ul_account unlink) irrelevant_auth_exception
      (case lookup_linked_permission db (ul_account unlink) (ul_code unlink) (ul_type unlink) of
         None \<Rightarrow> Inl transaction_exception
       | Some n \<Rightarrow>
         if n = inery_any_name then Inr ()
         else
           res_bind (get_permission db auth) (\<lambda>p.
           res_bind (get_permission db \<lparr>actor = ul_account unlink, permission = n\<rparr>) (\<lambda>min_permission.
           res_bind (satisfies (permissions db) p min_permission) (\<lambda>r.
           INE_ASSERT r irrelevant_auth_exception (Inr ()))))))"

definition check_canceldelay_authorization :: "authorization_db \<Rightarrow> canceldelay \<Rightarrow> permission_level list \<Rightarrow> i64 res" where
  "check_canceldelay_authorization db cancel auths =
     INE_ASSERT (length auths = 1) irrelevant_auth_exception
     (res_bind (get_permission db (hd auths)) (\<lambda>p.
      res_bind (get_permission db (canceling_auth cancel)) (\<lambda>min_permission.
      res_bind (satisfies (permissions db) p min_permission) (\<lambda>r.
      INE_ASSERT r irrelevant_auth_exception
      (case find (\<lambda>g. gto_trx_id g = cd_trx_id cancel) (generated_transactions db) of
         None \<Rightarrow> Inl tx_not_found
       | Some g \<Rightarrow>
         INE_ASSERT (gto_sender g = 0) tx_not_found
         (res_bind (unpack_all unpack_transaction (gto_packed_trx g)) (\<lambda>trx.
          INE_ASSERT (list_ex (\<lambda>act. canceling_auth cancel \<in> set (authorization act)) (actions trx))
            action_validate_exception
          (Inr (gto_delay_until g - gto_published g)))))))))"

section \<open>Authorization of a transaction\<close>

text \<open>\<open>permissions_to_satisfy\<close>: a map sorted by actor and permission, with the least delay declared.\<close>

type_synonym delay_map = "(account_name \<times> permission_name, i64) flat_map"

definition require_permission :: "permission_level \<Rightarrow> i64 \<Rightarrow> delay_map \<Rightarrow> delay_map" where
  "require_permission auth delay m =
     (case map_of m (actor auth, permission auth) of
        None \<Rightarrow> flat_map_set (actor auth, permission auth) delay m
      | Some d \<Rightarrow> if sint delay < sint d then flat_map_set (actor auth, permission auth) delay m else m)"

text \<open>The checks of an action to the system account: whether it was a native one, and its delay.\<close>

definition check_native_action :: "auth_env \<Rightarrow> authorization_db \<Rightarrow> i64 \<Rightarrow> action \<Rightarrow> (bool \<times> i64) res" where
  "check_native_action env db delay act =
     (if act_account act \<noteq> system_account_name then Inr (False, delay)
      else if act_name act = updateauth_name then
        res_bind (data_as system_account_name updateauth_name unpack_updateauth act) (\<lambda>x.
        res_bind (check_updateauth_authorization db x (authorization act)) (\<lambda>_. Inr (True, delay)))
      else if act_name act = deleteauth_name then
        res_bind (data_as system_account_name deleteauth_name unpack_deleteauth act) (\<lambda>x.
        res_bind (check_deleteauth_authorization db x (authorization act)) (\<lambda>_. Inr (True, delay)))
      else if act_name act = linkauth_name then
        res_bind (data_as system_account_name linkauth_name unpack_linkauth act) (\<lambda>x.
        res_bind (check_linkauth_authorization env db x (authorization act)) (\<lambda>_. Inr (True, delay)))
      else if act_name act = unlinkauth_name then
        res_bind (data_as system_account_name unlinkauth_name unpack_unlinkauth act) (\<lambda>x.
        res_bind (check_unlinkauth_authorization db x (authorization act)) (\<lambda>_. Inr (True, delay)))
      else if act_name act = canceldelay_name then
        res_bind (data_as system_account_name canceldelay_name unpack_canceldelay act) (\<lambda>x.
        res_bind (check_canceldelay_authorization db x (authorization act)) (\<lambda>d.
        Inr (True, if sint delay < sint d then d else delay)))
      else Inr (False, delay))"

text \<open>One declared authorization; the state is the number of calls of \<open>checktime\<close> and the map.\<close>

definition check_declared_auth ::
  "authorization_db \<Rightarrow> (nat \<Rightarrow> unit res) \<Rightarrow> permission_level set \<Rightarrow> action \<Rightarrow> bool \<Rightarrow> i64
   \<Rightarrow> permission_level \<Rightarrow> nat \<times> delay_map \<Rightarrow> (nat \<times> delay_map) res" where
  "check_declared_auth db checktime satisfied_authorizations act special_case delay declared_auth st =
     res_bind (checktime (fst st)) (\<lambda>_.
     res_bind (if special_case then Inr ()
        else res_bind (lookup_minimum_permission db (actor declared_auth) (act_account act) (act_name act)) (\<lambda>min_name.
          case min_name of None \<Rightarrow> Inr ()
          | Some n \<Rightarrow>
              res_bind (get_permission db \<lparr>actor = actor declared_auth, permission = n\<rparr>) (\<lambda>min_permission.
              assert_satisfies db declared_auth min_permission))) (\<lambda>_.
     Inr (Suc (fst st),
          if declared_auth \<in> satisfied_authorizations then snd st else require_permission declared_auth delay (snd st))))"

definition check_action ::
  "auth_env \<Rightarrow> authorization_db \<Rightarrow> (nat \<Rightarrow> unit res) \<Rightarrow> permission_level set \<Rightarrow> i64 \<Rightarrow> action
   \<Rightarrow> nat \<times> delay_map \<Rightarrow> (nat \<times> delay_map) res" where
  "check_action env db checktime satisfied_authorizations effective_delay act st =
     res_bind (check_native_action env db effective_delay act) (\<lambda>(special_case, delay).
     res_fold (check_declared_auth db checktime satisfied_authorizations act special_case delay) (authorization act) st)"

definition check_satisfied ::
  "(nat \<Rightarrow> unit res) \<Rightarrow> (account_name \<times> permission_name) \<times> i64 \<Rightarrow> nat \<times> authority_checker \<Rightarrow> (nat \<times> authority_checker) res" where
  "check_satisfied checktime p st =
     res_bind (checktime (fst st)) (\<lambda>_.
     res_bind (satisfied_permission_delay (snd st) \<lparr>actor = fst (fst p), permission = snd (fst p)\<rparr> (snd p)) (\<lambda>(r, ck).
     INE_ASSERT r unsatisfied_authorization (Inr (Suc (fst st), ck))))"

definition effective_delay :: "auth_env \<Rightarrow> i64 \<Rightarrow> i64" where
  "effective_delay env delay =
     (if int (unat (max_transaction_delay env)) * 1000000 \<le> sint delay then 0x7fffffffffffffff else delay)"

definition lookup_authority :: "authorization_db \<Rightarrow> permission_level \<Rightarrow> authority res" where
  "lookup_authority db p = res_bind (get_permission db p) (\<lambda>perm. Inr (po_auth perm))"

definition check_authorization ::
  "auth_env \<Rightarrow> authorization_db \<Rightarrow> action list \<Rightarrow> public_key_type list \<Rightarrow> permission_level set \<Rightarrow> i64
   \<Rightarrow> (nat \<Rightarrow> unit res) \<Rightarrow> bool \<Rightarrow> permission_level set \<Rightarrow> unit res" where
  "check_authorization env db acts ks perms delay checktime allow_unused_keys satisfied_authorizations =
     (let eff = effective_delay env delay;
          checker = make_auth_checker (lookup_authority db) (max_authority_depth env) ks perms eff
      in res_bind (res_fold (check_action env db checktime satisfied_authorizations eff) acts (0, [])) (\<lambda>(n, to_satisfy).
         res_bind (res_fold (check_satisfied checktime) to_satisfy (n, checker)) (\<lambda>(n', checker').
         INE_ASSERT (allow_unused_keys \<or> all_keys_used checker') tx_irrelevant_sig (Inr ()))))"

definition check_permission_authorization ::
  "auth_env \<Rightarrow> authorization_db \<Rightarrow> account_name \<Rightarrow> permission_name \<Rightarrow> public_key_type list \<Rightarrow> permission_level set \<Rightarrow> i64
   \<Rightarrow> bool \<Rightarrow> unit res" where
  "check_permission_authorization env db account perm ks perms delay allow_unused_keys =
     res_bind (satisfied_permission (make_auth_checker (lookup_authority db) (max_authority_depth env) ks perms
         (effective_delay env delay)) \<lparr>actor = account, permission = perm\<rparr>) (\<lambda>(r, checker).
     INE_ASSERT r unsatisfied_authorization
     (INE_ASSERT (allow_unused_keys \<or> all_keys_used checker) tx_irrelevant_sig (Inr ())))"

definition get_required_keys ::
  "auth_env \<Rightarrow> authorization_db \<Rightarrow> action list \<Rightarrow> public_key_type list \<Rightarrow> i64 \<Rightarrow> public_key_type list res" where
  "get_required_keys env db acts candidate_keys delay =
     res_bind (res_fold (\<lambda>auth ck. res_bind (satisfied_permission ck auth) (\<lambda>(r, ck').
         INE_ASSERT r unsatisfied_authorization (Inr ck')))
       (concat (map authorization acts))
       (make_auth_checker (lookup_authority db) (max_authority_depth env) candidate_keys {} delay)) (\<lambda>ck.
     Inr (used_keys ck))"

section \<open>The permission tree\<close>

text \<open>
  The invariant of the tables: row ids are distinct and below the next id, owner and name identify
  a permission, id 0 is the reserved row, every other permission has a name and an owner and a
  parent that is either absent (0) or an older permission of the same owner.
\<close>

definition permission_row_ok :: "permission_object list \<Rightarrow> permission_object \<Rightarrow> bool" where
  "permission_row_ok ps p \<longleftrightarrow>
     (if po_id p = 0 then owner p = 0 \<and> po_name p = 0 \<and> parent p = 0
      else owner p \<noteq> 0 \<and> po_name p \<noteq> 0
        \<and> (parent p \<noteq> 0 \<longrightarrow> parent p < po_id p \<and> (\<exists>q \<in> set ps. po_id q = parent p \<and> owner q = owner p)))"

definition permissions_ok :: "authorization_db \<Rightarrow> bool" where
  "permissions_ok db \<longleftrightarrow> distinct (map po_id (permissions db))
     \<and> distinct (map (\<lambda>p. (owner p, po_name p)) (permissions db))
     \<and> (\<exists>p \<in> set (permissions db). po_id p = 0)
     \<and> (\<forall>p \<in> set (permissions db). po_id p < permission_next_id db \<and> permission_row_ok (permissions db) p)"

text \<open>\<open>above ps i p\<close>: the permission \<open>p\<close> has the id \<open>i\<close> or descends from the permission with this id.\<close>

inductive above :: "permission_object list \<Rightarrow> nat \<Rightarrow> permission_object \<Rightarrow> bool" for ps i where
  above_self: "po_id p = i \<Longrightarrow> above ps i p"
| above_parent: "q \<in> set ps \<Longrightarrow> po_id q = parent p \<Longrightarrow> parent p \<noteq> 0 \<Longrightarrow> above ps i q \<Longrightarrow> above ps i p"

inductive_cases aboveE: "above ps i p"

lemma find_permission_id_eq:
  assumes "distinct (map po_id ps)" and "p \<in> set ps"
  shows "find_permission_id ps (po_id p) = Some p"
proof (cases "find_permission_id ps (po_id p)")
  case None
  then show ?thesis using assms(2) by (auto simp: find_permission_id_def find_None_iff)
next
  case (Some q)
  then have "q \<in> set ps" "po_id q = po_id p" by (auto simp: find_permission_id_def find_Some_iff)
  then show ?thesis using Some assms by (auto simp: distinct_map dest: inj_onD)
qed

lemma find_by_owner_Some: "find_by_owner ps a n = Some p \<Longrightarrow> p \<in> set ps \<and> owner p = a \<and> po_name p = n"
  by (auto simp: find_by_owner_def find_Some_iff)

lemma get_permission_Inr:
  "get_permission db l = Inr p \<longleftrightarrow> actor l \<noteq> 0 \<and> permission l \<noteq> 0
     \<and> find_by_owner (permissions db) (actor l) (permission l) = Some p"
  by (auto simp: get_permission_def rethrow_as_def split: option.splits)

lemma permissions_ok_row:
  "permissions_ok db \<Longrightarrow> p \<in> set (permissions db) \<Longrightarrow> permission_row_ok (permissions db) p"
  by (simp add: permissions_ok_def)

lemma permissions_ok_unique:
  "permissions_ok db \<Longrightarrow> p \<in> set (permissions db) \<Longrightarrow> q \<in> set (permissions db) \<Longrightarrow> po_id p = po_id q \<Longrightarrow> p = q"
  unfolding permissions_ok_def distinct_map by (blast dest: inj_onD)

lemma get_permission_mem:
  assumes "permissions_ok db" "get_permission db l = Inr p"
  shows "p \<in> set (permissions db)" "owner p = actor l" "po_name p = permission l" "po_id p \<noteq> 0"
proof -
  show p: "p \<in> set (permissions db)" "owner p = actor l" "po_name p = permission l"
    using assms(2) find_by_owner_Some [of "permissions db" "actor l" "permission l" p] by (simp_all add: get_permission_Inr)
  then show "po_id p \<noteq> 0"
    using permissions_ok_row [OF assms(1) p(1)] assms(2)
    by (auto simp: permission_row_ok_def get_permission_Inr split: if_splits)
qed

text \<open>How many rows are as old as \<open>q\<close>: it falls along the parents, so it bounds the rounds of the walk.\<close>

definition age_rank :: "permission_object list \<Rightarrow> permission_object \<Rightarrow> nat" where
  "age_rank ps q = card {r \<in> set ps. po_id r \<le> po_id q}"

lemma age_rank_less: "p \<in> set ps \<Longrightarrow> q \<in> set ps \<Longrightarrow> po_id p < po_id q \<Longrightarrow> age_rank ps p < age_rank ps q"
  unfolding age_rank_def by (rule psubset_card_mono, simp, rule psubsetI, force) (metis (no_types, lifting) mem_Collect_eq leD order_refl)

lemma age_rank_le: "age_rank ps q \<le> length ps"
proof -
  have "age_rank ps q \<le> card (set ps)" unfolding age_rank_def by (rule card_mono) auto
  also have "\<dots> \<le> length ps" by (rule card_length)
  finally show ?thesis .
qed

lemma satisfies_loop_result:
  assumes "permissions_ok db" and "i \<noteq> 0" and "q \<in> set (permissions db)" and "po_id q \<noteq> 0"
    and "age_rank (permissions db) q \<le> n" and "po_id q \<noteq> i"
  shows "satisfies_loop (permissions db) i n (po_id q) = Inr (above (permissions db) i q)"
  using assms(3-)
proof (induction n arbitrary: q)
  case 0
  then show ?case by (auto simp: age_rank_def)
next
  case (Suc n)
  let ?ps = "permissions db"
  have f: "find_permission_id ?ps (po_id q) = Some q"
    using assms(1) Suc.prems(1) by (simp add: permissions_ok_def find_permission_id_eq)
  have above_q: "above ?ps i q \<longleftrightarrow> (\<exists>p \<in> set ?ps. po_id p = parent q \<and> parent q \<noteq> 0 \<and> above ?ps i p)"
    using Suc.prems(4) by (auto elim: aboveE intro: above_parent)
  show ?case
  proof (cases "parent q = 0")
    case True
    then show ?thesis using f above_q assms(2) by simp
  next
    case False
    then obtain p where p: "p \<in> set ?ps" "po_id p = parent q" "parent q < po_id q"
      using permissions_ok_row [OF assms(1) Suc.prems(1)] Suc.prems(2) unfolding permission_row_ok_def by auto
    have uniq: "p' = p" if "p' \<in> set ?ps" "po_id p' = parent q" for p'
      using permissions_ok_unique [OF assms(1) that(1) p(1)] that(2) p(2) by simp
    show ?thesis
    proof (cases "i = parent q")
      case True
      then show ?thesis using f p above_q False by (auto intro: above_self)
    next
      case ne: False
      have "satisfies_loop ?ps i n (po_id p) = Inr (above ?ps i p)"
        using Suc.IH [of p] p False ne Suc.prems(3) age_rank_less [OF p(1) Suc.prems(1)] by simp
      moreover have "above ?ps i q = above ?ps i p" unfolding above_q using p False uniq by metis
      ultimately show ?thesis using f p(2) False ne by simp
    qed
  qed
qed

text \<open>The reserved row has no parent, so the walk from a permission without parent ends there.\<close>

lemma satisfies_result:
  assumes "permissions_ok db" and "p \<in> set (permissions db)" "q \<in> set (permissions db)" and "po_id p \<noteq> 0" "po_id q \<noteq> 0"
  shows "satisfies (permissions db) p q = Inr (owner p = owner q \<and> above (permissions db) (po_id p) q)"
proof -
  let ?ps = "permissions db"
  obtain z where z: "z \<in> set ?ps" "po_id z = 0" using assms(1) by (auto simp: permissions_ok_def)
  have zp: "parent z = 0" using permissions_ok_row [OF assms(1) z(1)] z(2) by (simp add: permission_row_ok_def)
  have zf: "find_permission_id ?ps 0 = Some z"
    using assms(1) z find_permission_id_eq [of ?ps z] by (simp add: permissions_ok_def)
  have above_q: "above ?ps (po_id p) q \<longleftrightarrow> po_id q = po_id p \<or> (\<exists>r \<in> set ?ps. po_id r = parent q \<and> parent q \<noteq> 0 \<and> above ?ps (po_id p) r)"
    by (auto elim: aboveE intro: above_self above_parent)
  show ?thesis
  proof (cases "po_id p = po_id q \<or> po_id p = parent q")
    case True
    then show ?thesis
      using assms(2,4) above_q by (auto simp: satisfies_def intro: above_self)
  next
    case False
    show ?thesis
    proof (cases "parent q = 0")
      case True
      then show ?thesis using False above_q zf zp assms(4) by (auto simp: satisfies_def)
    next
      case parent: False
      then obtain r where r: "r \<in> set ?ps" "po_id r = parent q"
        using permissions_ok_row [OF assms(1,3)] assms(5) by (auto simp: permission_row_ok_def)
      have uniq: "r' = r" if "r' \<in> set ?ps" "po_id r' = parent q" for r'
        using permissions_ok_unique [OF assms(1) that(1) r(1)] that(2) r(2) by simp
      have "satisfies_loop ?ps (po_id p) (Suc (length ?ps)) (po_id r) = Inr (above ?ps (po_id p) r)"
        using satisfies_loop_result [OF assms(1,4) r(1), of "Suc (length ?ps)"] age_rank_le [of ?ps r] r parent False by simp
      moreover have "above ?ps (po_id p) q = above ?ps (po_id p) r" unfolding above_q using r parent uniq False by metis
      ultimately show ?thesis using False r(2) by (simp add: satisfies_def)
    qed
  qed
qed

section \<open>Changes of the tree\<close>

lemma permission_row_ok_mono: "permission_row_ok ps p \<Longrightarrow> set ps \<subseteq> set qs \<Longrightarrow> permission_row_ok qs p"
  unfolding permission_row_ok_def by (auto split: if_splits)

lemma create_permission_ok:
  assumes "permissions_ok db" and "create_permission env account name parent_id auth t db = Inr (p, db')"
    and "account \<noteq> 0" "name \<noteq> 0"
    and "parent_id = 0 \<or> (\<exists>q \<in> set (permissions db). po_id q = parent_id \<and> owner q = account)"
  shows "permissions_ok db'"
proof -
  have db': "permissions db' = permissions db @ [p]" "permission_next_id db' = Suc (permission_next_id db)"
    and p: "po_id p = permission_next_id db" "owner p = account" "po_name p = name" "parent p = parent_id"
    and new: "find_by_owner (permissions db) account name = None"
    using assms(2) by (auto simp: create_permission_def Let_def split: if_splits)
  have less: "po_id q < permission_next_id db" if "q \<in> set (permissions db)" for q
    using assms(1) that by (simp add: permissions_ok_def)
  have fresh: "po_id p \<notin> po_id ` set (permissions db)" using less p(1) by force
  have unique: "(owner p, po_name p) \<notin> (\<lambda>p. (owner p, po_name p)) ` set (permissions db)"
    using new p(2,3) by (auto simp: find_by_owner_def find_None_iff)
  have "0 < po_id p" using assms(1) less p(1) unfolding permissions_ok_def by (metis gr_implies_not0 gr0I)
  then have row: "permission_row_ok (permissions db @ [p]) p"
    using assms(3-5) p by (auto simp: permission_row_ok_def dest: less)
  show ?thesis
    using assms(1) fresh unique row less p(1) permission_row_ok_mono [of "permissions db" _ "permissions db @ [p]"]
    unfolding permissions_ok_def db' by (auto simp: less_Suc_eq subset_insertI)
qed

lemma permissions_ok_map:
  assumes "permissions_ok db" and db': "permissions db' = map f (permissions db)" "permission_next_id db' = permission_next_id db"
    and f: "\<And>p. po_id (f p) = po_id p \<and> owner (f p) = owner p \<and> po_name (f p) = po_name p \<and> parent (f p) = parent p"
  shows "permissions_ok db'"
proof -
  have "permission_row_ok (map f ps) (f p)" if "permission_row_ok ps p" for p ps
    using that f unfolding permission_row_ok_def by (auto split: if_splits)
  moreover have "map po_id (map f ps) = map po_id ps" "map (\<lambda>p. (owner p, po_name p)) (map f ps) = map (\<lambda>p. (owner p, po_name p)) ps" for ps
    using f by simp_all
  ultimately show ?thesis
    using assms(1) f unfolding permissions_ok_def db' by (simp only: set_map ball_simps bex_simps) auto
qed

lemma modify_permission_ok:
  "permissions_ok db \<Longrightarrow> modify_permission env perm auth db = Inr db' \<Longrightarrow> permissions_ok db'"
  by (erule permissions_ok_map [where f = "\<lambda>p. if po_id p = po_id perm
        then p\<lparr>po_auth := auth, last_updated := pending_block_time env\<rparr> else p"])
    (auto simp: modify_permission_def split: if_splits)

lemma remove_permission_ok:
  assumes "permissions_ok db" and "remove_permission perm db = Inr db'" and "po_id perm \<noteq> 0"
  shows "permissions_ok db'"
proof -
  have leaf: "parent p \<noteq> po_id perm" if "p \<in> set (permissions db)" for p
    using assms(2) that by (auto simp: remove_permission_def list_ex_iff split: if_splits)
  have leaves: "permissions db' = filter (\<lambda>p. po_id p \<noteq> po_id perm) (permissions db)"
      "permission_next_id db' = permission_next_id db"
    using assms(2) by (auto simp: remove_permission_def split: if_splits)
  have "permission_row_ok (filter (\<lambda>p. po_id p \<noteq> po_id perm) (permissions db)) p"
    if "p \<in> set (permissions db)" "permission_row_ok (permissions db) p" for p
    using that leaf [OF that(1)] unfolding permission_row_ok_def by (auto split: if_splits)
  then show ?thesis
    using assms(1,3) unfolding permissions_ok_def leaves by (auto simp: distinct_map_filter)
qed

section \<open>Soundness of the check\<close>

definition covered :: "delay_map \<Rightarrow> permission_level \<Rightarrow> i64 \<Rightarrow> bool" where
  "covered m auth delay \<longleftrightarrow> (\<exists>d. map_of m (actor auth, permission auth) = Some d \<and> sint d \<le> sint delay)"

lemma require_permission_covered: "covered (require_permission auth delay m) auth delay"
  by (auto simp: covered_def require_permission_def split: option.splits)

lemma require_permission_mono: "covered m a d \<Longrightarrow> covered (require_permission auth delay m) a d"
  by (auto simp: covered_def require_permission_def split: option.splits)

text \<open>The declared permission is at or above the one that the action requires.\<close>

definition minimum_met :: "authorization_db \<Rightarrow> action \<Rightarrow> permission_level \<Rightarrow> bool" where
  "minimum_met db act auth \<longleftrightarrow>
     (case lookup_minimum_permission db (actor auth) (act_account act) (act_name act) of
        Inl e \<Rightarrow> False
      | Inr None \<Rightarrow> True
      | Inr (Some n) \<Rightarrow> (\<exists>p q. get_permission db auth = Inr p \<and> get_permission db \<lparr>actor = actor auth, permission = n\<rparr> = Inr q
           \<and> above (permissions db) (po_id p) q))"

lemma assert_satisfies_Inr:
  assumes "permissions_ok db" and "assert_satisfies db auth q = Inr ()" and "q \<in> set (permissions db)" "po_id q \<noteq> 0"
  shows "\<exists>p. get_permission db auth = Inr p \<and> owner p = owner q \<and> above (permissions db) (po_id p) q"
proof -
  obtain p where p: "get_permission db auth = Inr p" "satisfies (permissions db) p q = Inr True"
    using assms(2) by (auto simp: assert_satisfies_def split: if_splits)
  then show ?thesis
    using satisfies_result [OF assms(1) get_permission_mem(1) [OF assms(1) p(1)] assms(3)
      get_permission_mem(4) [OF assms(1) p(1)] assms(4)] by simp
qed

lemma check_declared_auth_result:
  assumes "permissions_ok db" and "check_declared_auth db checktime sat act special delay auth st = Inr st'"
  shows "auth \<in> sat \<or> covered (snd st') auth delay" "covered (snd st) a d \<Longrightarrow> covered (snd st') a d"
    "special \<or> minimum_met db act auth"
proof -
  show "auth \<in> sat \<or> covered (snd st') auth delay" "covered (snd st) a d \<Longrightarrow> covered (snd st') a d"
    using assms(2) by (auto simp: check_declared_auth_def require_permission_covered require_permission_mono cong: if_cong
        split: if_splits)
  show "special \<or> minimum_met db act auth"
  proof (rule disjCI)
    assume "\<not> minimum_met db act auth"
    show special
    proof (rule ccontr)
      assume "\<not> special"
      then obtain min_name where min: "lookup_minimum_permission db (actor auth) (act_account act) (act_name act) = Inr min_name"
        and rest: "(case min_name of None \<Rightarrow> Inr () | Some n \<Rightarrow>
            res_bind (get_permission db \<lparr>actor = actor auth, permission = n\<rparr>) (assert_satisfies db auth)) = Inr ()"
        using assms(2) by (auto simp: check_declared_auth_def)
      have "minimum_met db act auth"
      proof (cases min_name)
        case (Some n)
        then obtain q where q: "get_permission db \<lparr>actor = actor auth, permission = n\<rparr> = Inr q" "assert_satisfies db auth q = Inr ()"
          using rest by auto
        then show ?thesis
          using assert_satisfies_Inr [OF assms(1) q(2) get_permission_mem(1,4) [OF assms(1) q(1)]] min Some
          by (auto simp: minimum_met_def)
      qed (simp add: minimum_met_def min)
      then show False using \<open>\<not> minimum_met db act auth\<close> by simp
    qed
  qed
qed

lemma check_satisfied_result:
  assumes "check_satisfied checktime p (n, ck\<lparr>used_key_marks := u\<rparr>) = Inr st"
  shows "level_satisfied (ck\<lparr>provided_delay := snd p\<rparr>) \<lparr>actor = fst (fst p), permission = snd (fst p)\<rparr>"
    "\<exists>u'. snd st = ck\<lparr>used_key_marks := u'\<rparr>"
proof -
  let ?ck = "ck\<lparr>used_key_marks := u, provided_delay := snd p\<rparr>"
  obtain ck' where s: "satisfied_permission ?ck \<lparr>actor = fst (fst p), permission = snd (fst p)\<rparr> = Inr (True, ck')"
    and st: "snd st = ck'\<lparr>provided_delay := provided_delay ck\<rparr>"
    using assms by (auto simp: check_satisfied_def satisfied_permission_delay_def split: if_splits)
  obtain u' where ck': "ck' = ?ck\<lparr>used_key_marks := u'\<rparr>" using s by (auto simp: satisfied_permission_def)
  have "level_satisfied ?ck \<lparr>actor = fst (fst p), permission = snd (fst p)\<rparr>" using s by (rule satisfied_level)
  then show "level_satisfied (ck\<lparr>provided_delay := snd p\<rparr>) \<lparr>actor = fst (fst p), permission = snd (fst p)\<rparr>"
    by (rule level_satisfied_mono) simp_all
  show "\<exists>u'. snd st = ck\<lparr>used_key_marks := u'\<rparr>" using st ck' by (intro exI [of _ u']) simp
qed

lemma check_action_result:
  assumes "permissions_ok db" and "check_action env db checktime sat eff act st = Inr st'"
  shows "\<exists>special delay. check_native_action env db eff act = Inr (special, delay)
      \<and> (\<forall>auth \<in> set (authorization act). (auth \<in> sat \<or> covered (snd st') auth delay) \<and> (special \<or> minimum_met db act auth))"
    "covered (snd st) a d \<Longrightarrow> covered (snd st') a d"
proof -
  obtain special delay where n: "check_native_action env db eff act = Inr (special, delay)"
    and fold: "res_fold (check_declared_auth db checktime sat act special delay) (authorization act) st = Inr st'"
    using assms(2) by (auto simp: check_action_def)
  note step = check_declared_auth_result [OF assms(1)]
  have "(auth \<in> sat \<or> covered (snd st') auth delay) \<and> (special \<or> minimum_met db act auth)"
    if "auth \<in> set (authorization act)" for auth
    using fold that
  proof (rule res_fold_all)
    show "(y \<in> sat \<or> covered (snd v) y delay) \<and> (special \<or> minimum_met db act y)"
      if "check_declared_auth db checktime sat act special delay y u = Inr v" for y u v
      using step(1,3) [OF that] by simp
    show "(z \<in> sat \<or> covered (snd v) z delay) \<and> (special \<or> minimum_met db act z)"
      if "check_declared_auth db checktime sat act special delay y u = Inr v"
        "(z \<in> sat \<or> covered (snd u) z delay) \<and> (special \<or> minimum_met db act z)" for y z u v
      using step(2) [OF that(1)] that(2) by blast
  qed
  then show "\<exists>special delay. check_native_action env db eff act = Inr (special, delay)
      \<and> (\<forall>auth \<in> set (authorization act). (auth \<in> sat \<or> covered (snd st') auth delay) \<and> (special \<or> minimum_met db act auth))"
    using n by blast
  show "covered (snd st) a d \<Longrightarrow> covered (snd st') a d"
    using res_fold_invariant [OF fold, of "\<lambda>s. covered (snd s) a d"] step(2) by blast
qed

lemma all_satisfied:
  assumes "res_fold (check_satisfied checktime) ps (n, ck) = Inr st" and "p \<in> set ps"
  shows "level_satisfied (ck\<lparr>provided_delay := snd p\<rparr>) \<lparr>actor = fst (fst p), permission = snd (fst p)\<rparr>"
proof -
  have "\<exists>u'. ck = ck\<lparr>used_key_marks := u'\<rparr>" by (intro exI [of _ "used_key_marks ck"]) simp
  then have "\<forall>q \<in> set ps. level_satisfied (ck\<lparr>provided_delay := snd q\<rparr>) \<lparr>actor = fst (fst q), permission = snd (fst q)\<rparr>"
    if "res_fold (check_satisfied checktime) ps (n, ck') = Inr st" "\<exists>u'. ck' = ck\<lparr>used_key_marks := u'\<rparr>" for ps n ck'
    using that
  proof (induction ps arbitrary: n ck')
    case (Cons q ps)
    then obtain u where u: "ck' = ck\<lparr>used_key_marks := u\<rparr>" by blast
    obtain m ck'' where s: "check_satisfied checktime q (n, ck\<lparr>used_key_marks := u\<rparr>) = Inr (m, ck'')"
      and "res_fold (check_satisfied checktime) ps (m, ck'') = Inr st"
      using Cons.prems(2) u by auto
    then show ?case using Cons.IH [OF Cons.prems(1), of m ck''] check_satisfied_result [OF s] by simp
  qed simp
  then show ?thesis using assms \<open>\<exists>u'. ck = ck\<lparr>used_key_marks := u'\<rparr>\<close> by blast
qed

section \<open>Properties\<close>

text \<open>
  C36. \<open>check_authorization\<close> lets a transaction pass only when each of its actions is authorized: every
  declared authorization names a permission at or above the one that the action is linked to (the
  native actions have their own checks), and unless it is among the authorizations known to be
  satisfied, the keys, permission levels and delay provided satisfy it in exact arithmetic, under
  the delay that applies to the action.
\<close>

theorem check_authorization_sound:
  assumes "permissions_ok db" and "check_authorization env db acts ks perms delay checktime allow sat = Inr ()"
    and "act \<in> set acts" and "auth \<in> set (authorization act)"
  shows "\<exists>special d. check_native_action env db (effective_delay env delay) act = Inr (special, d)
    \<and> (special \<or> minimum_met db act auth)
    \<and> (auth \<in> sat \<or> level_satisfied (make_auth_checker (lookup_authority db) (max_authority_depth env) ks perms d) auth)"
proof -
  let ?eff = "effective_delay env delay"
  let ?ck = "make_auth_checker (lookup_authority db) (max_authority_depth env) ks perms"
  obtain n m st where acts: "res_fold (check_action env db checktime sat ?eff) acts (0, []) = Inr (n, m)"
    and sat: "res_fold (check_satisfied checktime) m (n, ?ck ?eff) = Inr st"
    using assms(2) by (auto simp: check_authorization_def Let_def)
  note step = check_action_result [OF assms(1)]
  have "\<exists>special d. check_native_action env db ?eff act = Inr (special, d)
      \<and> (\<forall>auth \<in> set (authorization act). (auth \<in> sat \<or> covered (snd (n, m)) auth d) \<and> (special \<or> minimum_met db act auth))"
    using acts assms(3)
  proof (rule res_fold_all)
    show "\<exists>special d. check_native_action env db ?eff z = Inr (special, d)
      \<and> (\<forall>auth \<in> set (authorization z). (auth \<in> sat \<or> covered (snd v) auth d) \<and> (special \<or> minimum_met db z auth))"
      if f: "check_action env db checktime sat ?eff y u = Inr v" and q: "\<exists>special d. check_native_action env db ?eff z = Inr (special, d)
      \<and> (\<forall>auth \<in> set (authorization z). (auth \<in> sat \<or> covered (snd u) auth d) \<and> (special \<or> minimum_met db z auth))" for y z u v
      using step(2) [OF f] q by meson
  qed (rule step(1))
  then obtain special d where nat: "check_native_action env db ?eff act = Inr (special, d)"
    and auth: "auth \<in> sat \<or> covered m auth d" "special \<or> minimum_met db act auth"
    using assms(4) by auto
  have "level_satisfied (?ck d) auth" if cov: "covered m auth d"
  proof -
    obtain d' where d': "map_of m (actor auth, permission auth) = Some d'" "sint d' \<le> sint d"
      using cov by (auto simp: covered_def)
    then have "((actor auth, permission auth), d') \<in> set m" by (auto dest: map_of_SomeD)
    from all_satisfied [OF sat this]
    have "level_satisfied ((?ck ?eff)\<lparr>provided_delay := d'\<rparr>) \<lparr>actor = actor auth, permission = permission auth\<rparr>" by simp
    then have "level_satisfied ((?ck ?eff)\<lparr>provided_delay := d'\<rparr>) auth" by (cases auth) simp
    then show ?thesis by (rule level_satisfied_mono) (simp_all add: make_auth_checker_def d')
  qed
  then show ?thesis using nat auth by blast
qed

text \<open>
  C37. \<open>satisfies\<close> walks up the permission tree without ever looping or leaving the table, and says
  yes exactly when the other permission belongs to the same account and is the permission itself
  or one of its descendants.
\<close>

theorem satisfies_hierarchy:
  assumes "permissions_ok db" and "get_permission db l = Inr p" and "get_permission db l' = Inr q"
  shows "satisfies (permissions db) p q = Inr (actor l = actor l' \<and> above (permissions db) (po_id p) q)"
  using satisfies_result [OF assms(1) get_permission_mem(1) [OF assms(1,2)] get_permission_mem(1) [OF assms(1,3)]
      get_permission_mem(4) [OF assms(1,2)] get_permission_mem(4) [OF assms(1,3)]]
    get_permission_mem(2) [OF assms(1,2)] get_permission_mem(2) [OF assms(1,3)] by simp

section \<open>Witnesses\<close>

definition example_authority :: authority where
  "example_authority = \<lparr>threshold = 1, keys = [\<lparr>kw_key = K1 [1], kw_weight = 1\<rparr>], accounts = [], waits = []\<rparr>"

definition example_permission :: "nat \<Rightarrow> nat \<Rightarrow> permission_name \<Rightarrow> permission_object" where
  "example_permission i p n = \<lparr>po_id = i, usage_id = i, parent = p, owner = 5, po_name = n, last_updated = 0, po_auth = example_authority\<rparr>"

definition empty_authorization_db :: authorization_db where
  "empty_authorization_db = \<lparr>permissions = [], permission_next_id = 0, permission_usages = [], usage_next_id = 0,
     permission_links = [], link_next_id = 0, generated_transactions = []\<rparr>"

definition example_auth_db :: authorization_db where
  "example_auth_db =
     (let db = initialize_authorization_database empty_authorization_db
      in db\<lparr>permissions := permissions db @ [example_permission 1 0 owner_name, example_permission 2 1 active_name],
            permission_next_id := 3\<rparr>)"

definition example_env :: auth_env where
  "example_env = \<lparr>num_supported_key_types = 2, pending_block_time = 1000, max_transaction_delay = 60,
     max_authority_depth = 6, builtin_activated = (\<lambda>_. False)\<rparr>"

definition example_action :: action where
  "example_action = \<lparr>act_account = 9, act_name = 7, authorization = [\<lparr>actor = 5, permission = active_name\<rparr>], act_data = []\<rparr>"

lemmas example_auth_defs = example_auth_db_def empty_authorization_db_def initialize_authorization_database_def
  example_permission_def example_authority_def

lemma example_auth_db_ok: "permissions_ok example_auth_db"
  by (simp add: example_auth_defs permissions_ok_def permission_row_ok_def Let_def name_values)

lemma example_get_permission:
  "get_permission example_auth_db \<lparr>actor = 5, permission = active_name\<rparr> = Inr (example_permission 2 1 active_name)"
  "get_permission example_auth_db \<lparr>actor = 5, permission = owner_name\<rparr> = Inr (example_permission 1 0 owner_name)"
  by (simp_all add: get_permission_def rethrow_as_def find_by_owner_def example_auth_defs Let_def name_values)

lemma example_check_authorization:
  "check_authorization example_env example_auth_db [example_action] [K1 [1]] {} 0 (\<lambda>_. Inr ()) False {} = Inr ()"
proof -
  have fields: "act_account example_action = 9" "act_name example_action = 7"
    "authorization example_action = [\<lparr>actor = 5, permission = active_name\<rparr>]"
    by (simp_all add: example_action_def)
  have native: "check_native_action example_env example_auth_db 0 example_action = Inr (False, 0)"
    by (simp add: check_native_action_def fields name_values)
  have links: "lookup_minimum_permission example_auth_db 5 9 7 = Inr (Some active_name)"
    by (simp add: lookup_minimum_permission_def lookup_linked_permission_def find_link_def example_auth_defs Let_def name_values)
  have act: "assert_satisfies example_auth_db \<lparr>actor = 5, permission = active_name\<rparr> (example_permission 2 1 active_name) = Inr ()"
    by (simp add: assert_satisfies_def example_get_permission satisfies_def del: res_bind_eq_Inr)
  have eff: "effective_delay example_env 0 = 0" by (simp add: effective_delay_def example_env_def)
  have declared: "check_action example_env example_auth_db (\<lambda>_. Inr ()) {} 0 example_action (0, [])
      = Inr (1, [((5, active_name), 0)])"
    by (simp add: check_action_def native check_declared_auth_def require_permission_def fields links act [simplified]
        example_get_permission del: res_bind_eq_Inr)
  have ev: "satisfied_permission_delay (make_auth_checker (lookup_authority example_auth_db) (max_authority_depth example_env)
      [K1 [1]] {} 0) \<lparr>actor = 5, permission = active_name\<rparr> 0
      = Inr (True, (make_auth_checker (lookup_authority example_auth_db) (max_authority_depth example_env)
      [K1 [1]] {} 0)\<lparr>used_key_marks := [True]\<rparr>)"
    by (simp add: satisfied_permission_delay_def satisfied_permission_def make_auth_checker_def permission_status_in_cache_def
        initialize_permission_cache_def lookup_authority_def example_get_permission example_env_def
        example_permission_def example_authority_def satisfied_authority.simps meta_permissions_def del: res_bind_eq_Inr cong: if_cong)
  show ?thesis
    by (simp add: check_authorization_def Let_def eff declared check_satisfied_def ev all_keys_used_def del: res_bind_eq_Inr)
qed

theorem check_authorization_sound_witness:
  "\<exists>special d. check_native_action example_env example_auth_db (effective_delay example_env 0) example_action = Inr (special, d)
    \<and> (special \<or> minimum_met example_auth_db example_action \<lparr>actor = 5, permission = active_name\<rparr>)
    \<and> level_satisfied (make_auth_checker (lookup_authority example_auth_db) (max_authority_depth example_env) [K1 [1]] {} d)
        \<lparr>actor = 5, permission = active_name\<rparr>"
  using check_authorization_sound [OF example_auth_db_ok example_check_authorization, of example_action
      "\<lparr>actor = 5, permission = active_name\<rparr>"]
  by (simp add: example_action_def)

theorem satisfies_hierarchy_witness:
  "satisfies (permissions example_auth_db) (example_permission 1 0 owner_name) (example_permission 2 1 active_name)
     = Inr (above (permissions example_auth_db) 1 (example_permission 2 1 active_name))"
  using satisfies_hierarchy [OF example_auth_db_ok example_get_permission(2) example_get_permission(1)]
  by (simp add: example_permission_def)

end
