(* ===== verification/System_Contract.thy ===== *)
theory System_Contract
  imports Authorization_Manager Resource_Limits Block_Header
begin

text \<open>
  The native actions of the system account (\<open>inery_contract.cpp\<close>) on the tables of the chain state:
  accounts and their metadata (\<open>account_object.hpp\<close>), code (\<open>code_object.hpp\<close>), permissions and
  links, and the memory they are charged for. A handler is a function from the state to the
  state, or the exception it throws; the undo session around a transaction discards the changes
  of a handler that throws.

  What the handlers ask of the controller (the number of the head block, whether a block is being
  produced, the key blacklist of its configuration) is in the environment, and so are WebAssembly
  validation and SHA-256, as arbitrary functions.
\<close>

unbundle bit_operations_syntax

section \<open>State\<close>


record account_metadata_object =
  recv_sequence :: u64
  auth_sequence :: u64
  code_sequence :: u64
  abi_sequence :: u64
  code_hash :: digest_type
  last_code_update :: i64
  flags :: u32
  vm_type :: u8
  vm_version :: u8



definition set_privileged :: "bool \<Rightarrow> account_metadata_object \<Rightarrow> account_metadata_object" where
  "set_privileged b m = m\<lparr>flags := (if b then flags m OR 1 else flags m AND NOT 1)\<rparr>"





section \<open>Billable sizes\<close>










section \<open>The apply context\<close>


definition has_authorization :: "action \<Rightarrow> account_name \<Rightarrow> bool" where
  "has_authorization act account \<longleftrightarrow> list_ex (\<lambda>p. actor p = account) (authorization act)"




section \<open>Handlers\<close>


















section \<open>Charging memory\<close>




section \<open>Memory in use\<close>









section \<open>Invariant\<close>










section \<open>Preservation\<close>












lemma rethrow_as_Inr [simp]: "rethrow_as e r = Inr x \<longleftrightarrow> r = Inr x"
  by (cases r) (simp_all add: rethrow_as_def)


























section \<open>Properties\<close>




section \<open>Witnesses\<close>











end
