(* ===== verification/Spec2Isabelle.thy ===== *)
theory Spec2Isabelle
  imports Prelude Name_Type Digest Merkle Resource_Limits Protocol_Features Authority Raw_Codec Key_Codec
    Block_Header Block_Header_State Transaction Block_State Fork_Database
    Authority_Checker Contract_Types Authorization_Manager System_Contract
begin

text \<open>
  Verification of the core of the Inery node, the C++ library \<open>libraries/chain\<close> with the parts of
  \<open>libraries/fc\<close> that fix its binary format.

  \<^bold>\<open>The program.\<close> A node keeps a tree of blocks above the last irreversible one (the fork
  database), extends it by blocks it produces or receives, and advances its root when enough
  producers have confirmed (delegated proof of stake). Every block carries a header whose state
  is computed from the state of the block before it, and transactions whose actions declare
  authorizations. A transaction is authorized by signatures, checked against the permissions of
  the accounts, and billed for CPU, network and memory. The actions of the system account change
  accounts, permissions, links and code; all other actions run contract code in WebAssembly.

  \<^bold>\<open>Conventions.\<close> A struct or class is a record, an enumeration or tagged union a datatype, an
  integer a word of its width (signed ones in two's complement, read with \<open>sint\<close>), a database
  table a list of rows with distinct keys. A function that may throw returns \<open>'a res\<close>, with the
  exception as \<open>Inl\<close>; \<open>INE_ASSERT\<close> is the macro of this name. Undefined behaviour of C++ is the
  exception \<open>undefined_behaviour\<close>. What is not source code of the repository is a parameter:
  SHA-256 and key recovery (record \<open>crypto\<close>, arguments \<open>sha\<close> and \<open>recover\<close>), zlib (record \<open>zlib\<close>,
  with the documented laws \<open>zlib_laws\<close>), clock readings (functions of the number of the reading).

  \<^bold>\<open>Theories\<close>, from the bottom up.

  \<^item> \<open>Prelude\<close>: integers, exceptions, results and loops over results, tables (contract \<open>row_table\<close>,
    interpreted on the association lists that all components use), sorted maps, and lemmas on
    words and lists.
  \<^item> \<open>Name_Type\<close> (\<open>name.hpp\<close>, \<open>name.cpp\<close>): names in 64 bits; parsing and printing are inverse.
  \<^item> \<open>Digest\<close> (\<open>sha256.hpp\<close>, \<open>types.hpp\<close>): digests, their order, byte reversal.
  \<^item> \<open>Merkle\<close> (\<open>merkle.cpp\<close>, \<open>incremental_merkle.hpp\<close>): the incremental tree has the root of the
    batch algorithm, for up to \<open>2 ^ 63\<close> leaves, the range of its depth computation.
  \<^item> \<open>Raw_Codec\<close> and \<open>Key_Codec\<close> (\<open>fc/io/raw.hpp\<close> and the \<open>FC_REFLECT\<close> declarations): the binary
    format. The locale \<open>raw_codec\<close> is the contract of a packer with its unpacker (round trip, and a
    truncated input is refused); it is interpreted for every type that the later theories read or
    write: integers, strings, keys, schedules, transactions, signatures, action data.
  \<^item> \<open>Resource_Limits\<close> (\<open>resource_limits.cpp\<close>, \<open>.hpp\<close>, \<open>_private.hpp\<close>): moving averages, elastic
    limits, account limits and usage. Results are exact in natural numbers, limits are enforced,
    totals stay the sums of the rows.
  \<^item> \<open>Protocol_Features\<close> (\<open>protocol_feature_manager.cpp\<close>, \<open>.hpp\<close>): recognized features and the
    activation history, which follows the chain through fork switches.
  \<^item> \<open>Authority\<close> (\<open>authority.hpp\<close>, \<open>producer_schedule.hpp\<close>): keys, weighted authorities, schedules.
  \<^item> \<open>Block_Header\<close>, \<open>Block_Header_State\<close> (\<open>block_header.cpp\<close>, \<open>block_header_state.cpp\<close>, \<open>.hpp\<close>,
    \<open>block_timestamp.hpp\<close>, \<open>protocol_feature_activation.cpp\<close>): headers, ids, extensions, and the
    consensus state: confirmations, irreversibility by two thirds and its stability, schedules and
    their announcement in a header, signatures of a block.
  \<^item> \<open>Transaction\<close> (\<open>action.hpp\<close>, \<open>transaction.cpp\<close>, \<open>.hpp\<close>, \<open>transaction_metadata.cpp\<close>): packing and
    compression, signing keys, what a signature binds.
  \<^item> \<open>Block_State\<close> (\<open>block.cpp\<close>, \<open>block_state.cpp\<close>): both constructors of a block state; a produced
    block is accepted by the receiving one.
  \<^item> \<open>Fork_Database\<close> (\<open>fork_database.cpp\<close>): the tree of blocks, the head, branches, removal, the
    root, and the file written on shutdown. \<open>fdb_reachable\<close> are the databases that calls reach,
    returning or throwing; they are trees whose head is the best validated block.
  \<^item> \<open>Authority_Checker\<close> (\<open>authority_checker.hpp\<close>): evaluation of an authority. \<open>level_satisfied\<close> is
    the specification, an inductive predicate in exact arithmetic; the checker is sound for it
    always, and exact on valid authorities without cycles that are not nested too deeply.
  \<^item> \<open>Contract_Types\<close> (\<open>contract_types.hpp\<close>): the data of the native actions.
  \<^item> \<open>Authorization_Manager\<close> (\<open>authorization_manager.cpp\<close>, \<open>permission_object.hpp\<close>,
    \<open>permission_link_object.hpp\<close>): permissions as trees, links, and the authorization of a
    transaction.
  \<^item> \<open>System_Contract\<close> (\<open>inery_contract.cpp\<close>, \<open>account_object.hpp\<close>, \<open>code_object.hpp\<close>): the eight native
    handlers with the memory they charge. \<open>system_ok\<close> is the invariant of the tables and
    \<open>memory_in_use\<close> the specification of what an account owes.

  \<^bold>\<open>Loops.\<close> Loops over containers are structural recursions. The loops over previous pointers in
  the fork database take a number of rounds, the square of the size of the index plus two, and return
  \<open>None\<close> when it is used up; \<open>fork_database_loops_end\<close> shows that this does not happen in a
  reachable database. The walk up the permission tree takes one round more than there are
  permissions; by \<open>satisfies_hierarchy\<close> it never uses them up on consistent tables. The evaluation of
  authorities recurses through the depth limit of the code.

  \<^bold>\<open>Defects shown.\<close> \<open>used_keys_incomplete\<close>: the checker can forget a key that it needed.
  \<open>advance_root_leaves_orphans\<close>: a throw of \<open>advance_root\<close> can leave a block without its predecessor.
  \<open>pack_fundamental_vector_loses_data\<close>: a vector packer writes too few bytes. \<open>get_ref_blocknum_is_head\<close>
  and \<open>fetch_branch_missing\<close>: the code differs from its comment.

  \<^bold>\<open>Not modelled.\<close> The controller and the execution of contracts (WebAssembly, contract tables,
  inline and deferred actions, wall-clock deadlines) beyond the parts that the native actions
  call; chainbase itself, of which the theories use the documented operations on tables; the block
  log, snapshots and the ABI serializer (input and output); the plugins and programs around the
  library; vendored libraries. Left for later: chain configuration and genesis, whitelisted
  intrinsics, assets, and the queue of unapplied transactions.
\<close>

end
